(* ===== verification/Prelude.thy ===== *)
theory Prelude
  imports Main "HOL-Library.Word" "HOL-Library.Code_Target_Nat"
begin

text \<open>
  The vocabulary every component shares: the machine integers of the crate as words, the
  outcome of a Rust call (a value, an \<open>Err\<close>, or a panic), the checked, saturating and plain
  arithmetic of \<^verbatim>\<open>u64\<close>, little-endian decoding, slices and indexes that panic out of
  range, and the two list facts most proofs use. \<^verbatim>\<open>usize\<close> is taken to be 64 bits wide, so \<^verbatim>\<open>as usize\<close> on a
  \<^verbatim>\<open>u64\<close> is the identity; lengths of byte vectors are kept as natural numbers.
\<close>

section \<open>Machine integers and bytes\<close>

type_synonym u8 = "8 word"
type_synonym u32 = "32 word"
type_synonym u64 = "64 word"
type_synonym bytes = "u8 list"

named_theorems outcome_elims \<open>inversion rules for successful outcomes\<close>

section \<open>Outcomes: values, errors, panics\<close>

text \<open>
  A Rust function returning \<^verbatim>\<open>Result<A, E>\<close> has three outcomes: \<open>Inr a\<close> is
  \<^verbatim>\<open>Ok(a)\<close>, \<open>Inl (Err e)\<close> is \<^verbatim>\<open>Err(e)\<close> and \<open>Inl (Panic p)\<close> is a
  panic (unwinding) with reason \<open>p\<close>.
\<close>

datatype panic_reason =
    ArithmeticOverflow
  | DivisionByZero
  | CapacityOverflow
  | SliceOutOfRange
  | IndexOutOfBounds
  | CalleePanic string

datatype 'e fault = Err 'e | Panic panic_reason

type_synonym ('e, 'a) outcome = "'e fault + 'a"

text \<open>The \<^verbatim>\<open>?\<close> operator: go on with the value, or return the fault at once.\<close>

definition and_then :: "('e, 'a) outcome \<Rightarrow> ('a \<Rightarrow> ('e, 'b) outcome) \<Rightarrow> ('e, 'b) outcome" where
  "and_then m f = (case m of Inl e \<Rightarrow> Inl e | Inr a \<Rightarrow> f a)"

lemma and_then_simps [simp]:
  "and_then (Inl e) f = Inl e"
  "and_then (Inr a) f = f a"
  by (simp_all add: and_then_def)

lemma and_then_eq_Inr [simp]:
  "and_then m f = Inr b \<longleftrightarrow> (\<exists>a. m = Inr a \<and> f a = Inr b)"
  by (simp add: and_then_def split: sum.split)

lemma and_then_eq_Inl:
  "and_then m f = Inl e \<longleftrightarrow> m = Inl e \<or> (\<exists>a. m = Inr a \<and> f a = Inl e)"
  by (simp add: and_then_def split: sum.split)

lemma and_then_cong: "m = m' \<Longrightarrow> (\<And>a. m' = Inr a \<Longrightarrow> f a = g a) \<Longrightarrow> and_then m f = and_then m' g"
  by (simp add: and_then_def split: sum.split)

lemma and_then_assoc: "and_then (and_then m f) g = and_then m (\<lambda>a. and_then (f a) g)"
  by (simp add: and_then_def split: sum.split)

text \<open>\<^verbatim>\<open>map_err\<close> and the \<^verbatim>\<open>From\<close> conversion of \<^verbatim>\<open>?\<close>: the error is rewrapped, a panic passes.\<close>

fun map_err :: "('e \<Rightarrow> 'f) \<Rightarrow> ('e, 'a) outcome \<Rightarrow> ('f, 'a) outcome" where
  "map_err f (Inr a) = Inr a"
| "map_err f (Inl (Err e)) = Inl (Err (f e))"
| "map_err f (Inl (Panic p)) = Inl (Panic p)"

lemma map_err_eq_Inr [simp]: "map_err f m = Inr a \<longleftrightarrow> m = Inr a"
  by (cases "(f, m)" rule: map_err.cases) auto

definition ok_or :: "'e \<Rightarrow> 'a option \<Rightarrow> ('e, 'a) outcome" where
  "ok_or e x = (case x of None \<Rightarrow> Inl (Err e) | Some a \<Rightarrow> Inr a)"

lemma ok_or_simps [simp]:
  "ok_or e None = Inl (Err e)"
  "ok_or e (Some a) = Inr a"
  by (simp_all add: ok_or_def)

lemma ok_or_eq_Inr [simp]: "ok_or e x = Inr a \<longleftrightarrow> x = Some a"
  by (cases x) auto

text \<open>No panic: the outcome is a value or an error.\<close>

fun no_panic :: "('e, 'a) outcome \<Rightarrow> bool" where
  "no_panic (Inr a) = True"
| "no_panic (Inl (Err e)) = True"
| "no_panic (Inl (Panic p)) = False"

lemma no_panic_and_then [intro!]:
  "no_panic m \<Longrightarrow> (\<And>a. m = Inr a \<Longrightarrow> no_panic (f a)) \<Longrightarrow> no_panic (and_then m f)"
  by (cases m rule: no_panic.cases) auto

lemma no_panic_map_err [simp]: "no_panic (map_err f m) = no_panic m"
  by (cases m rule: no_panic.cases) auto

lemma no_panic_ok_or [simp]: "no_panic (ok_or e x)"
  by (cases x) auto

text \<open>Applying a fallible function to each element, in order, stopping at the first fault.\<close>

fun traverse :: "('a \<Rightarrow> ('e, 'b) outcome) \<Rightarrow> 'a list \<Rightarrow> ('e, 'b list) outcome" where
  "traverse f [] = Inr []"
| "traverse f (x # xs) = and_then (f x) (\<lambda>y. and_then (traverse f xs) (\<lambda>ys. Inr (y # ys)))"

lemma traverse_Inr_iff:
  "traverse f xs = Inr ys \<longleftrightarrow> list_all2 (\<lambda>x y. f x = Inr y) xs ys"
proof (induction xs arbitrary: ys)
  case Nil
  then show ?case by auto
next
  case (Cons x xs)
  then show ?case by (cases ys) auto
qed

lemma traverse_total: "(\<And>x. x \<in> set xs \<Longrightarrow> f x = Inr (g x)) \<Longrightarrow> traverse f xs = Inr (map g xs)"
  by (induction xs) auto

lemma traverse_length: "traverse f xs = Inr ys \<Longrightarrow> length ys = length xs"
  by (auto simp: traverse_Inr_iff dest: list_all2_lengthD)

lemma no_panic_traverse: "(\<And>x. x \<in> set xs \<Longrightarrow> no_panic (f x)) \<Longrightarrow> no_panic (traverse f xs)"
  by (induction xs) (auto intro!: no_panic_and_then)

section \<open>Arithmetic of u64\<close>

text \<open>
  \<^verbatim>\<open>checked_add\<close>, \<^verbatim>\<open>checked_mul\<close>, \<^verbatim>\<open>saturating_sub\<close> and
  \<^verbatim>\<open>div_ceil\<close> behave the same in every build. The plain \<^verbatim>\<open>+\<close> and \<^verbatim>\<open>-\<close>
  do not: with overflow checks on (debug, test and fuzz builds) an overflow panics, without
  (release builds) it wraps. The flag \<open>oc\<close> is that build setting.
\<close>

definition checked_add :: "u64 \<Rightarrow> u64 \<Rightarrow> u64 option" where
  "checked_add a b = (if unat a + unat b < 2 ^ 64 then Some (a + b) else None)"

definition checked_mul :: "u64 \<Rightarrow> u64 \<Rightarrow> u64 option" where
  "checked_mul a b = (if unat a * unat b < 2 ^ 64 then Some (a * b) else None)"

definition saturating_sub :: "u64 \<Rightarrow> u64 \<Rightarrow> u64" where
  "saturating_sub a b = (if a < b then 0 else a - b)"

definition div_ceil :: "u64 \<Rightarrow> u64 \<Rightarrow> u64" where
  "div_ceil a b = a div b + (if a mod b > 0 then 1 else 0)"

definition plain_add :: "bool \<Rightarrow> u64 \<Rightarrow> u64 \<Rightarrow> ('e, u64) outcome" where
  "plain_add oc a b =
     (if oc \<and> unat a + unat b \<ge> 2 ^ 64 then Inl (Panic ArithmeticOverflow) else Inr (a + b))"

definition plain_sub :: "bool \<Rightarrow> u64 \<Rightarrow> u64 \<Rightarrow> ('e, u64) outcome" where
  "plain_sub oc a b = (if oc \<and> a < b then Inl (Panic ArithmeticOverflow) else Inr (a - b))"

text \<open>The largest allocation Rust's \<^verbatim>\<open>Vec\<close> accepts, \<^verbatim>\<open>isize::MAX\<close> bytes; above it the vector panics.\<close>

definition isize_max :: nat where
  "isize_max = 2 ^ 63 - 1"

definition with_capacity :: "u64 \<Rightarrow> ('e, unit) outcome" where
  "with_capacity n = (if unat n > isize_max then Inl (Panic CapacityOverflow) else Inr ())"

lemma unat_bound: "unat (w :: 'a::len word) < 2 ^ LENGTH('a)"
  by (rule unsigned_less)

lemma unat_add_small: "unat (a :: u64) + unat b < 2 ^ 64 \<Longrightarrow> unat (a + b) = unat a + unat b"
  by (subst unat_add_lem [symmetric]) simp

lemma unat_mult_small: "unat (a :: u64) * unat b < 2 ^ 64 \<Longrightarrow> unat (a * b) = unat a * unat b"
  by (subst unat_mult_lem [symmetric]) simp

lemma unat_of_nat_small [simp]: "n < 2 ^ 64 \<Longrightarrow> unat (word_of_nat n :: u64) = n"
  by (simp add: unat_of_nat take_bit_nat_eq_self)

lemma unat_u64_less [simp]: "unat (x :: u64) < 18446744073709551616"
  using unat_bound [of x] by simp

lemma unat_ucast_u32 [simp]: "unat (ucast (x :: u32) :: u64) = unat x"
proof -
  have "uint x < 2 ^ 64" using uint_lt2p [of x] by simp
  then have "uint (ucast x :: u64) = uint x"
    by (simp add: unsigned_ucast_eq take_bit_int_eq_self)
  then show ?thesis by (metis unat_eq_nat_uint)
qed

lemma checked_add_Some: "checked_add a b = Some c \<longleftrightarrow> unat a + unat b < 2 ^ 64 \<and> c = a + b"
  by (auto simp: checked_add_def)

lemma checked_mul_Some: "checked_mul a b = Some c \<longleftrightarrow> unat a * unat b < 2 ^ 64 \<and> c = a * b"
  by (auto simp: checked_mul_def)

lemma unat_saturating_sub: "unat (saturating_sub a b) = unat a - unat b"
  by (auto simp: saturating_sub_def word_less_nat_alt unat_sub word_le_nat_alt)

lemma plain_add_small [simp]: "unat a + unat b < 2 ^ 64 \<Longrightarrow> plain_add oc a b = Inr (a + b)"
  by (simp add: plain_add_def)

lemma plain_sub_le [simp]: "b \<le> a \<Longrightarrow> plain_sub oc a b = Inr (a - b)"
  by (auto simp: plain_sub_def)

lemma plain_add_Inr: "plain_add oc a b = Inr c \<Longrightarrow> c = a + b"
  by (auto simp: plain_add_def split: if_splits)

lemma plain_add_release [simp]: "plain_add False a b = Inr (a + b)"
  by (simp add: plain_add_def)

lemma plain_sub_release [simp]: "plain_sub False a b = Inr (a - b)"
  by (simp add: plain_sub_def)

lemma div_ceil_nat:
  assumes "b > 0"
  shows "unat (div_ceil a b) = (unat a + unat b - 1) div unat b"
proof -
  have b: "0 < unat b" using assms by (simp add: word_less_nat_alt)
  define q m where "q = unat a div unat b" and "m = unat a mod unat b"
  have am: "unat a = q * unat b + m" and ml: "m < unat b"
    using b by (simp_all add: q_def m_def)
  have lhs: "unat (div_ceil a b) = q + (if m > 0 then 1 else 0)"
  proof (cases "m > 0")
    case True
    then have "unat b > 1" using ml by simp
    then have "q < unat a \<or> unat a = 0"
      unfolding q_def by (metis div_less_dividend gr0I)
    moreover have "unat a > 0" using True am by simp
    ultimately have "q + 1 \<le> unat a" by simp
    moreover have "unat a < 2 ^ 64" using unat_bound [of a] by simp
    ultimately have "q + 1 < 2 ^ 64" by linarith
    then have "unat (a div b + 1) = q + 1"
      by (subst unat_add_small) (simp_all add: q_def unat_div)
    with True show ?thesis
      by (simp add: div_ceil_def m_def word_less_nat_alt unat_mod)
  next
    case False
    then show ?thesis
      by (simp add: div_ceil_def q_def m_def word_less_nat_alt unat_mod unat_div)
  qed
  have "unat a + unat b - 1 = q * unat b + (m + unat b - 1)"
    using b am by simp
  then have "(unat a + unat b - 1) div unat b = q + (m + unat b - 1) div unat b"
    using b by (simp only: div_mult_self3)
  also have "(m + unat b - 1) div unat b = (if m > 0 then 1 else 0)"
  proof (cases "m > 0")
    case True
    then have "m + unat b - 1 = 1 * unat b + (m - 1)" by simp
    moreover have "(m - 1) div unat b = 0" using ml by simp
    ultimately have "(m + unat b - 1) div unat b = 1"
      using b by (simp only: div_mult_self3)
    with True show ?thesis by simp
  next
    case False
    then show ?thesis using b by simp
  qed
  finally show ?thesis using lhs by (simp only:)
qed

text \<open>The signed reading of a 64-bit word.\<close>

lemma sint_of_int_small: "- (2 ^ 63) \<le> x \<Longrightarrow> x < 2 ^ 63 \<Longrightarrow> sint (word_of_int x :: u64) = x"
  by (subst int_word_sint) (simp add: mod_pos_pos_trivial)

lemma sint_of_int_over:
  "2 ^ 63 \<le> x \<Longrightarrow> x < 2 ^ 64 + 2 ^ 63 \<Longrightarrow> sint (word_of_int x :: u64) = x - 2 ^ 64"
proof -
  assume x: "2 ^ 63 \<le> x" "x < 2 ^ 64 + 2 ^ 63"
  have "(x + 2 ^ 63) mod 2 ^ 64 = (x - 2 ^ 63) mod 2 ^ 64"
    using mod_add_self2 [of "x - 2 ^ 63" "2 ^ 64 :: int"] by (simp add: add.commute)
  also have "\<dots> = x - 2 ^ 63" using x by (intro mod_pos_pos_trivial) auto
  finally show ?thesis by (subst int_word_sint) simp
qed

lemma sint_u64_small: "uint (w :: u64) < 2 ^ 63 \<Longrightarrow> sint w = uint w"
  using sint_of_int_small [of "uint w"] uint_ge_0 [of w] by simp

lemma sint_u64_big: "2 ^ 63 \<le> uint (w :: u64) \<Longrightarrow> sint w = uint w - 2 ^ 64"
proof -
  assume "2 ^ 63 \<le> uint w"
  moreover have "uint w < 2 ^ 64" using uint_lt2p [of w] by simp
  ultimately show ?thesis using sint_of_int_over [of "uint w"] by simp
qed

lemma uint_less_half: "uint (w :: u64) < 2 ^ 63 \<longleftrightarrow> unat w < 2 ^ 63"
proof -
  have "uint w = int (unat w)" by simp
  then have "uint w < 2 ^ 63 \<longleftrightarrow> int (unat w) < int (2 ^ 63)" by simp
  then show ?thesis by (simp only: of_nat_less_iff)
qed

section \<open>Slices\<close>

definition subrange :: "'a list \<Rightarrow> nat \<Rightarrow> nat \<Rightarrow> 'a list" where
  "subrange xs a b = take (b - a) (drop a xs)"

text \<open>
  \<^verbatim>\<open>&xs[a..b]\<close> and \<^verbatim>\<open>xs[i]\<close> panic when the range decreases or leaves the slice, and when the
  index is not below the length. \<open>subrange\<close> and \<open>nth\<close> are the values they have otherwise; only
  lemmas use them in place of the checked operations.
\<close>

definition slice_of :: "'a list \<Rightarrow> nat \<Rightarrow> nat \<Rightarrow> ('e, 'a list) outcome" where
  "slice_of xs a b =
     (if a \<le> b \<and> b \<le> length xs then Inr (subrange xs a b) else Inl (Panic SliceOutOfRange))"

definition index_at :: "'a list \<Rightarrow> nat \<Rightarrow> ('e, 'a) outcome" where
  "index_at xs i = (if i < length xs then Inr (xs ! i) else Inl (Panic IndexOutOfBounds))"

text \<open>\<^verbatim>\<open>xs.get(a..b)\<close>: \<open>None\<close> when the range is decreasing or leaves the slice.\<close>

definition get_range :: "'a list \<Rightarrow> nat \<Rightarrow> nat \<Rightarrow> 'a list option" where
  "get_range xs a b = (if a \<le> b \<and> b \<le> length xs then Some (subrange xs a b) else None)"

text \<open>\<^verbatim>\<open>xs.get(i)\<close>.\<close>

definition get_at :: "'a list \<Rightarrow> nat \<Rightarrow> 'a option" where
  "get_at xs i = (if i < length xs then Some (xs ! i) else None)"

lemma get_at_Some [simp]: "get_at xs i = Some x \<longleftrightarrow> i < length xs \<and> xs ! i = x"
  by (auto simp: get_at_def)

lemma slice_of_within [simp]: "a \<le> b \<Longrightarrow> b \<le> length xs \<Longrightarrow> slice_of xs a b = Inr (subrange xs a b)"
  by (simp add: slice_of_def)

lemma slice_of_front: "n \<le> length xs \<Longrightarrow> slice_of xs 0 n = Inr (take n xs)"
  by (simp add: slice_of_def subrange_def)

lemma slice_of_eq_Inr: "slice_of xs a b = Inr ys \<longleftrightarrow> a \<le> b \<and> b \<le> length xs \<and> ys = subrange xs a b"
  by (auto simp: slice_of_def)

lemma index_at_within [simp]: "i < length xs \<Longrightarrow> index_at xs i = Inr (xs ! i)"
  by (simp add: index_at_def)

lemma length_subrange [simp]: "length (subrange xs a b) = min (b - a) (length xs - a)"
  by (simp add: subrange_def)

lemma nth_subrange: "a + i < b \<Longrightarrow> b \<le> length xs \<Longrightarrow> subrange xs a b ! i = xs ! (a + i)"
  by (simp add: subrange_def)

lemma subrange_append: "a \<le> b \<Longrightarrow> b \<le> c \<Longrightarrow> subrange xs a b @ subrange xs b c = subrange xs a c"
proof -
  assume "a \<le> b" "b \<le> c"
  then have "c - a = (b - a) + (c - b)" and "drop b xs = drop (b - a) (drop a xs)"
    by simp_all
  then show ?thesis by (metis subrange_def take_add)
qed

lemma map_upt_shift: "map f [a..<a + n] = map (\<lambda>i. f (a + i)) [0..<n]"
  by (rule nth_equalityI) auto

section \<open>Little-endian integers\<close>

text \<open>\<^verbatim>\<open>u64::from_le_bytes\<close> and \<^verbatim>\<open>to_le_bytes\<close>, on any width.\<close>

fun le_nat :: "bytes \<Rightarrow> nat" where
  "le_nat [] = 0"
| "le_nat (b # bs) = unat b + 256 * le_nat bs"

fun le_bytes :: "nat \<Rightarrow> nat \<Rightarrow> bytes" where
  "le_bytes 0 x = []"
| "le_bytes (Suc n) x = word_of_nat (x mod 256) # le_bytes n (x div 256)"

definition u64_from_le :: "bytes \<Rightarrow> u64" where
  "u64_from_le bs = word_of_nat (le_nat bs)"

definition u32_from_le :: "bytes \<Rightarrow> u32" where
  "u32_from_le bs = word_of_nat (le_nat bs)"

definition u64_to_le :: "u64 \<Rightarrow> bytes" where
  "u64_to_le x = le_bytes 8 (unat x)"

definition u32_to_le :: "u32 \<Rightarrow> bytes" where
  "u32_to_le x = le_bytes 4 (unat x)"

lemma length_le_bytes [simp]: "length (le_bytes n x) = n"
  by (induction n arbitrary: x) auto

lemma le_nat_le_bytes: "le_nat (le_bytes n x) = x mod 256 ^ n"
proof (induction n arbitrary: x)
  case 0
  then show ?case by simp
next
  case (Suc n)
  have "unat (word_of_nat (x mod 256) :: u8) = x mod 256"
    by (simp add: unat_of_nat take_bit_eq_mod)
  with Suc show ?case
    by (simp add: mod_mult2_eq mult.commute)
qed

lemma le_nat_less: "le_nat bs < 256 ^ length bs"
proof (induction bs)
  case Nil
  then show ?case by simp
next
  case (Cons b bs)
  have "unat b < 256" using unat_bound [of b] by simp
  with Cons show ?case by simp
qed

lemma u64_from_to_le [simp]: "u64_from_le (u64_to_le x) = x"
  using unat_bound [of x] by (simp add: u64_from_le_def u64_to_le_def le_nat_le_bytes)

lemma u32_from_to_le [simp]: "u32_from_le (u32_to_le x) = x"
  using unat_bound [of x] by (simp add: u32_from_le_def u32_to_le_def le_nat_le_bytes)

lemma length_u64_to_le [simp]: "length (u64_to_le x) = 8"
  by (simp add: u64_to_le_def)

lemma length_u32_to_le [simp]: "length (u32_to_le x) = 4"
  by (simp add: u32_to_le_def)

end
