(* ===== verification/Rust_Str.thy ===== *)
theory Rust_Str
  imports Prelude
begin

text \<open>
  The string operations of the Rust standard library the crate uses. A \<^verbatim>\<open>str\<close> is its
  UTF-8 encoding, so a \<open>string\<close> here is a list of bytes written as characters: lengths and
  positions count bytes, as in Rust. Searching for a pattern byte by byte finds the same
  positions as Rust's search, because UTF-8 is self-synchronising. Unicode white space outside
  ASCII is recognised by its two- and three-byte encodings.
\<close>

section \<open>Text and bytes\<close>

abbreviation ascii :: "char \<Rightarrow> nat" where
  "ascii c \<equiv> of_char c"

definition string_of_bytes :: "bytes \<Rightarrow> string" where
  "string_of_bytes bs = map (\<lambda>b. char_of (unat b)) bs"

definition bytes_of_string :: "string \<Rightarrow> bytes" where
  "bytes_of_string s = map (\<lambda>c. word_of_nat (ascii c)) s"

text \<open>\<^verbatim>\<open>std::str::from_utf8\<close>: the well-formed byte sequences of the Unicode standard.\<close>

definition utf8_cont :: "nat \<Rightarrow> bool" where
  "utf8_cont b \<longleftrightarrow> 128 \<le> b \<and> b \<le> 191"

fun utf8_valid :: "nat list \<Rightarrow> bool" where
  "utf8_valid [] = True"
| "utf8_valid (b # bs) =
     (if b < 128 then utf8_valid bs
      else case bs of
        [] \<Rightarrow> False
      | c # cs \<Rightarrow>
          if 194 \<le> b \<and> b \<le> 223 then utf8_cont c \<and> utf8_valid cs
          else (case cs of
            [] \<Rightarrow> False
          | d # ds \<Rightarrow>
              if b = 224 then 160 \<le> c \<and> c \<le> 191 \<and> utf8_cont d \<and> utf8_valid ds
              else if b = 237 then 128 \<le> c \<and> c \<le> 159 \<and> utf8_cont d \<and> utf8_valid ds
              else if 225 \<le> b \<and> b \<le> 239 then utf8_cont c \<and> utf8_cont d \<and> utf8_valid ds
              else (case ds of
                [] \<Rightarrow> False
              | e # es \<Rightarrow>
                  (if b = 240 then 144 \<le> c \<and> c \<le> 191
                   else if 241 \<le> b \<and> b \<le> 243 then utf8_cont c
                   else b = 244 \<and> 128 \<le> c \<and> c \<le> 143)
                  \<and> utf8_cont d \<and> utf8_cont e \<and> utf8_valid es)))"

section \<open>Slices of a text\<close>

text \<open>
  \<^verbatim>\<open>&s[a..b]\<close> on a \<^verbatim>\<open>str\<close> panics when the range leaves the text or when one of its ends is
  not on a character boundary, that is, when a continuation byte stands there.
\<close>

definition char_boundary :: "string \<Rightarrow> nat \<Rightarrow> bool" where
  "char_boundary s i \<longleftrightarrow> i = 0 \<or> i = length s \<or> (i < length s \<and> \<not> utf8_cont (ascii (s ! i)))"

definition str_slice :: "string \<Rightarrow> nat \<Rightarrow> nat \<Rightarrow> ('e, string) outcome" where
  "str_slice s a b =
     (if a \<le> b \<and> b \<le> length s \<and> char_boundary s a \<and> char_boundary s b
      then Inr (subrange s a b) else Inl (Panic SliceOutOfRange))"

text \<open>
  What the boundaries the program cuts at need of valid UTF-8, and what every part of a text
  inherits: no continuation byte follows an ASCII byte.
\<close>

fun bytes_ok :: "nat list \<Rightarrow> bool" where
  "bytes_ok (a # b # bs) \<longleftrightarrow> (utf8_cont b \<longrightarrow> 128 \<le> a) \<and> bytes_ok (b # bs)"
| "bytes_ok _ \<longleftrightarrow> True"

definition str_ok :: "string \<Rightarrow> bool" where
  "str_ok s \<longleftrightarrow> bytes_ok (map of_char s)"

lemma bytes_ok_Cons: "bytes_ok (a # bs) \<longleftrightarrow> (bs \<noteq> [] \<and> utf8_cont (hd bs) \<longrightarrow> 128 \<le> a) \<and> bytes_ok bs"
  by (cases bs) auto

lemma bytes_ok_append:
  "bytes_ok (as @ bs) \<longleftrightarrow> bytes_ok as \<and> bytes_ok bs \<and>
     (as \<noteq> [] \<and> bs \<noteq> [] \<and> utf8_cont (hd bs) \<longrightarrow> 128 \<le> last as)"
  by (induction as) (auto simp: bytes_ok_Cons hd_append)

lemma utf8_bytes_ok: "utf8_valid bs \<Longrightarrow> bytes_ok bs \<and> (bs \<noteq> [] \<longrightarrow> \<not> utf8_cont (hd bs))"
proof (induction "length bs" arbitrary: bs rule: less_induct)
  case less
  have IH: "bytes_ok cs \<and> (cs \<noteq> [] \<longrightarrow> \<not> utf8_cont (hd cs))"
    if "length cs < length bs" "utf8_valid cs" for cs
    by (rule less.hyps [OF that])
  show ?case
  proof (cases bs)
    case (Cons b cs)
    note v = less.prems [unfolded Cons utf8_valid.simps(2)]
    show ?thesis
    proof (cases "b < 128")
      case True
      with v IH [of cs] show ?thesis by (auto simp: Cons bytes_ok_Cons utf8_cont_def)
    next
      case False
      with v obtain c ds where c: "cs = c # ds" by (auto split: list.splits)
      note v = v [unfolded c list.case if_not_P [OF False]]
      show ?thesis
      proof (cases "194 \<le> b \<and> b \<le> 223")
        case True
        with v IH [of ds] False show ?thesis
          by (auto simp: Cons c bytes_ok_Cons utf8_cont_def)
      next
        case two: False
        note v = v [unfolded if_not_P [OF two]]
        then obtain d es where d: "ds = d # es" by (auto split: list.splits)
        note v = v [unfolded d list.case]
        show ?thesis
        proof (cases "b = 224 \<or> b = 237 \<or> 225 \<le> b \<and> b \<le> 239")
          case True
          with v have "utf8_valid es" "utf8_cont d" "128 \<le> c" "223 < b"
            by (auto simp: utf8_cont_def split: if_splits)
          with IH [of es] show ?thesis
            by (auto simp: Cons c d bytes_ok_Cons utf8_cont_def)
        next
          case three: False
          with v obtain e fs where e: "es = e # fs" by (auto split: list.splits)
          from v three e have "utf8_valid fs" "utf8_cont d" "utf8_cont e" "191 < b" "128 \<le> c"
            by (auto simp: utf8_cont_def split: if_splits)
          with IH [of fs] show ?thesis
            by (auto simp: Cons c d e bytes_ok_Cons utf8_cont_def)
        qed
      qed
    qed
  qed simp
qed

lemma str_ok_valid: "utf8_valid (map unat bs) \<Longrightarrow> str_ok (string_of_bytes bs)"
proof -
  have "(of_char (char_of (unat b)) :: nat) = unat b" for b :: u8
    using unat_bound [of b] by simp
  then have "map of_char (string_of_bytes bs) = map unat bs"
    by (simp add: string_of_bytes_def)
  then show "utf8_valid (map unat bs) \<Longrightarrow> str_ok (string_of_bytes bs)"
    using utf8_bytes_ok by (simp add: str_ok_def)
qed

lemma str_ok_ascii: "list_all (\<lambda>c. ascii c < 128) s \<Longrightarrow> str_ok s"
  unfolding str_ok_def
proof (induction s)
  case (Cons c s)
  then show ?case by (cases s) (auto simp: utf8_cont_def)
qed simp

lemma str_ok_append:
  "str_ok (s @ t) \<longleftrightarrow> str_ok s \<and> str_ok t \<and>
     (s \<noteq> [] \<and> t \<noteq> [] \<and> utf8_cont (ascii (hd t)) \<longrightarrow> 128 \<le> ascii (last s))"
  by (auto simp: str_ok_def bytes_ok_append hd_map last_map)

lemma str_ok_part: "str_ok (u @ s @ v) \<Longrightarrow> str_ok s"
  by (simp add: str_ok_append)

lemma boundary_before:
  "i < length s \<Longrightarrow> ascii (s ! i) < 128 \<Longrightarrow> char_boundary s i"
  by (simp add: char_boundary_def utf8_cont_def)

lemma boundary_behind:
  assumes "str_ok s" and "s = u @ v" and "u \<noteq> []" and "ascii (last u) < 128"
  shows "char_boundary s (length u)"
  using assms by (cases v) (auto simp: char_boundary_def str_ok_append nth_append)

lemma boundary_ends [simp]: "char_boundary s 0" "char_boundary s (length s)"
  by (simp_all add: char_boundary_def)

lemma str_slice_within [simp]:
  "a \<le> b \<Longrightarrow> b \<le> length s \<Longrightarrow> char_boundary s a \<Longrightarrow> char_boundary s b \<Longrightarrow>
   str_slice s a b = Inr (subrange s a b)"
  by (simp add: str_slice_def)

lemma str_slice_Inr: "str_slice s a b = Inr t \<Longrightarrow> t = subrange s a b"
  by (auto simp: str_slice_def split: if_splits)

section \<open>Searching\<close>

fun starts_with :: "'a list \<Rightarrow> 'a list \<Rightarrow> bool" where
  "starts_with s [] = True"
| "starts_with [] (p # ps) = False"
| "starts_with (c # s) (p # ps) = (c = p \<and> starts_with s ps)"

definition ends_with :: "'a list \<Rightarrow> 'a list \<Rightarrow> bool" where
  "ends_with s p = starts_with (rev s) (rev p)"

definition strip_prefix :: "'a list \<Rightarrow> 'a list \<Rightarrow> 'a list option" where
  "strip_prefix s p = (if starts_with s p then Some (drop (length p) s) else None)"

text \<open>\<^verbatim>\<open>str::find\<close>: the byte position of the first match.\<close>

fun find_str :: "'a list \<Rightarrow> 'a list \<Rightarrow> nat option" where
  "find_str [] p = (if p = [] then Some 0 else None)"
| "find_str (c # s) p =
     (if starts_with (c # s) p then Some 0 else map_option Suc (find_str s p))"

definition contains :: "'a list \<Rightarrow> 'a list \<Rightarrow> bool" where
  "contains s p \<longleftrightarrow> find_str s p \<noteq> None"

lemma starts_with_iff: "starts_with s p \<longleftrightarrow> (\<exists>t. s = p @ t)"
  by (induction s p rule: starts_with.induct) auto

lemma starts_with_append [simp]: "starts_with (p @ t) p"
  by (auto simp: starts_with_iff)

lemma ends_with_iff: "ends_with s p \<longleftrightarrow> (\<exists>t. s = t @ p)"
proof
  assume "ends_with s p"
  then obtain t where "rev s = rev p @ t" by (auto simp: ends_with_def starts_with_iff)
  then have "s = rev t @ p" by (metis rev_append rev_rev_ident)
  then show "\<exists>t. s = t @ p" ..
qed (auto simp: ends_with_def)

lemma strip_prefix_Some [simp]: "strip_prefix s p = Some t \<longleftrightarrow> s = p @ t"
  by (auto simp: strip_prefix_def starts_with_iff)

lemma strip_prefix_append [simp]: "strip_prefix (p @ t) p = Some t"
  by simp

lemma find_str_Nil [simp]: "find_str s [] = Some 0"
  by (cases s) auto

lemma find_str_SomeD:
  "find_str s p = Some i \<Longrightarrow> starts_with (drop i s) p \<and> i + length p \<le> length s"
proof (induction s arbitrary: i)
  case Nil
  then show ?case by (auto split: if_splits)
next
  case (Cons c s)
  then show ?case
    by (auto simp: starts_with_iff split: if_splits dest: arg_cong [where f = length])
qed

lemma find_str_first: "find_str s p = Some i \<Longrightarrow> j < i \<Longrightarrow> \<not> starts_with (drop j s) p"
proof (induction s arbitrary: i j)
  case Nil
  then show ?case by (auto split: if_splits)
next
  case (Cons c s)
  then show ?case by (cases j) (auto split: if_splits)
qed

lemma find_str_None: "find_str s p = None \<Longrightarrow> \<not> starts_with (drop j s) p"
proof (induction s arbitrary: j)
  case Nil
  then show ?case by (cases p) (auto split: if_splits)
next
  case (Cons c s)
  then show ?case by (cases j) (auto split: if_splits)
qed

lemma find_str_decomp:
  assumes "find_str s p = Some i"
  shows "s = take i s @ p @ drop (i + length p) s"
proof -
  obtain t where t: "drop i s = p @ t"
    using find_str_SomeD [OF assms] by (auto simp: starts_with_iff)
  then have "drop (i + length p) s = t"
    by (metis add.commute append_eq_conv_conj drop_drop)
  with t show ?thesis by (metis append_take_drop_id)
qed

lemma contains_iff: "contains s p \<longleftrightarrow> (\<exists>u v. s = u @ p @ v)"
proof
  assume "contains s p"
  then show "\<exists>u v. s = u @ p @ v"
    unfolding contains_def using find_str_decomp by blast
next
  assume "\<exists>u v. s = u @ p @ v"
  then obtain u v where "s = u @ p @ v" by blast
  then have "starts_with (drop (length u) s) p" by simp
  then show "contains s p" unfolding contains_def using find_str_None by fastforce
qed

lemma contains_self [simp]: "contains p p"
  by (metis append.left_neutral append.right_neutral contains_iff)

lemma contains_appendI1: "contains s p \<Longrightarrow> contains (s @ t) p"
  by (metis append.assoc contains_iff)

lemma contains_appendI2: "contains t p \<Longrightarrow> contains (s @ t) p"
  by (metis append.assoc contains_iff)

section \<open>Splitting\<close>

text \<open>
  \<^verbatim>\<open>str::split\<close> by a non-empty pattern: the pieces between the successive matches, scanned
  from the left without overlap. (Rust's behaviour for the empty pattern is not needed.)
\<close>

function split_str :: "'a list \<Rightarrow> 'a list \<Rightarrow> 'a list list" where
  "split_str s p =
     (case find_str s p of
        None \<Rightarrow> [s]
      | Some i \<Rightarrow> if p = [] then [s] else take i s # split_str (drop (i + length p) s) p)"
  by pat_completeness auto
termination
proof (relation "measure (\<lambda>(s, p). length s)")
  fix s p :: "'a list" and i
  assume "find_str s p = Some i" and "p \<noteq> []"
  then show "((drop (i + length p) s, p), (s, p)) \<in> measure (\<lambda>(s, p). length s)"
    using find_str_SomeD [of s p i] by (cases p) auto
qed simp

declare split_str.simps [simp del]

definition split_once :: "'a list \<Rightarrow> 'a list \<Rightarrow> ('a list \<times> 'a list) option" where
  "split_once s p =
     (case find_str s p of None \<Rightarrow> None | Some i \<Rightarrow> Some (take i s, drop (i + length p) s))"

lemma split_str_None: "\<not> contains s p \<Longrightarrow> split_str s p = [s]"
  by (simp add: contains_def split_str.simps [of s p])

lemma split_str_nonempty [simp]: "split_str s p \<noteq> []"
  by (simp add: split_str.simps [of s p] split: option.split)

lemma split_once_Some: "split_once s p = Some (a, b) \<Longrightarrow> s = a @ p @ b"
  using find_str_decomp by (auto simp: split_once_def split: option.splits)

text \<open>The pieces of a split, joined again by the pattern, are the string.\<close>

fun join_with :: "'a list \<Rightarrow> 'a list list \<Rightarrow> 'a list" where
  "join_with p [] = []"
| "join_with p [x] = x"
| "join_with p (x # y # ys) = x @ p @ join_with p (y # ys)"

lemma join_with_split_str: "join_with p (split_str s p) = s"
proof (induction s p rule: split_str.induct)
  case (1 s p)
  show ?case
  proof (cases "find_str s p")
    case None
    then show ?thesis by (simp add: split_str.simps [of s p])
  next
    case (Some i)
    show ?thesis
    proof (cases "p = []")
      case True
      then show ?thesis by (simp add: split_str.simps [of s "[]"])
    next
      case False
      have IH: "join_with p (split_str (drop (i + length p) s) p) = drop (i + length p) s"
        using "1" Some False by blast
      obtain y ys where y: "split_str (drop (i + length p) s) p = y # ys"
        using split_str_nonempty by (meson neq_Nil_conv)
      have "join_with p (split_str s p) = take i s @ p @ drop (i + length p) s"
        using Some False IH y by (simp add: split_str.simps [of s p])
      then show ?thesis using find_str_decomp [OF Some] by simp
    qed
  qed
qed

section \<open>White space\<close>

text \<open>
  The number of bytes of the \<^verbatim>\<open>White_Space\<close> character the text starts with, 0 if it starts
  with another character: U+0009 to U+000D, U+0020, U+0085, U+00A0, U+1680, U+2000 to U+200A,
  U+2028, U+2029, U+202F, U+205F and U+3000.
\<close>

definition ws3 :: "nat \<Rightarrow> nat \<Rightarrow> nat \<Rightarrow> bool" where
  "ws3 a b c \<longleftrightarrow>
     a = 225 \<and> b = 154 \<and> c = 128 \<or>
     a = 226 \<and> b = 128 \<and> (128 \<le> c \<and> c \<le> 138 \<or> c = 168 \<or> c = 169 \<or> c = 175) \<or>
     a = 226 \<and> b = 129 \<and> c = 159 \<or>
     a = 227 \<and> b = 128 \<and> c = 128"

fun ws_len :: "string \<Rightarrow> nat" where
  "ws_len [] = 0"
| "ws_len (c # s) =
     (let a = ascii c in
      if a < 128 then (if 9 \<le> a \<and> a \<le> 13 \<or> a = 32 then 1 else 0)
      else case s of
        [] \<Rightarrow> 0
      | d # t \<Rightarrow>
          if a = 194 \<and> (ascii d = 133 \<or> ascii d = 160) then 2
          else (case t of [] \<Rightarrow> 0 | e # _ \<Rightarrow> if ws3 a (ascii d) (ascii e) then 3 else 0))"

lemma ws_len_le: "ws_len s \<le> length s"
  by (cases s) (auto simp: Let_def split: list.split)

function trim_start :: "string \<Rightarrow> string" where
  "trim_start s = (if ws_len s = 0 then s else trim_start (drop (ws_len s) s))"
  by pat_completeness auto
termination
proof (relation "measure length")
  fix s :: string
  assume "ws_len s \<noteq> 0"
  then show "(drop (ws_len s) s, s) \<in> measure length"
    using ws_len_le [of s] by simp
qed simp

declare trim_start.simps [simp del]

fun trim_end :: "string \<Rightarrow> string" where
  "trim_end [] = []"
| "trim_end (c # s) = (if trim_start (c # s) = [] then [] else c # trim_end s)"

definition trim :: "string \<Rightarrow> string" where
  "trim s = trim_end (trim_start s)"

text \<open>\<^verbatim>\<open>str::split_whitespace\<close>: the maximal runs without white space, in order.\<close>

function split_ws :: "string \<Rightarrow> string \<Rightarrow> string list" where
  "split_ws cur s =
     (case s of
        [] \<Rightarrow> (if cur = [] then [] else [rev cur])
      | c # t \<Rightarrow>
          (if ws_len s = 0 then split_ws (c # cur) t
           else (if cur = [] then [] else [rev cur]) @ split_ws [] (drop (ws_len s) s)))"
  by pat_completeness auto
termination
proof (relation "measure (\<lambda>(cur, s). length s)")
  fix cur s c t
  assume "s = c # t" "ws_len s \<noteq> 0"
  then show "(([], drop (ws_len s) s), cur, s) \<in> measure (\<lambda>(cur, s). length s)"
    by simp
qed auto

declare split_ws.simps [simp del]

definition split_whitespace :: "string \<Rightarrow> string list" where
  "split_whitespace s = split_ws [] s"

text \<open>\<^verbatim>\<open>str::lines\<close>: split after each line feed, without it and without one carriage return before it.\<close>

definition strip_cr :: "string \<Rightarrow> string" where
  "strip_cr l = (if l \<noteq> [] \<and> last l = CHR 0x0D then butlast l else l)"

fun lines_from :: "string \<Rightarrow> string \<Rightarrow> string list" where
  "lines_from cur [] = (if cur = [] then [] else [rev cur])"
| "lines_from cur (c # s) =
     (if c = CHR 0x0A then strip_cr (rev cur) # lines_from [] s else lines_from (c # cur) s)"

definition lines :: "string \<Rightarrow> string list" where
  "lines s = lines_from [] s"

section \<open>Trimming by character and ASCII classes\<close>

definition trim_start_matches :: "('a \<Rightarrow> bool) \<Rightarrow> 'a list \<Rightarrow> 'a list" where
  "trim_start_matches P s = dropWhile P s"

definition trim_end_matches :: "('a \<Rightarrow> bool) \<Rightarrow> 'a list \<Rightarrow> 'a list" where
  "trim_end_matches P s = rev (dropWhile P (rev s))"

definition is_ascii_digit :: "char \<Rightarrow> bool" where
  "is_ascii_digit c \<longleftrightarrow> 48 \<le> ascii c \<and> ascii c \<le> 57"

definition is_ascii_upper :: "char \<Rightarrow> bool" where
  "is_ascii_upper c \<longleftrightarrow> 65 \<le> ascii c \<and> ascii c \<le> 90"

definition is_ascii_lower :: "char \<Rightarrow> bool" where
  "is_ascii_lower c \<longleftrightarrow> 97 \<le> ascii c \<and> ascii c \<le> 122"

definition is_ascii_alphanumeric :: "char \<Rightarrow> bool" where
  "is_ascii_alphanumeric c \<longleftrightarrow> is_ascii_digit c \<or> is_ascii_upper c \<or> is_ascii_lower c"

text \<open>\<^verbatim>\<open>char::to_digit(16)\<close>.\<close>

definition to_digit16 :: "char \<Rightarrow> nat option" where
  "to_digit16 c =
     (let n = ascii c in
      if 48 \<le> n \<and> n \<le> 57 then Some (n - 48)
      else if 97 \<le> n \<and> n \<le> 102 then Some (n - 87)
      else if 65 \<le> n \<and> n \<le> 70 then Some (n - 55)
      else None)"

definition is_ascii_hexdigit :: "char \<Rightarrow> bool" where
  "is_ascii_hexdigit c \<longleftrightarrow> to_digit16 c \<noteq> None"

definition to_ascii_lowercase :: "string \<Rightarrow> string" where
  "to_ascii_lowercase s = map (\<lambda>c. if is_ascii_upper c then char_of (ascii c + 32) else c) s"

definition to_ascii_uppercase :: "string \<Rightarrow> string" where
  "to_ascii_uppercase s = map (\<lambda>c. if is_ascii_lower c then char_of (ascii c - 32) else c) s"

lemma to_digit16_less: "to_digit16 c = Some d \<Longrightarrow> d < 16"
  by (auto simp: to_digit16_def Let_def split: if_splits)

section \<open>Numbers as text\<close>

definition digit_char :: "nat \<Rightarrow> char" where
  "digit_char d = char_of (if d < 10 then 48 + d else 87 + d)"

text \<open>\<^verbatim>\<open>{}\<close> of an unsigned integer.\<close>

fun dec :: "nat \<Rightarrow> string" where
  "dec n = (if n < 10 then [digit_char n] else dec (n div 10) @ [digit_char (n mod 10)])"

declare dec.simps [simp del]

fun dec_value :: "nat \<Rightarrow> string \<Rightarrow> nat" where
  "dec_value acc [] = acc"
| "dec_value acc (c # s) = dec_value (10 * acc + (ascii c - 48)) s"

text \<open>\<^verbatim>\<open>str::parse::<u64>\<close>: an optional plus sign and at least one digit, the value below $2^{64}$.\<close>

definition parse_u64 :: "string \<Rightarrow> u64 option" where
  "parse_u64 s =
     (let t = (case s of [] \<Rightarrow> [] | c # r \<Rightarrow> if c = CHR ''+'' then r else s) in
      if t = [] \<or> \<not> list_all is_ascii_digit t \<or> dec_value 0 t \<ge> 2 ^ 64 then None
      else Some (word_of_nat (dec_value 0 t)))"

text \<open>\<^verbatim>\<open>{:08x}\<close> of a \<^verbatim>\<open>u64\<close> and \<^verbatim>\<open>{:02x}\<close> of a byte: lower-case hexadecimal, padded with zeros.\<close>

fun hex_nat :: "nat \<Rightarrow> string" where
  "hex_nat n = (if n < 16 then [digit_char n] else hex_nat (n div 16) @ [digit_char (n mod 16)])"

declare hex_nat.simps [simp del]

definition pad_left :: "nat \<Rightarrow> char \<Rightarrow> string \<Rightarrow> string" where
  "pad_left w c s = replicate (w - length s) c @ s"

definition hex08 :: "u64 \<Rightarrow> string" where
  "hex08 x = pad_left 8 (CHR ''0'') (hex_nat (unat x))"

definition hex02 :: "u8 \<Rightarrow> string" where
  "hex02 b = pad_left 2 (CHR ''0'') (hex_nat (unat b))"

text \<open>Decimal text and back.\<close>

lemma ascii_digit_char: "d < 16 \<Longrightarrow> ascii (digit_char d) = (if d < 10 then 48 + d else 87 + d)"
  by (simp add: digit_char_def)

lemma dec_value_snoc: "dec_value acc (s @ [c]) = 10 * dec_value acc s + (ascii c - 48)"
  by (induction s arbitrary: acc) auto

lemma dec_nonempty [simp]: "dec n \<noteq> []"
  by (subst dec.simps) simp

lemma dec_digits: "list_all is_ascii_digit (dec n)"
proof (induction n rule: dec.induct)
  case (1 n)
  then show ?case
    by (subst dec.simps) (auto simp: ascii_digit_char is_ascii_digit_def [of "digit_char _"])
qed

lemma dec_value_dec: "dec_value 0 (dec n) = n"
proof (induction n rule: dec.induct)
  case (1 n)
  show ?case
  proof (cases "n < 10")
    case True
    then show ?thesis by (subst dec.simps) (simp add: ascii_digit_char)
  next
    case False
    then have "dec_value 0 (dec n) = 10 * (n div 10) + n mod 10"
      using "1" by (subst dec.simps) (simp add: dec_value_snoc ascii_digit_char)
    then show ?thesis by simp
  qed
qed

lemma digit_not_plus: "is_ascii_digit c \<Longrightarrow> c \<noteq> CHR ''+''"
  by (auto simp: is_ascii_digit_def)

lemma parse_u64_digits:
  assumes "list_all is_ascii_digit t" and "t \<noteq> []"
  shows "parse_u64 t = (if dec_value 0 t < 2 ^ 64 then Some (word_of_nat (dec_value 0 t)) else None)"
  using assms by (auto simp: parse_u64_def Let_def split: list.split dest: digit_not_plus)

lemma parse_u64_dec: "parse_u64 (dec n) = (if n < 2 ^ 64 then Some (word_of_nat n) else None)"
  by (simp add: parse_u64_digits dec_digits dec_value_dec)

lemma parse_u64_dec_word [simp]: "parse_u64 (dec (unat (x :: u64))) = Some x"
  using unat_bound [of x] by (simp add: parse_u64_dec)

text \<open>Hexadecimal text determines the number; so do the zero-padded forms.\<close>

fun hex_value :: "nat \<Rightarrow> string \<Rightarrow> nat" where
  "hex_value acc [] = acc"
| "hex_value acc (c # s) = hex_value (16 * acc + (case to_digit16 c of None \<Rightarrow> 0 | Some d \<Rightarrow> d)) s"

lemma to_digit16_digit_char [simp]: "d < 16 \<Longrightarrow> to_digit16 (digit_char d) = Some d"
  by (auto simp: to_digit16_def ascii_digit_char Let_def)

lemma hex_value_append: "hex_value acc (s @ t) = hex_value (hex_value acc s) t"
  by (induction s arbitrary: acc) auto

lemma hex_value_hex_nat: "hex_value 0 (hex_nat n) = n"
proof (induction n rule: hex_nat.induct)
  case (1 n)
  then show ?case by (subst hex_nat.simps) (simp add: hex_value_append)
qed

lemma hex_value_pad: "hex_value 0 (replicate k (CHR ''0'') @ s) = hex_value 0 s"
  by (induction k) (auto simp: to_digit16_def)

lemma hex_value_hex08 [simp]: "hex_value 0 (hex08 x) = unat x"
  by (simp add: hex08_def pad_left_def hex_value_pad hex_value_hex_nat)

lemma hex08_inject [simp]: "hex08 x = hex08 y \<longleftrightarrow> x = y"
  by (metis hex_value_hex08 word_unat_eq_iff)

lemma hex_nat_digits: "c \<in> set (hex_nat n) \<Longrightarrow> is_ascii_hexdigit c"
proof (induction n rule: hex_nat.induct)
  case (1 n)
  then show ?case
    by (subst (asm) (2) hex_nat.simps) (auto simp: is_ascii_hexdigit_def split: if_splits)
qed

lemma hex02_two_digits: "hex02 b = [digit_char (unat b div 16), digit_char (unat b mod 16)]"
proof -
  have b: "unat b < 256" using unat_bound [of b] by simp
  show ?thesis
  proof (cases "unat b < 16")
    case True
    then have "hex_nat (unat b) = [digit_char (unat b)]"
      by (subst hex_nat.simps) simp
    moreover have "digit_char 0 = CHR ''0''" by (simp add: digit_char_def) code_simp
    ultimately show ?thesis using True by (simp add: hex02_def pad_left_def)
  next
    case False
    then have "hex_nat (unat b) = hex_nat (unat b div 16) @ [digit_char (unat b mod 16)]"
      by (subst hex_nat.simps) simp
    also have "hex_nat (unat b div 16) = [digit_char (unat b div 16)]"
      using less_mult_imp_div_less [of "unat b" 16 16] b by (subst hex_nat.simps) simp
    finally show ?thesis by (simp add: hex02_def pad_left_def)
  qed
qed

section \<open>Tokens\<close>

text \<open>
  A token of graphic ASCII characters is what \<open>split_whitespace\<close> cuts out between spaces; the
  lemmas below evaluate it on texts assembled from such tokens.
\<close>

definition graphic :: "char \<Rightarrow> bool" where
  "graphic c \<longleftrightarrow> 33 \<le> ascii c \<and> ascii c < 127"

definition token :: "string \<Rightarrow> bool" where
  "token w \<longleftrightarrow> w \<noteq> [] \<and> list_all graphic w"

declare ws_len.simps(2) [simp del]

lemma ws_len_graphic [simp]: "graphic c \<Longrightarrow> ws_len (c # s) = 0"
  by (simp add: graphic_def Let_def ws_len.simps)

lemma ws_len_space [simp]: "ws_len (CHR '' '' # s) = 1"
  by (simp add: Let_def ws_len.simps)

lemma split_ws_graphic:
  "list_all graphic w \<Longrightarrow> split_ws cur (w @ s) = split_ws (rev w @ cur) s"
proof (induction w arbitrary: cur)
  case Nil
  then show ?case by simp
next
  case (Cons c w)
  have "split_ws cur ((c # w) @ s) = split_ws (c # cur) (w @ s)"
    using Cons.prems by (subst split_ws.simps) simp
  with Cons show ?case by simp
qed

lemma split_ws_space:
  "split_ws cur (CHR '' '' # s) = (if cur = [] then [] else [rev cur]) @ split_ws [] s"
  by (subst split_ws.simps) simp

lemma split_whitespace_token:
  "token w \<Longrightarrow> split_whitespace (w @ CHR '' '' # s) = w # split_whitespace s"
  by (simp add: token_def split_whitespace_def split_ws_graphic split_ws_space)

lemma split_whitespace_last: "token w \<Longrightarrow> split_whitespace w = [w]"
  using split_ws_graphic [of w "[]" "[]"]
  by (simp add: token_def split_whitespace_def split_ws.simps [of "rev w" "[]"])

lemma split_whitespace_space: "split_whitespace (CHR '' '' # s) = split_whitespace s"
  by (simp add: split_whitespace_def split_ws_space)

lemma split_whitespace_Nil [simp]: "split_whitespace [] = []"
  by (simp add: split_whitespace_def split_ws.simps)

lemma graphic_digit: "is_ascii_digit c \<Longrightarrow> graphic c"
  by (simp add: is_ascii_digit_def graphic_def)

lemma token_dec [simp]: "token (dec n)"
  using dec_digits [of n] by (auto simp: token_def list_all_iff graphic_digit)

end
