(* ===== verification/Aff4_Error.thy ===== *)
theory Aff4_Error
  imports Rust_Str
begin

text \<open>
  The crate's error type (\<^verbatim>\<open>core/src/error.rs\<close>) with its rendered messages, the
  \<^verbatim>\<open>std::io::Error\<close> values it wraps, and the \<open>StoredHash\<close> record that the metadata parser,
  the readers and the audit exchange. A ZIP error of the external ZIP crate is kept as the text
  it renders to.
\<close>

section \<open>I/O errors\<close>

datatype io_kind = InvalidInput | InvalidData | UnexpectedEof | OtherKind | OsKind string

record io_error =
  io_kind :: io_kind
  io_message :: string

definition io_other :: "string \<Rightarrow> io_error" where
  "io_other m = \<lparr>io_kind = OtherKind, io_message = m\<rparr>"

section \<open>Aff4Error\<close>

datatype aff4_error =
    Io io_error
  | Zip string
  | BadFormat string
  | Encrypted string

text \<open>The \<^verbatim>\<open>Display\<close> instance that \<^verbatim>\<open>thiserror\<close> derives from the message attributes.\<close>

fun aff4_error_display :: "aff4_error \<Rightarrow> string" where
  "aff4_error_display (Io e) = ''I/O error: '' @ io_message e"
| "aff4_error_display (Zip m) = ''ZIP error: '' @ m"
| "aff4_error_display (BadFormat m) = ''not a valid AFF4 image: '' @ m"
| "aff4_error_display (Encrypted m) = ''encrypted AFF4 stream is not supported: '' @ m"

type_synonym 'a aff4_result = "(aff4_error, 'a) outcome"
type_synonym 'a io_result = "(io_error, 'a) outcome"

abbreviation bad_format :: "string \<Rightarrow> aff4_error fault" where
  "bad_format m \<equiv> Err (BadFormat m)"

text \<open>Which constructor an outcome fails with, as the crate's tests ask with \<^verbatim>\<open>matches!\<close>.\<close>

fun is_encrypted :: "'a aff4_result \<Rightarrow> bool" where
  "is_encrypted (Inl (Err (Encrypted m))) = True"
| "is_encrypted _ = False"

fun is_bad_format :: "'a aff4_result \<Rightarrow> bool" where
  "is_bad_format (Inl (Err (BadFormat m))) = True"
| "is_bad_format _ = False"

section \<open>Stored hashes\<close>

record stored_hash =
  algorithm :: string
  hex :: string

end
