(* ===== verification/Bevy_Index.thy ===== *)
theory Bevy_Index
  imports Aff4_Error
begin

text \<open>
  The bevy index of \<^verbatim>\<open>core/src/lib.rs\<close>: 12-byte little-endian \<open>(offset, length)\<close>
  entries, decoded by \<open>chunk_bounds_from_index\<close>, and the encoder of the fixture builder
  (\<open>index_entry\<close>). The locale \<open>chunk_index\<close> is what the two clients of the decoder rely on,
  the reader's \<open>read_chunk\<close> and the decryption loop; its lemma about packed bevies is used by
  both.
\<close>

section \<open>Decoding and encoding\<close>

definition array_of :: "nat \<Rightarrow> bytes \<Rightarrow> bytes option" where
  "array_of n bs = (if length bs = n then Some bs else None)"

definition entry_bounds :: "bytes \<Rightarrow> (u64 \<times> u64) aff4_result" where
  "entry_bounds entry =
     and_then (slice_of entry 0 8) (\<lambda>first.
     and_then (ok_or (BadFormat ''bevy index entry truncated'') (array_of 8 first)) (\<lambda>off_bytes.
     and_then (slice_of entry 8 12) (\<lambda>rest.
     and_then (ok_or (BadFormat ''bevy index entry truncated'') (array_of 4 rest)) (\<lambda>len_bytes.
       let offset = u64_from_le off_bytes; len = ucast (u32_from_le len_bytes) in
       and_then (ok_or (BadFormat ''bevy chunk bounds overflow'') (checked_add offset len))
         (\<lambda>stop. Inr (offset, stop))))))"

definition chunk_bounds_from_index :: "bool \<Rightarrow> bytes \<Rightarrow> u64 \<Rightarrow> (u64 \<times> u64) aff4_result" where
  "chunk_bounds_from_index oc index chunk_in_seg =
     and_then (ok_or (BadFormat ''bevy index offset overflow'') (checked_mul chunk_in_seg 12))
       (\<lambda>base. and_then (plain_add oc base 12)
       (\<lambda>top. and_then
          (ok_or (BadFormat (''bevy index too small for chunk '' @ dec (unat chunk_in_seg)))
             (get_range index (unat base) (unat top)))
       entry_bounds))"

text \<open>An entry that could be taken has 12 bytes, so its two slices lie inside it.\<close>

lemma entry_length:
  assumes "plain_add oc base 12 = (Inr hi :: u64 aff4_result)"
    and "get_range index (unat base) (unat hi) = Some entry"
  shows "length entry = 12"
proof -
  have hi: "hi = base + 12" using assms(1) by (rule plain_add_Inr)
  have le: "unat base \<le> unat hi" and in_index: "unat hi \<le> length index"
    and e: "entry = subrange index (unat base) (unat hi)"
    using assms(2) by (simp_all add: get_range_def split: if_splits)
  from le have "base \<le> base + 12" by (simp add: hi word_le_nat_alt)
  then have "unat hi = unat base + 12" by (simp add: hi unat_plus_simple)
  with in_index show ?thesis by (simp add: e)
qed

lemma entry_bounds_eq:
  "length entry = 12 \<Longrightarrow> entry_bounds entry =
     and_then
       (ok_or (BadFormat ''bevy index entry truncated'') (array_of 8 (subrange entry 0 8)))
       (\<lambda>off_bytes. and_then
          (ok_or (BadFormat ''bevy index entry truncated'') (array_of 4 (subrange entry 8 12)))
       (\<lambda>len_bytes.
          let offset = u64_from_le off_bytes; len = ucast (u32_from_le len_bytes) in
          and_then (ok_or (BadFormat ''bevy chunk bounds overflow'') (checked_add offset len))
       (\<lambda>stop. Inr (offset, stop))))"
  by (simp add: entry_bounds_def)

lemma chunk_bounds_from_index_eq:
  "chunk_bounds_from_index oc index chunk_in_seg =
     and_then (ok_or (BadFormat ''bevy index offset overflow'') (checked_mul chunk_in_seg 12))
       (\<lambda>base. and_then (plain_add oc base 12)
       (\<lambda>top. and_then
          (ok_or (BadFormat (''bevy index too small for chunk '' @ dec (unat chunk_in_seg)))
             (get_range index (unat base) (unat top)))
       (\<lambda>entry. and_then
          (ok_or (BadFormat ''bevy index entry truncated'') (array_of 8 (subrange entry 0 8)))
       (\<lambda>off_bytes. and_then
          (ok_or (BadFormat ''bevy index entry truncated'') (array_of 4 (subrange entry 8 12)))
       (\<lambda>len_bytes.
          let offset = u64_from_le off_bytes; len = ucast (u32_from_le len_bytes) in
          and_then (ok_or (BadFormat ''bevy chunk bounds overflow'') (checked_add offset len))
       (\<lambda>stop. Inr (offset, stop)))))))"
  unfolding chunk_bounds_from_index_def
  by (intro and_then_cong refl, rule entry_bounds_eq, rule entry_length) simp_all

definition index_entry :: "u64 \<Rightarrow> u32 \<Rightarrow> bytes" where
  "index_entry offset len = u64_to_le offset @ u32_to_le len"

lemma length_index_entry [simp]: "length (index_entry off len) = 12"
  by (simp add: index_entry_def)

lemma chunk_bounds_okD:
  assumes "chunk_bounds_from_index oc index k = Inr (a, b)"
  shows "a \<le> b" and "12 * (unat k + 1) \<le> length index"
proof -
  obtain base top entry offb lenb where
      base: "checked_mul k 12 = Some base"
    and top: "plain_add oc base 12 = (Inr top :: u64 aff4_result)"
    and entry: "get_range index (unat base) (unat top) = Some entry"
    and offb: "array_of 8 (subrange entry 0 8) = Some offb"
    and lenb: "array_of 4 (subrange entry 8 12) = Some lenb"
    and sum: "checked_add (u64_from_le offb) (ucast (u32_from_le lenb)) = Some b"
    and a: "a = u64_from_le offb"
    using assms by (auto simp: chunk_bounds_from_index_eq Let_def)
  from sum a have "unat b = unat a + unat (ucast (u32_from_le lenb) :: u64)"
    by (auto simp: checked_add_Some unat_add_small)
  then show "a \<le> b" by (simp add: word_le_nat_alt)
  from base have nb: "unat base = unat k * 12"
    by (auto simp: checked_mul_Some unat_mult_small)
  have t: "top = base + 12" using top by (rule plain_add_Inr)
  have rng: "unat base \<le> unat top" "unat top \<le> length index"
    and e: "entry = subrange index (unat base) (unat top)"
    using entry by (auto simp: get_range_def split: if_splits)
  have "length (subrange entry 8 12) = 4"
    using lenb by (auto simp: array_of_def split: if_splits)
  then have "12 \<le> length entry" by simp
  then have "unat base + 12 \<le> unat top" using e rng by simp
  then show "12 * (unat k + 1) \<le> length index" using nb rng by simp
qed

lemma chunk_bounds_eq:
  assumes "12 * (unat k + 1) \<le> length index" and "length index < 2 ^ 64"
  shows "chunk_bounds_from_index oc index k =
    (let e = drop (12 * unat k) index; a = u64_from_le (take 8 e);
         l = ucast (u32_from_le (take 4 (drop 8 e))) in
     if unat a + unat l < 2 ^ 64 then Inr (a, a + l)
     else Inl (bad_format ''bevy chunk bounds overflow''))"
proof -
  have k: "unat k * 12 + 12 < 2 ^ 64" using assms by simp
  have u12: "unat (12 :: u64) = 12" by simp
  have cm: "checked_mul k 12 = Some (k * 12)" using k by (simp add: checked_mul_def)
  have base: "unat (k * 12) = 12 * unat k" using k by (subst unat_mult_small) auto
  have top: "unat (k * 12 + 12) = 12 * unat k + 12"
    using k base by (subst unat_add_small) auto
  have pa: "plain_add oc (k * 12) 12 = (Inr (k * 12 + 12) :: u64 aff4_result)"
    by (rule plain_add_small) (use k base in auto)
  have gr: "get_range index (unat (k * 12)) (unat (k * 12 + 12)) =
      Some (take 12 (drop (12 * unat k) index))"
    using assms(1) by (simp only: base top get_range_def subrange_def) simp
  have a8: "array_of 8 (subrange (take 12 (drop (12 * unat k) index)) 0 8) =
      Some (take 8 (drop (12 * unat k) index))"
    using assms(1) by (simp add: array_of_def subrange_def take_drop min_def)
  have a4: "array_of 4 (subrange (take 12 (drop (12 * unat k) index)) 8 12) =
      Some (take 4 (drop 8 (drop (12 * unat k) index)))"
    using assms(1) by (auto simp: array_of_def subrange_def drop_take min_def simp del: drop_drop)
  show ?thesis
    by (simp only: chunk_bounds_from_index_eq cm pa gr a8 a4 ok_or_simps and_then_simps Let_def
        checked_add_def) (simp add: ok_or_def and_then_def split: if_splits)
qed

section \<open>The index interface\<close>

text \<open>
  \<open>bounds\<close> decodes the entry of one chunk, \<open>entry\<close> encodes one. A client relies on: the
  decoded range never decreases, the index holds the entry, and an encoded index decodes to what
  was encoded.
\<close>

locale chunk_index =
  fixes bounds :: "bytes \<Rightarrow> u64 \<Rightarrow> (u64 \<times> u64) aff4_result"
    and entry :: "u64 \<Rightarrow> u32 \<Rightarrow> bytes"
  assumes bounds_ordered: "bounds index k = Inr (a, b) \<Longrightarrow> a \<le> b"
    and bounds_held: "bounds index k = Inr (a, b) \<Longrightarrow> 12 * (unat k + 1) \<le> length index"
    and bounds_entry:
      "i < length es \<Longrightarrow> 12 * length es < 2 ^ 64 \<Longrightarrow> es ! i = (off, len) \<Longrightarrow>
       unat off + unat len < 2 ^ 64 \<Longrightarrow>
       bounds (concat (map (\<lambda>(off, len). entry off len) es)) (word_of_nat i) =
       Inr (off, off + ucast len)"

text \<open>The entries of chunks stored one after the other, and the bevy that holds them.\<close>

fun pack_entries :: "nat \<Rightarrow> bytes list \<Rightarrow> (u64 \<times> u32) list" where
  "pack_entries off [] = []"
| "pack_entries off (c # cs) =
     (word_of_nat off, word_of_nat (length c)) # pack_entries (off + length c) cs"

definition packed_index :: "(u64 \<Rightarrow> u32 \<Rightarrow> bytes) \<Rightarrow> bytes list \<Rightarrow> bytes" where
  "packed_index entry cs = concat (map (\<lambda>(off, len). entry off len) (pack_entries 0 cs))"

lemma length_pack_entries [simp]: "length (pack_entries off cs) = length cs"
  by (induction cs arbitrary: off) auto

lemma nth_pack_entries:
  "i < length cs \<Longrightarrow> pack_entries off cs ! i =
     (word_of_nat (off + length (concat (take i cs))), word_of_nat (length (cs ! i)))"
proof (induction cs arbitrary: off i)
  case Nil
  then show ?case by simp
next
  case (Cons c cs)
  then show ?case by (cases i) (auto simp: add.assoc)
qed

lemma concat_nth_split:
  "i < length cs \<Longrightarrow>
   concat cs = concat (take i cs) @ cs ! i @ concat (drop (Suc i) cs)"
  by (metis append.assoc concat.simps(2) concat_append id_take_nth_drop)

lemma length_concat_take_le:
  "i < length cs \<Longrightarrow> length (concat (take i cs)) + length (cs ! i) \<le> length (concat cs)"
  by (subst (2) concat_nth_split [of i]) auto

lemma subrange_concat:
  assumes "i < length cs"
  shows "subrange (concat cs) (length (concat (take i cs)))
           (length (concat (take i cs)) + length (cs ! i)) = cs ! i"
  by (subst concat_nth_split [OF assms]) (simp add: subrange_def)

context chunk_index
begin

lemma packed_bounds:
  assumes i: "i < length cs" and n: "12 * length cs < 2 ^ 64"
    and small: "length (concat cs) < 2 ^ 63" "length (cs ! i) < 2 ^ 32"
  shows "\<exists>a b. bounds (packed_index entry cs) (word_of_nat i) = Inr (a, b) \<and>
    unat b \<le> length (concat cs) \<and> unat b - unat a = length (cs ! i) \<and> unat a \<le> unat b \<and>
    subrange (concat cs) (unat a) (unat b) = cs ! i"
proof -
  let ?off = "length (concat (take i cs))" and ?len = "length (cs ! i)"
  have le: "?off + ?len \<le> length (concat cs)" using i by (rule length_concat_take_le)
  have e: "pack_entries 0 cs ! i = (word_of_nat ?off, word_of_nat ?len)"
    using nth_pack_entries [OF i, of 0] by simp
  have uo: "unat (word_of_nat ?off :: u64) = ?off" using le small by simp
  have ul: "unat (word_of_nat ?len :: u32) = ?len"
    using small by (simp add: unat_of_nat take_bit_nat_eq_self)
  have uc: "unat (ucast (word_of_nat ?len :: u32) :: u64) = ?len"
    using ul by (simp)
  have "bounds (packed_index entry cs) (word_of_nat i) =
      Inr (word_of_nat ?off, word_of_nat ?off + ucast (word_of_nat ?len :: u32))"
    unfolding packed_index_def using i n e uo ul le small
    by (intro bounds_entry) auto
  moreover have "unat (word_of_nat ?off + ucast (word_of_nat ?len :: u32) :: u64) = ?off + ?len"
    using uo uc le small by (subst unat_add_small) auto
  ultimately show ?thesis
    using subrange_concat [OF i] uo le by (intro exI conjI) (assumption | simp)+
qed

end

lemma concat_fixed_drop:
  assumes "\<And>x. x \<in> set es \<Longrightarrow> length (f x) = w" and "i < length es"
  shows "take w (drop (w * i) (concat (map f es))) = f (es ! i)"
  using assms
proof (induction es arbitrary: i)
  case Nil
  then show ?case by simp
next
  case (Cons e es)
  then show ?case by (cases i) auto
qed

lemma length_concat_fixed:
  "(\<And>x. x \<in> set es \<Longrightarrow> length (f x) = w) \<Longrightarrow> length (concat (map f es)) = w * length es"
  by (induction es) auto

interpretation bevy: chunk_index "chunk_bounds_from_index oc" index_entry for oc
proof unfold_locales
  fix es :: "(u64 \<times> u32) list" and i off len
  assume i: "i < length es" and n: "12 * length es < 2 ^ 64" and e: "es ! i = (off, len)"
    and small: "unat off + unat len < 2 ^ 64"
  let ?enc = "\<lambda>(off, len). index_entry off len"
  let ?index = "concat (map ?enc es)"
  have len12: "length (?enc x) = 12" for x by (cases x) simp
  have li: "length ?index = 12 * length es" by (rule length_concat_fixed) (rule len12)
  have ui: "unat (word_of_nat i :: u64) = i" using i n by simp
  have d: "take 12 (drop (12 * i) ?index) = index_entry off len"
    using concat_fixed_drop [of es ?enc 12 i, OF len12 i] e by simp
  have t8: "take 8 (drop (12 * i) ?index) = u64_to_le off"
    using arg_cong [OF d, of "take 8"] by (simp add: index_entry_def)
  have t4: "take 4 (drop 8 (drop (12 * i) ?index)) = u32_to_le len"
    using arg_cong [OF d, of "drop 8"] by (simp add: index_entry_def drop_take)
  have uc: "unat (ucast len :: u64) = unat len" by (simp)
  show "chunk_bounds_from_index oc ?index (word_of_nat i) = Inr (off, off + ucast len)"
    by (subst chunk_bounds_eq) (use i n li ui t8 t4 small uc in \<open>auto simp: Let_def simp del: drop_drop\<close>)
qed (auto dest: chunk_bounds_okD)

end
