(* ===== verification/Aff4_Map.thy ===== *)
theory Aff4_Map
  imports Bevy_Index
begin

text \<open>
  The \<^verbatim>\<open>aff4:Map\<close> component (\<^verbatim>\<open>core/src/map.rs\<close>): the 28-byte map entries, the target
  kinds of the \<^verbatim>\<open>/idx\<close> file, the symbolic tiles, and the resolution of a virtual offset by
  binary search. The abstract contract is \<open>locate\<close>: what every single virtual position reads
  from, by looking for an entry that covers it. The locale \<open>address_map\<close> states what the reader
  relies on.
\<close>

section \<open>Data\<close>

record map_entry =
  me_map_offset :: u64
  me_length :: u64
  me_target_offset :: u64
  me_target_id :: u32

datatype tile = UnknownTile | UnreadableTile

datatype target_kind = ImageStream | Fill u8 | Tile tile | Unknown

record loaded_map =
  lm_entries :: "map_entry list"
  lm_targets :: "target_kind list"
  lm_gap_default :: target_kind

record resolved_region =
  rr_kind :: target_kind
  rr_target_offset :: u64
  rr_bytes :: u64

section \<open>Symbolic tiles\<close>

fun tile_seed :: "tile \<Rightarrow> bytes" where
  "tile_seed UnknownTile = bytes_of_string ''UNKNOWN''"
| "tile_seed UnreadableTile = bytes_of_string ''UNREADABLEDATA''"

definition tile_size :: u64 where
  "tile_size = 1024 * 1024"

definition tile_byte_at :: "tile \<Rightarrow> u64 \<Rightarrow> ('e, u8) outcome" where
  "tile_byte_at t p =
     (let seed = tile_seed t in
      index_at seed (unat ((p mod tile_size) mod word_of_nat (length seed))))"

text \<open>The contract of a tile on the natural number line: the seed repeated, restarted every MiB.\<close>

definition tile_byte :: "tile \<Rightarrow> nat \<Rightarrow> u8" where
  "tile_byte t p = (let seed = tile_seed t in seed ! ((p mod 1048576) mod length seed))"

lemma tile_seed_length: "length (tile_seed t) = (case t of UnknownTile \<Rightarrow> 7 | UnreadableTile \<Rightarrow> 14)"
  by (cases t) (simp_all add: bytes_of_string_def)

lemma tile_byte_at_eq: "tile_byte_at t p = Inr (tile_byte t (unat p))"
proof -
  have "unat (tile_size :: u64) = 1048576" by (simp add: tile_size_def)
  then show ?thesis
    by (cases t) (simp_all add: tile_byte_at_def tile_byte_def Let_def unat_mod bytes_of_string_def)
qed

section \<open>Parsing the map and the idx files\<close>

text \<open>
  The bounded integer reads come from the external crate \<^verbatim>\<open>safe-read\<close>, a parameter. What it
  documents and the parser relies on: a read that lies inside the data is the little-endian
  integer there.
\<close>

record safe_read =
  sr_le_u64 :: "bytes \<Rightarrow> nat \<Rightarrow> u64"
  sr_le_u32 :: "bytes \<Rightarrow> nat \<Rightarrow> u32"

definition safe_read_law :: "safe_read \<Rightarrow> bool" where
  "safe_read_law sr \<longleftrightarrow>
     (\<forall>data off. off + 8 \<le> length data \<longrightarrow>
        sr_le_u64 sr data off = u64_from_le (take 8 (drop off data))) \<and>
     (\<forall>data off. off + 4 \<le> length data \<longrightarrow>
        sr_le_u32 sr data off = u32_from_le (take 4 (drop off data)))"

definition entry_at :: "safe_read \<Rightarrow> bytes \<Rightarrow> nat \<Rightarrow> map_entry" where
  "entry_at sr data i =
     (let off = i * 28 in
      \<lparr>me_map_offset = sr_le_u64 sr data off,
       me_length = sr_le_u64 sr data (off + 8),
       me_target_offset = sr_le_u64 sr data (off + 16),
       me_target_id = sr_le_u32 sr data (off + 24)\<rparr>)"

definition parse_map_entries :: "safe_read \<Rightarrow> bytes \<Rightarrow> map_entry list" where
  "parse_map_entries sr data =
     sort_key me_map_offset
       (filter (\<lambda>e. me_length e > 0) (map (entry_at sr data) [0..<length data div 28]))"

definition symbolic_stream_byte :: "string \<Rightarrow> u8 option" where
  "symbolic_stream_byte s =
     (case get_at (split_str s ''SymbolicStream'') 1 of
        None \<Rightarrow> None
      | Some after \<Rightarrow>
          let hex = (case strip_prefix after ''#'' of Some h \<Rightarrow> h | None \<Rightarrow> after) in
          if length hex = 2 \<and> list_all is_ascii_hexdigit hex
          then Some (word_of_nat (hex_value 0 hex)) else None)"

definition classify_target :: "string \<Rightarrow> string \<Rightarrow> target_kind" where
  "classify_target s image_stream_arn =
     (if s = image_stream_arn then ImageStream
      else if ends_with s ''#Zero'' \<or> s = ''aff4:Zero'' then Fill 0
      else if ends_with s ''#UnknownData'' then Tile UnknownTile
      else if ends_with s ''#UnreadableData'' then Tile UnreadableTile
      else (case symbolic_stream_byte s of Some byte \<Rightarrow> Fill byte | None \<Rightarrow> Unknown))"

definition parse_idx :: "string \<Rightarrow> string \<Rightarrow> target_kind list" where
  "parse_idx data image_stream_arn =
     map (\<lambda>line. classify_target (trim line) image_stream_arn)
       (filter (\<lambda>l. trim l \<noteq> []) (lines data))"

definition target_of :: "loaded_map \<Rightarrow> map_entry \<Rightarrow> target_kind option" where
  "target_of lm e = get_at (lm_targets lm) (unat (me_target_id e))"

definition unreadable_regions :: "loaded_map \<Rightarrow> (u64 \<times> u64) list" where
  "unreadable_regions lm =
     map (\<lambda>e. (me_map_offset e, me_length e))
       (filter (\<lambda>e. target_of lm e = Some (Tile UnreadableTile)) (lm_entries lm))"

section \<open>Resolution\<close>

text \<open>\<^verbatim>\<open>slice::partition_point\<close>, as the standard library searches: halving a window.\<close>

function bisect :: "('a \<Rightarrow> bool) \<Rightarrow> 'a list \<Rightarrow> nat \<Rightarrow> nat \<Rightarrow> nat" where
  "bisect P xs base sz =
     (if sz > 1 then
        let half = sz div 2; mid = base + half in
        bisect P xs (if P (xs ! mid) then mid else base) (sz - half)
      else if P (xs ! base) then base + 1 else base)"
  by pat_completeness auto
termination
  by (relation "measure (\<lambda>(P, xs, base, sz). sz)") auto

declare bisect.simps [simp del]

definition partition_point :: "('a \<Rightarrow> bool) \<Rightarrow> 'a list \<Rightarrow> nat" where
  "partition_point P xs = (if xs = [] then 0 else bisect P xs 0 (length xs))"

definition gap_region :: "loaded_map \<Rightarrow> nat \<Rightarrow> u64 \<Rightarrow> u64 \<Rightarrow> resolved_region" where
  "gap_region lm idx virtual_pos virtual_size =
     (let gap_end = (case get_at (lm_entries lm) idx of
                       None \<Rightarrow> virtual_size | Some e \<Rightarrow> me_map_offset e) in
      \<lparr>rr_kind = lm_gap_default lm, rr_target_offset = 0,
       rr_bytes = max (saturating_sub gap_end virtual_pos) 1\<rparr>)"

definition resolve ::
    "bool \<Rightarrow> loaded_map \<Rightarrow> u64 \<Rightarrow> u64 \<Rightarrow> ('e, resolved_region) outcome" where
  "resolve oc lm virtual_pos virtual_size =
     (let idx = partition_point (\<lambda>e. me_map_offset e \<le> virtual_pos) (lm_entries lm);
          gap = Inr (gap_region lm idx virtual_pos virtual_size) in
      if idx > 0 then
        and_then (index_at (lm_entries lm) (idx - 1)) (\<lambda>e.
        and_then (plain_add oc (me_map_offset e) (me_length e)) (\<lambda>stop.
          if virtual_pos < stop then
            and_then (plain_sub oc virtual_pos (me_map_offset e)) (\<lambda>offset_in_entry.
            and_then (plain_add oc (me_target_offset e) offset_in_entry) (\<lambda>target_offset.
            and_then (plain_sub oc (me_length e) offset_in_entry) (\<lambda>left.
              Inr \<lparr>rr_kind = (case target_of lm e of None \<Rightarrow> Unknown | Some k \<Rightarrow> k),
                   rr_target_offset = target_offset,
                   rr_bytes = left\<rparr>)))
          else gap))
      else gap)"

text \<open>The search ends inside the list, sorted or not, so the entry before its result exists.\<close>

lemma bisect_le: "0 < sz \<Longrightarrow> bisect P xs base sz \<le> base + sz"
proof (induction P xs base sz rule: bisect.induct)
  case (1 P xs base sz)
  show ?case
  proof (cases "sz > 1")
    case True
    have "bisect P xs (if P (xs ! (base + sz div 2)) then base + sz div 2 else base) (sz - sz div 2) \<le>
        (if P (xs ! (base + sz div 2)) then base + sz div 2 else base) + (sz - sz div 2)"
      using True by (intro "1.IH" [OF True refl refl]) simp
    with True show ?thesis by (auto simp: bisect.simps [of P xs base sz] Let_def split: if_splits)
  next
    case False
    then show ?thesis using "1.prems" by (simp add: bisect.simps [of P xs base sz])
  qed
qed

lemma partition_point_le: "partition_point P xs \<le> length xs"
  using bisect_le [of "length xs" P xs 0] by (simp add: partition_point_def)

lemma resolve_eq:
  "resolve oc lm virtual_pos virtual_size =
     (let idx = partition_point (\<lambda>e. me_map_offset e \<le> virtual_pos) (lm_entries lm);
          gap = Inr (gap_region lm idx virtual_pos virtual_size) in
      if idx > 0 then
        let e = lm_entries lm ! (idx - 1) in
        and_then (plain_add oc (me_map_offset e) (me_length e)) (\<lambda>stop.
          if virtual_pos < stop then
            and_then (plain_sub oc virtual_pos (me_map_offset e)) (\<lambda>offset_in_entry.
            and_then (plain_add oc (me_target_offset e) offset_in_entry) (\<lambda>target_offset.
            and_then (plain_sub oc (me_length e) offset_in_entry) (\<lambda>left.
              Inr \<lparr>rr_kind = (case target_of lm e of None \<Rightarrow> Unknown | Some k \<Rightarrow> k),
                   rr_target_offset = target_offset,
                   rr_bytes = left\<rparr>)))
          else gap)
      else gap)"
proof -
  let ?i = "partition_point (\<lambda>e. me_map_offset e \<le> virtual_pos) (lm_entries lm)"
  have "?i - 1 < length (lm_entries lm)" if "0 < ?i"
    using that partition_point_le [of "\<lambda>e. me_map_offset e \<le> virtual_pos" "lm_entries lm"] by simp
  then show ?thesis by (simp add: resolve_def Let_def)
qed

section \<open>The binary search\<close>

lemma bisect_correct:
  assumes part: "\<And>i. i < length xs \<Longrightarrow> P (xs ! i) \<longleftrightarrow> i < k"
  shows "0 < sz \<Longrightarrow> base + sz \<le> length xs \<Longrightarrow> k \<le> base + sz \<Longrightarrow>
    base = 0 \<or> base < k \<Longrightarrow> bisect P xs base sz = k"
proof (induction sz arbitrary: base rule: less_induct)
  case (less sz)
  show ?case
  proof (cases "sz > 1")
    case True
    let ?mid = "base + sz div 2"
    have mid: "P (xs ! ?mid) \<longleftrightarrow> ?mid < k"
      using part [of ?mid] less.prems True by simp
    have half: "0 < sz - sz div 2" "sz - sz div 2 < sz" "sz div 2 \<le> sz - sz div 2"
      using True by auto
    have "bisect P xs (if P (xs ! ?mid) then ?mid else base) (sz - sz div 2) = k"
      by (rule less.IH) (use half mid less.prems in auto)
    with True show ?thesis by (simp add: bisect.simps [of P xs base sz] Let_def)
  next
    case False
    then have "sz = 1" using less.prems by simp
    with part [of base] less.prems show ?thesis
      by (auto simp: bisect.simps [of P xs base "Suc 0"])
  qed
qed

lemma partition_point_eq:
  assumes "\<And>i. i < length xs \<Longrightarrow> P (xs ! i) \<longleftrightarrow> i < k" and "k \<le> length xs"
  shows "partition_point P xs = k"
proof (cases "xs = []")
  case False
  with assms show ?thesis by (auto simp: partition_point_def intro!: bisect_correct)
qed (use assms in \<open>simp add: partition_point_def\<close>)

text \<open>On a sorted list the predicate "at most \<open>v\<close>" holds of exactly a prefix.\<close>

lemma partition_point_sorted:
  assumes "sorted (map f xs)"
  shows "partition_point (\<lambda>x. f x \<le> v) xs = length (takeWhile (\<lambda>x. f x \<le> v) xs)"
proof (rule partition_point_eq)
  fix i assume i: "i < length xs"
  let ?k = "length (takeWhile (\<lambda>x. f x \<le> v) xs)"
  show "f (xs ! i) \<le> v \<longleftrightarrow> i < ?k"
  proof
    assume le: "f (xs ! i) \<le> v"
    show "i < ?k"
    proof (rule ccontr)
      assume "\<not> i < ?k"
      then have k: "?k \<le> i" by simp
      then have "\<not> f (xs ! ?k) \<le> v" using i by (intro nth_length_takeWhile) simp
      moreover have "f (xs ! ?k) \<le> f (xs ! i)"
        using assms k i by (auto simp: sorted_iff_nth_mono)
      ultimately show False using le by simp
    qed
  next
    assume "i < ?k"
    then have "takeWhile (\<lambda>x. f x \<le> v) xs ! i \<in> set (takeWhile (\<lambda>x. f x \<le> v) xs)"
      by (rule nth_mem)
    then have "f (takeWhile (\<lambda>x. f x \<le> v) xs ! i) \<le> v" by (rule set_takeWhileD [THEN conjunct2])
    with takeWhile_nth [OF \<open>i < ?k\<close>] show "f (xs ! i) \<le> v" by simp
  qed
qed (rule length_takeWhile_le)

section \<open>What a position reads from\<close>

text \<open>
  The abstract contract: every virtual position is in the data stream at a position, a constant,
  or in a tile at a position. \<open>locate\<close> finds it by looking for the entry that covers the
  position.
\<close>

datatype location = InStream nat | Constant u8 | InTile tile nat

fun loc_of :: "target_kind \<Rightarrow> nat \<Rightarrow> location" where
  "loc_of ImageStream p = InStream p"
| "loc_of (Fill b) p = Constant b"
| "loc_of (Tile t) p = InTile t p"
| "loc_of Unknown p = Constant 0"

definition covers :: "map_entry \<Rightarrow> nat \<Rightarrow> bool" where
  "covers e p \<longleftrightarrow> unat (me_map_offset e) \<le> p \<and> p < unat (me_map_offset e) + unat (me_length e)"

definition kind_of :: "loaded_map \<Rightarrow> map_entry \<Rightarrow> target_kind" where
  "kind_of lm e = (case target_of lm e of None \<Rightarrow> Unknown | Some k \<Rightarrow> k)"

definition locate :: "loaded_map \<Rightarrow> nat \<Rightarrow> location" where
  "locate lm p =
     (case find (\<lambda>e. covers e p) (lm_entries lm) of
        Some e \<Rightarrow> loc_of (kind_of lm e) (unat (me_target_offset e) + (p - unat (me_map_offset e)))
      | None \<Rightarrow> loc_of (lm_gap_default lm) 0)"

text \<open>
  A well-formed map: the entries are in order and do not overlap, their ends and the ends of
  their targets fit 64 bits, none is empty, and a gap is filled with a constant.
\<close>

definition entry_ok :: "map_entry \<Rightarrow> bool" where
  "entry_ok e \<longleftrightarrow> me_length e > 0 \<and>
     unat (me_map_offset e) + unat (me_length e) < 2 ^ 64 \<and>
     unat (me_target_offset e) + unat (me_length e) \<le> 2 ^ 64"

definition map_ok :: "loaded_map \<Rightarrow> bool" where
  "map_ok lm \<longleftrightarrow>
     sorted_wrt (\<lambda>a b. unat (me_map_offset a) + unat (me_length a) \<le> unat (me_map_offset b))
       (lm_entries lm) \<and>
     list_all entry_ok (lm_entries lm) \<and>
     (case lm_gap_default lm of Fill b \<Rightarrow> True | _ \<Rightarrow> False)"

lemma map_ok_sorted:
  assumes "map_ok lm"
  shows "sorted (map me_map_offset (lm_entries lm))"
proof -
  have "sorted_wrt (\<lambda>a b. me_map_offset a \<le> me_map_offset b) (lm_entries lm)"
    using assms unfolding map_ok_def
    by (auto elim!: sorted_wrt_mono_rel [rotated] simp: word_le_nat_alt)
  then show ?thesis by (simp add: sorted_wrt_map)
qed

lemma map_ok_disjoint:
  assumes "map_ok lm" "i < j" "j < length (lm_entries lm)"
  shows "unat (me_map_offset (lm_entries lm ! i)) + unat (me_length (lm_entries lm ! i))
    \<le> unat (me_map_offset (lm_entries lm ! j))"
  using assms by (auto simp: map_ok_def sorted_wrt_iff_nth_less)

lemma map_ok_entry: "map_ok lm \<Longrightarrow> e \<in> set (lm_entries lm) \<Longrightarrow> entry_ok e"
  by (auto simp: map_ok_def list_all_iff)

lemma find_covers_eq:
  assumes "map_ok lm" "i < length (lm_entries lm)" "covers (lm_entries lm ! i) p"
  shows "find (\<lambda>e. covers e p) (lm_entries lm) = Some (lm_entries lm ! i)"
proof -
  have "\<not> covers (lm_entries lm ! j) p" if "j < i" for j
    using map_ok_disjoint [OF assms(1) that assms(2)] assms(3) by (simp add: covers_def)
  with assms(2,3) show ?thesis
    by (auto simp: find_Some_iff intro!: exI [of _ i])
qed

lemma locate_covered:
  assumes "map_ok lm" "e \<in> set (lm_entries lm)" "covers e p"
  shows "locate lm p =
    loc_of (kind_of lm e) (unat (me_target_offset e) + (p - unat (me_map_offset e)))"
proof -
  obtain i where "i < length (lm_entries lm)" "lm_entries lm ! i = e"
    using assms(2) by (auto simp: in_set_conv_nth)
  then show ?thesis
    using find_covers_eq [OF assms(1), of i p] assms(3) by (simp add: locate_def)
qed

lemma locate_gap:
  assumes "\<And>e. e \<in> set (lm_entries lm) \<Longrightarrow> \<not> covers e p"
  shows "locate lm p = loc_of (lm_gap_default lm) 0"
proof -
  have "find (\<lambda>e. covers e p) (lm_entries lm) = None"
    using assms by (auto simp: find_None_iff)
  then show ?thesis by (simp add: locate_def)
qed

section \<open>Resolution meets the contract\<close>

definition split_index :: "loaded_map \<Rightarrow> u64 \<Rightarrow> nat" where
  "split_index lm p = length (takeWhile (\<lambda>e. me_map_offset e \<le> p) (lm_entries lm))"

lemma split_index_le: "split_index lm p \<le> length (lm_entries lm)"
  by (simp add: split_index_def length_takeWhile_le)

lemma before_split:
  "i < split_index lm p \<Longrightarrow> me_map_offset (lm_entries lm ! i) \<le> p"
  by (metis nth_mem set_takeWhileD split_index_def takeWhile_nth)

lemma after_split:
  assumes "map_ok lm" "split_index lm p \<le> i" "i < length (lm_entries lm)"
  shows "p < me_map_offset (lm_entries lm ! i)"
proof -
  have "\<not> me_map_offset (lm_entries lm ! split_index lm p) \<le> p"
    unfolding split_index_def
    by (rule nth_length_takeWhile) (use assms in \<open>simp add: split_index_def\<close>)
  moreover have "me_map_offset (lm_entries lm ! split_index lm p) \<le> me_map_offset (lm_entries lm ! i)"
    using map_ok_sorted [OF assms(1)] assms(2,3) by (auto simp: sorted_iff_nth_mono)
  ultimately show ?thesis by simp
qed

lemma resolve_unfold:
  assumes "map_ok lm"
  shows "resolve oc lm p vs =
    (let k = split_index lm p; e = lm_entries lm ! (k - 1) in
     if k > 0 \<and> covers e (unat p) then
       Inr \<lparr>rr_kind = kind_of lm e,
            rr_target_offset = me_target_offset e + (p - me_map_offset e),
            rr_bytes = me_length e - (p - me_map_offset e)\<rparr>
     else Inr (gap_region lm k p vs))"
proof -
  let ?k = "split_index lm p" and ?e = "lm_entries lm ! (split_index lm p - 1)"
  have pp: "partition_point (\<lambda>e. me_map_offset e \<le> p) (lm_entries lm) = ?k"
    using partition_point_sorted [OF map_ok_sorted [OF assms]] by (simp add: split_index_def)
  show ?thesis
  proof (cases "?k > 0")
    case False
    then show ?thesis by (simp add: resolve_eq pp)
  next
    case True
    have mem: "?e \<in> set (lm_entries lm)" using True split_index_le [of lm p] by simp
    have ok: "entry_ok ?e" by (rule map_ok_entry [OF assms mem])
    have le: "me_map_offset ?e \<le> p" using True by (intro before_split) simp
    have len: "unat (me_map_offset ?e) + unat (me_length ?e) < 2 ^ 64"
      and tlen: "unat (me_target_offset ?e) + unat (me_length ?e) \<le> 2 ^ 64"
      using ok by (auto simp: entry_ok_def)
    have stop: "unat (me_map_offset ?e + me_length ?e) =
        unat (me_map_offset ?e) + unat (me_length ?e)"
      using len by (rule unat_add_small)
    have cov: "p < me_map_offset ?e + me_length ?e \<longleftrightarrow> covers ?e (unat p)"
      using le stop by (simp add: word_less_nat_alt covers_def word_le_nat_alt)
    have sub: "unat (p - me_map_offset ?e) = unat p - unat (me_map_offset ?e)"
      using le by (simp add: unat_sub)
    show ?thesis
    proof (cases "covers ?e (unat p)")
      case False
      with True cov len show ?thesis by (simp add: resolve_eq pp Let_def)
    next
      case in_entry: True
      then have lt: "unat (p - me_map_offset ?e) < unat (me_length ?e)"
        using sub by (auto simp: covers_def)
      have add: "unat (me_target_offset ?e) + unat (p - me_map_offset ?e) < 2 ^ 64"
        using lt tlen by simp
      have "p - me_map_offset ?e \<le> me_length ?e" using lt by (simp add: word_le_nat_alt)
      with True cov len le add in_entry show ?thesis
        by (simp add: resolve_eq pp Let_def kind_of_def del: unat_sub)
    qed
  qed
qed

lemma resolve_covered:
  assumes ok: "map_ok lm" and mem: "e \<in> set (lm_entries lm)" and cov: "covers e (unat p)"
  shows "resolve oc lm p vs =
    Inr \<lparr>rr_kind = kind_of lm e,
         rr_target_offset = me_target_offset e + (p - me_map_offset e),
         rr_bytes = me_length e - (p - me_map_offset e)\<rparr>"
proof -
  obtain i where i: "i < length (lm_entries lm)" "lm_entries lm ! i = e"
    using mem by (auto simp: in_set_conv_nth)
  let ?k = "split_index lm p"
  have "i < ?k"
    using after_split [OF ok, of p i] i cov by (fastforce simp: covers_def word_less_nat_alt)
  moreover have "?k \<le> Suc i"
  proof (rule ccontr)
    assume "\<not> ?k \<le> Suc i"
    then have "Suc i < ?k" by simp
    then have "me_map_offset (lm_entries lm ! Suc i) \<le> p" by (rule before_split)
    moreover have "unat (me_map_offset e) + unat (me_length e)
        \<le> unat (me_map_offset (lm_entries lm ! Suc i))"
      using map_ok_disjoint [OF ok, of i "Suc i"] i \<open>Suc i < ?k\<close> split_index_le [of lm p] by simp
    ultimately show False using cov by (simp add: covers_def word_le_nat_alt)
  qed
  ultimately have "?k = Suc i" by simp
  then show ?thesis using i cov by (simp add: resolve_unfold [OF ok])
qed

lemma gap_not_covered:
  assumes ok: "map_ok lm" and none: "\<And>e. e \<in> set (lm_entries lm) \<Longrightarrow> \<not> covers e (unat p)"
    and lt: "unat p < unat vs"
    and i: "i < unat (rr_bytes (gap_region lm (split_index lm p) p vs))"
    and e: "e \<in> set (lm_entries lm)"
  shows "\<not> covers e (unat p + i)"
proof
  assume cov: "covers e (unat p + i)"
  let ?k = "split_index lm p"
  obtain j where j: "j < length (lm_entries lm)" "lm_entries lm ! j = e"
    using e by (auto simp: in_set_conv_nth)
  show False
  proof (cases "j < ?k")
    case True
    then have "unat (me_map_offset e) \<le> unat p"
      using before_split [of j lm p] j by (simp add: word_le_nat_alt)
    with none [OF e] cov show False by (simp add: covers_def)
  next
    case False
    then have k: "?k \<le> j" "?k < length (lm_entries lm)" using j by simp_all
    let ?n = "lm_entries lm ! ?k"
    have n: "p < me_map_offset ?n" by (rule after_split [OF ok]) (use k in simp_all)
    have le: "me_map_offset ?n \<le> me_map_offset e"
      using map_ok_sorted [OF ok] k j by (auto simp: sorted_iff_nth_mono)
    have "unat (saturating_sub (me_map_offset ?n) p) = unat (me_map_offset ?n) - unat p"
      by (rule unat_saturating_sub)
    then have "i < max (unat (me_map_offset ?n) - unat p) 1"
      using i k by (auto simp: gap_region_def get_at_def Let_def max_def word_le_nat_alt split: if_splits)
    then have "unat p + i < unat (me_map_offset ?n)"
      using n by (auto simp: word_less_nat_alt max_def split: if_splits)
    with le cov show False by (simp add: covers_def word_le_nat_alt)
  qed
qed

text \<open>The region a lookup returns: not empty, and every position of it is located as the region says.\<close>

lemma resolve_region:
  assumes ok: "map_ok lm" and lt: "unat p < unat vs"
  obtains r where "resolve oc lm p vs = Inr r" and "0 < unat (rr_bytes r)"
    and "unat (rr_target_offset r) + unat (rr_bytes r) \<le> 2 ^ 64"
    and "\<And>i. i < unat (rr_bytes r) \<Longrightarrow>
      locate lm (unat p + i) = loc_of (rr_kind r) (unat (rr_target_offset r) + i)"
proof (cases "\<exists>e \<in> set (lm_entries lm). covers e (unat p)")
  case True
  then obtain e where e: "e \<in> set (lm_entries lm)" and cov: "covers e (unat p)" by blast
  have eok: "entry_ok e" by (rule map_ok_entry [OF ok e])
  have le: "me_map_offset e \<le> p" using cov by (simp add: covers_def word_le_nat_alt)
  have sub: "unat (p - me_map_offset e) = unat p - unat (me_map_offset e)"
    using le by (simp add: unat_sub)
  have dl: "unat (p - me_map_offset e) < unat (me_length e)"
    using cov by (auto simp: covers_def sub)
  have t: "unat (me_target_offset e + (p - me_map_offset e)) =
      unat (me_target_offset e) + (unat p - unat (me_map_offset e))"
    using eok dl by (subst unat_add_small) (simp_all add: entry_ok_def sub)
  have b: "unat (me_length e - (p - me_map_offset e)) =
      unat (me_length e) - (unat p - unat (me_map_offset e))"
    using dl by (subst unat_sub) (simp_all add: word_le_nat_alt sub)
  show ?thesis
  proof (rule that [OF resolve_covered [OF ok e cov]], goal_cases)
    case 1
    then show ?case using dl by (simp add: b sub)
  next
    case 2
    then show ?case using eok dl by (simp add: b t sub entry_ok_def)
  next
    case (3 i)
    then have "covers e (unat p + i)" using cov by (auto simp: b covers_def)
    from locate_covered [OF ok e this] show ?case
      using cov by (simp add: t covers_def add.assoc)
  qed
next
  case False
  then have none: "\<And>e. e \<in> set (lm_entries lm) \<Longrightarrow> \<not> covers e (unat p)" by blast
  let ?k = "split_index lm p"
  have "\<not> (?k > 0 \<and> covers (lm_entries lm ! (?k - 1)) (unat p))"
    using none split_index_le [of lm p] by auto
  then have res: "resolve oc lm p vs = Inr (gap_region lm ?k p vs)"
    by (auto simp: resolve_unfold [OF ok] Let_def)
  obtain b where fill: "lm_gap_default lm = Fill b"
    using ok by (auto simp: map_ok_def split: target_kind.splits)
  show ?thesis
  proof (rule that [OF res], goal_cases)
    case 1
    then show ?case by (simp add: gap_region_def Let_def max_def word_le_nat_alt)
  next
    case 2
    then show ?case by (simp add: gap_region_def Let_def less_imp_le)
  next
    case (3 i)
    have "locate lm (unat p + i) = loc_of (lm_gap_default lm) 0"
      using gap_not_covered [OF ok none lt 3] by (rule locate_gap)
    then show ?case by (simp add: gap_region_def Let_def fill)
  qed
qed

section \<open>The address-map interface\<close>

text \<open>
  What the reader needs of any address map: a lookup inside the address space returns a
  non-empty region, and inside the region each position reads where \<open>locate\<close> says, at a target
  position that fits 64 bits.
\<close>

locale address_map =
  fixes lookup :: "'m \<Rightarrow> u64 \<Rightarrow> u64 \<Rightarrow> (io_error, resolved_region) outcome"
    and at :: "'m \<Rightarrow> nat \<Rightarrow> location"
    and ok :: "'m \<Rightarrow> bool"
  assumes lookup_total: "ok m \<Longrightarrow> unat p < unat vs \<Longrightarrow> \<exists>r. lookup m p vs = Inr r"
    and lookup_nonempty: "ok m \<Longrightarrow> unat p < unat vs \<Longrightarrow> lookup m p vs = Inr r \<Longrightarrow> 0 < unat (rr_bytes r)"
    and lookup_at: "ok m \<Longrightarrow> unat p < unat vs \<Longrightarrow> lookup m p vs = Inr r \<Longrightarrow>
      i < unat (rr_bytes r) \<Longrightarrow> unat p + i < unat vs \<Longrightarrow>
      at m (unat p + i) = loc_of (rr_kind r) (unat (rr_target_offset r) + i) \<and>
      unat (rr_target_offset r) + i < 2 ^ 64"
begin

text \<open>A run of positions inside one region, under any reading of locations.\<close>

lemma lookup_run:
  assumes "ok m" "unat p < unat vs" "lookup m p vs = Inr r"
    and n: "n \<le> unat (rr_bytes r)" "unat p + n \<le> unat vs"
  shows "map (\<lambda>i. f (at m i)) [unat p..<unat p + n] =
    map (\<lambda>i. f (loc_of (rr_kind r) (unat (rr_target_offset r) + i))) [0..<n]"
  using n by (auto simp: map_upt_shift lookup_at [OF assms(1-3)])

lemma lookup_target_bound:
  assumes "ok m" "unat p < unat vs" "lookup m p vs = Inr r"
    and n: "i < unat (rr_bytes r)" "unat p + i < unat vs"
  shows "unat (rr_target_offset r + word_of_nat i) = unat (rr_target_offset r) + i"
  using lookup_at [OF assms] n
  by (subst unat_add_small) auto

end

interpretation amap: address_map "resolve oc" locate map_ok for oc
proof unfold_locales
  fix m :: loaded_map and p vs :: u64
  assume "map_ok m" "unat p < unat vs"
  then obtain r where "resolve oc m p vs = (Inr r :: resolved_region io_result)"
    using resolve_region by metis
  then show "\<exists>r. resolve oc m p vs = (Inr r :: resolved_region io_result)" ..
next
  fix m :: loaded_map and p vs :: u64 and r :: resolved_region
  assume a: "map_ok m" "unat p < unat vs"
    and r: "resolve oc m p vs = (Inr r :: resolved_region io_result)"
  from resolve_region [OF a, of oc] obtain r' where
    r': "resolve oc m p vs = (Inr r' :: resolved_region io_result)"
    and pos: "0 < unat (rr_bytes r')"
    and fits: "unat (rr_target_offset r') + unat (rr_bytes r') \<le> 2 ^ 64"
    and loc: "\<And>i. i < unat (rr_bytes r') \<Longrightarrow>
      locate m (unat p + i) = loc_of (rr_kind r') (unat (rr_target_offset r') + i)"
    by metis
  from r r' have "r' = r" by simp
  with pos show "0 < unat (rr_bytes r)" by simp
  fix i
  assume "i < unat (rr_bytes r)"
  with \<open>r' = r\<close> fits loc show "locate m (unat p + i) =
      loc_of (rr_kind r) (unat (rr_target_offset r) + i) \<and> unat (rr_target_offset r) + i < 2 ^ 64"
    by auto
qed

section \<open>Progress on any sorted map\<close>

text \<open>
  Without overflow checks a lookup in any parsed map succeeds with a non-empty region, even when
  the entries overlap or their ends exceed 64 bits: a wrapped end is below the position, so the
  lookup falls through to the gap.
\<close>

lemma resolve_release_progress:
  assumes sorted: "sorted (map me_map_offset (lm_entries lm))"
  shows "\<exists>r. resolve False lm p vs = Inr r \<and> 0 < rr_bytes r"
proof -
  let ?k = "split_index lm p" and ?e = "lm_entries lm ! (split_index lm p - 1)"
  have pp: "partition_point (\<lambda>e. me_map_offset e \<le> p) (lm_entries lm) = ?k"
    using partition_point_sorted [OF sorted] by (simp add: split_index_def)
  have gap: "0 < rr_bytes (gap_region lm ?k p vs)"
    by (auto simp: gap_region_def Let_def max_def word_less_nat_alt word_le_nat_alt)
  show ?thesis
  proof (cases "?k > 0 \<and> p < me_map_offset ?e + me_length ?e")
    case False
    with gap show ?thesis by (auto simp: resolve_eq pp Let_def)
  next
    case True
    have le: "me_map_offset ?e \<le> p" using True by (intro before_split) simp
    let ?d = "p - me_map_offset ?e"
    have "me_map_offset ?e + ?d < me_map_offset ?e + me_length ?e" using True by simp
    moreover have "unat (me_map_offset ?e + ?d) = unat (me_map_offset ?e) + unat ?d"
      using le by (simp add: unat_sub word_le_nat_alt)
    moreover have "unat (me_map_offset ?e + me_length ?e)
        \<le> unat (me_map_offset ?e) + unat (me_length ?e)"
      by (metis mod_less_eq_dividend unat_word_ariths(1))
    ultimately have "?d < me_length ?e"
      unfolding word_less_nat_alt by linarith
    then have "0 < me_length ?e - ?d"
      by (metis less_le_not_le right_minus_eq word_gt_0)
    with True show ?thesis by (simp add: resolve_eq pp Let_def)
  qed
qed

section \<open>Parsing: what the parsed entries are\<close>

definition encode_map_entry :: "map_entry \<Rightarrow> bytes" where
  "encode_map_entry e =
     u64_to_le (me_map_offset e) @ u64_to_le (me_length e) @ u64_to_le (me_target_offset e) @
     u32_to_le (me_target_id e)"

lemma length_encode_map_entry [simp]: "length (encode_map_entry e) = 28"
  by (simp add: encode_map_entry_def)

lemma sorted_parse_map_entries: "sorted (map me_map_offset (parse_map_entries sr data))"
  by (simp add: parse_map_entries_def)

lemma parse_map_entries_nonzero: "e \<in> set (parse_map_entries sr data) \<Longrightarrow> 0 < me_length e"
  by (auto simp: parse_map_entries_def)

lemma take_drop_within:
  "k + n \<le> m \<Longrightarrow> take n (drop (j + k) xs) = take n (drop k (take m (drop j xs)))"
  by (simp add: drop_take min_def add.commute)

lemma entry_at_encode:
  assumes law: "safe_read_law sr" and i: "i < length es"
  shows "entry_at sr (concat (map encode_map_entry es) @ rest) i = es ! i"
proof -
  define data where "data = concat (map encode_map_entry es) @ rest"
  have len: "length (concat (map encode_map_entry es)) = 28 * length es"
    by (rule length_concat_fixed) simp
  then have ldata: "i * 28 + 28 \<le> length data" using i by (simp add: data_def)
  have d: "take 28 (drop (i * 28) data) = encode_map_entry (es ! i)"
    using concat_fixed_drop [of es encode_map_entry 28 i] i len
    by (simp add: data_def mult.commute)
  have r64: "sr_le_u64 sr data (i * 28 + k) =
      u64_from_le (take 8 (drop k (encode_map_entry (es ! i))))" if "k + 8 \<le> 28" for k
    using law ldata that take_drop_within [OF that, of "i * 28" data]
    by (simp add: safe_read_law_def d)
  have r32: "sr_le_u32 sr data (i * 28 + 24) =
      u32_from_le (take 4 (drop 24 (encode_map_entry (es ! i))))"
    using law ldata take_drop_within [of 24 4 28 "i * 28" data]
    by (simp add: safe_read_law_def d)
  show ?thesis
    using r64 [of 0] r64 [of 8] r64 [of 16] r32
    by (simp add: entry_at_def Let_def encode_map_entry_def data_def [symmetric])
qed

lemma parse_encoded_entries:
  assumes law: "safe_read_law sr" and rest: "length rest < 28"
  shows "parse_map_entries sr (concat (map encode_map_entry es) @ rest) =
    sort_key me_map_offset (filter (\<lambda>e. me_length e > 0) es)"
proof -
  let ?data = "concat (map encode_map_entry es) @ rest"
  have "length (concat (map encode_map_entry es)) = 28 * length es"
    by (rule length_concat_fixed) simp
  then have "length ?data div 28 = length es" using rest by simp
  moreover have "map (entry_at sr ?data) [0..<length es] = es"
    by (rule nth_equalityI) (auto simp: entry_at_encode [OF law])
  ultimately show ?thesis by (simp add: parse_map_entries_def del: map_append)
qed

text \<open>A concrete reader of little-endian integers that satisfies the law.\<close>

definition safe_read_impl :: safe_read where
  "safe_read_impl =
     \<lparr>sr_le_u64 = (\<lambda>data off. if off + 8 \<le> length data
        then u64_from_le (take 8 (drop off data)) else 0),
      sr_le_u32 = (\<lambda>data off. if off + 4 \<le> length data
        then u32_from_le (take 4 (drop off data)) else 0)\<rparr>"

lemma safe_read_impl_law: "safe_read_law safe_read_impl"
  by (simp add: safe_read_law_def safe_read_impl_def)

end
