(* ===== verification/Zip_Container.thy ===== *)
theory Zip_Container
  imports Aff4_Error
begin

text \<open>
  The ZIP container under every reader. The archive itself is read by the external crate
  \<^verbatim>\<open>zip-forensic-core\<close>; what the code uses of an opened archive is a value of
  \<open>zip_archive\<close>: the list of entry names, and for each name the outcome of \<^verbatim>\<open>by_name\<close>
  (an error text, or an entry) and of reading the entry to its end (an I/O error, or the bytes).
  The backing bytes do not change while a reader is open, so both are functions of the name.
  Opening the archive is a parameter \<open>zip_new\<close> of the readers.
\<close>

record zip_archive =
  za_file_names :: "string list"
  za_by_name :: "string \<Rightarrow> string + (io_error + bytes)"

definition by_name :: "zip_archive \<Rightarrow> string \<Rightarrow> (io_error + bytes) aff4_result" where
  "by_name a name = (case za_by_name a name of Inl m \<Rightarrow> Inl (Err (Zip m)) | Inr entry \<Rightarrow> Inr entry)"

text \<open>\<^verbatim>\<open>Read::read_to_end\<close> and \<^verbatim>\<open>Read::read_to_string\<close> of an entry, the I/O error converted by \<^verbatim>\<open>?\<close>.\<close>

definition read_to_end :: "io_error + bytes \<Rightarrow> bytes aff4_result" where
  "read_to_end entry = (case entry of Inl e \<Rightarrow> Inl (Err (Io e)) | Inr data \<Rightarrow> Inr data)"

definition invalid_utf8 :: io_error where
  "invalid_utf8 = \<lparr>io_kind = InvalidData, io_message = ''stream did not contain valid UTF-8''\<rparr>"

definition read_to_string :: "io_error + bytes \<Rightarrow> string aff4_result" where
  "read_to_string entry =
     (case entry of
        Inl e \<Rightarrow> Inl (Err (Io e))
      | Inr data \<Rightarrow>
          if utf8_valid (map unat data) then Inr (string_of_bytes data)
          else Inl (Err (Io invalid_utf8)))"

definition read_zip_entry_bytes :: "zip_archive \<Rightarrow> string \<Rightarrow> bytes aff4_result" where
  "read_zip_entry_bytes a name = and_then (by_name a name) read_to_end"

definition information_turtle :: "zip_archive \<Rightarrow> string aff4_result" where
  "information_turtle a = and_then (by_name a ''information.turtle'') read_to_string"

text \<open>
  \<open>detect_zip_base\<close>: the first of the URL-encoded IRI, the literal IRI and the bare path that
  some entry name has as a directory; the bare path when none does. Behind a text that is the
  beginning of another there is always a character boundary, so the cut of the name needs no
  more than its range.
\<close>

fun has_base :: "string list \<Rightarrow> string \<Rightarrow> bool aff4_result" where
  "has_base [] cand = Inr False"
| "has_base (n # names) cand =
     (if starts_with n cand then
        and_then (slice_of n (length cand) (length n)) (\<lambda>rest.
          if starts_with rest ''/'' then Inr True else has_base names cand)
      else has_base names cand)"

fun first_base :: "string list \<Rightarrow> string list \<Rightarrow> string option aff4_result" where
  "first_base names [] = Inr None"
| "first_base names (cand # cands) =
     and_then (has_base names cand) (\<lambda>found.
       if found then Inr (Some cand) else first_base names cands)"

definition detect_zip_base :: "zip_archive \<Rightarrow> string \<Rightarrow> string aff4_result" where
  "detect_zip_base archive arn =
     (let stripped = (case strip_prefix arn ''aff4://'' of Some r \<Rightarrow> r | None \<Rightarrow> arn);
          encoded = ''aff4%3A%2F%2F'' @ stripped in
      and_then (first_base (za_file_names archive) [encoded, arn, stripped]) (\<lambda>found.
        Inr (case found of Some cand \<Rightarrow> cand | None \<Rightarrow> stripped)))"

text \<open>The base it finds, which it always does.\<close>

definition is_base :: "string list \<Rightarrow> string \<Rightarrow> bool" where
  "is_base names cand \<longleftrightarrow>
     list_ex (\<lambda>n. starts_with n cand \<and> starts_with (drop (length cand) n) ''/'') names"

definition base_of :: "zip_archive \<Rightarrow> string \<Rightarrow> string" where
  "base_of archive arn =
     (let stripped = (case strip_prefix arn ''aff4://'' of Some r \<Rightarrow> r | None \<Rightarrow> arn);
          encoded = ''aff4%3A%2F%2F'' @ stripped in
      (case find (is_base (za_file_names archive)) [encoded, arn, stripped] of
         Some cand \<Rightarrow> cand
       | None \<Rightarrow> stripped))"

lemma has_base_eq: "has_base names cand = Inr (is_base names cand)"
proof (induction names)
  case Nil
  then show ?case by (simp add: is_base_def)
next
  case (Cons n names)
  show ?case
  proof (cases "starts_with n cand")
    case True
    then have "slice_of n (length cand) (length n) = (Inr (drop (length cand) n) :: string aff4_result)"
      by (auto simp: starts_with_iff subrange_def)
    with True Cons show ?thesis by (simp add: is_base_def)
  next
    case False
    with Cons show ?thesis by (simp add: is_base_def)
  qed
qed

lemma first_base_eq: "first_base names cands = Inr (find (is_base names) cands)"
  by (induction cands) (simp_all add: has_base_eq)

lemma detect_zip_base_eq [simp]: "detect_zip_base archive arn = Inr (base_of archive arn)"
  by (simp add: detect_zip_base_def base_of_def Let_def first_base_eq)

lemma no_panic_by_name [simp]: "no_panic (by_name a n)"
  by (simp add: by_name_def split: sum.split)

lemma no_panic_read_to_end [simp]: "no_panic (read_to_end x)"
  by (simp add: read_to_end_def split: sum.split)

lemma no_panic_read_to_string [simp]: "no_panic (read_to_string x)"
  by (simp add: read_to_string_def split: sum.split)

lemma no_panic_read_zip_entry_bytes [simp]: "no_panic (read_zip_entry_bytes a n)"
  by (auto simp: read_zip_entry_bytes_def)

text \<open>What was read as text is valid UTF-8.\<close>

lemma read_to_string_str_ok: "read_to_string x = Inr t \<Longrightarrow> str_ok t"
  by (cases x) (auto simp: read_to_string_def str_ok_valid split: if_splits)

lemma information_turtle_str_ok: "information_turtle a = Inr t \<Longrightarrow> str_ok t"
  by (auto simp: information_turtle_def dest: read_to_string_str_ok)

lemma no_panic_information_turtle [simp]: "no_panic (information_turtle a)"
  by (auto simp: information_turtle_def)

lemma is_base_iff: "is_base names cand \<longleftrightarrow> (\<exists>t. cand @ CHR ''/'' # t \<in> set names)"
proof
  assume "is_base names cand"
  then obtain n where n: "n \<in> set names" and sw: "starts_with n cand"
    and sl: "starts_with (drop (length cand) n) ''/''"
    by (auto simp: is_base_def list_ex_iff)
  from sw obtain r where "n = cand @ r" by (auto simp: starts_with_iff)
  with sl n show "\<exists>t. cand @ CHR ''/'' # t \<in> set names" by (auto simp: starts_with_iff)
qed (force simp: is_base_def list_ex_iff starts_with_iff)

text \<open>An archive with given entries, the first of a name winning: what the fixtures build.\<close>

definition archive_of :: "(string \<times> bytes) list \<Rightarrow> zip_archive" where
  "archive_of es =
     \<lparr>za_file_names = map fst es,
      za_by_name = (\<lambda>n. case map_of es n of None \<Rightarrow> Inl ''entry not found'' | Some d \<Rightarrow> Inr (Inr d))\<rparr>"

lemma read_archive_of: "map_of es n = Some d \<Longrightarrow> read_zip_entry_bytes (archive_of es) n = Inr d"
  by (simp add: read_zip_entry_bytes_def by_name_def archive_of_def read_to_end_def)

end
