(* ===== verification/Meta.thy ===== *)
theory Meta
  imports Zip_Container
begin

text \<open>
  The metadata parser (\<^verbatim>\<open>core/src/meta.rs\<close>): normalisation of \<^verbatim>\<open>information.turtle\<close>,
  its split into blocks, the predicate look-ups, and the three results built from them:
  \<open>stream_meta\<close> for disk images, \<open>logical_file_meta\<close> for AFF4-L, \<open>encrypted_meta\<close> for
  encrypted streams.
\<close>

section \<open>Data\<close>

datatype compression = Null | Deflate | Snappy | Lz4

record map_meta =
  mm_map_arn :: string
  mm_image_stream_arn :: string
  mm_gap_is_symbolic_ff :: bool

record stream_meta =
  sm_stream_arn :: string
  sm_virtual_size :: u64
  sm_image_stream_size :: u64
  sm_chunk_size :: u64
  sm_chunks_per_segment :: u64
  sm_compression :: compression
  sm_image_hashes :: "stored_hash list"
  sm_map_meta :: "map_meta option"

record logical_file_meta =
  lf_arn :: string
  lf_original_file_name :: string
  lf_size :: u64
  lf_hashes :: "stored_hash list"
  lf_last_written :: "string option"

record encrypted_meta =
  em_stream_arn :: string
  em_chunks_per_segment :: u64
  em_size :: u64
  em_salt :: bytes
  em_iterations :: u32
  em_key_size :: u64
  em_wrapped_key :: bytes

section \<open>Text look-ups\<close>

definition normalize_turtle :: "string \<Rightarrow> string" where
  "normalize_turtle turtle =
     map (\<lambda>c. if c = CHR 0x0A \<or> c = CHR 0x0D \<or> c = CHR 0x09 \<or> c = CHR '';'' then CHR '' '' else c)
       turtle"

definition turtle_blocks :: "string \<Rightarrow> string list" where
  "turtle_blocks turtle = split_str (normalize_turtle turtle) '' . ''"

definition windows2 :: "'a list \<Rightarrow> ('a \<times> 'a) list" where
  "windows2 ts = zip ts (tl ts)"

text \<open>
  The first \<^verbatim>\<open><...>\<close> of a text. The slices of the three look-ups can panic; that they do not, on
  any text that was read as UTF-8, is a theorem about the guards before them.
\<close>

definition extract_iri :: "string \<Rightarrow> string option aff4_result" where
  "extract_iri s =
     (case find_str s ''<'' of
        None \<Rightarrow> Inr None
      | Some i \<Rightarrow>
          let start = i + 1 in
          and_then (str_slice s start (length s)) (\<lambda>rest.
            case find_str rest ''>'' of
              None \<Rightarrow> Inr None
            | Some k \<Rightarrow> and_then (str_slice s start (k + start)) (\<lambda>iri. Inr (Some iri))))"

definition iri_token :: "string \<Rightarrow> bool" where
  "iri_token v \<longleftrightarrow> starts_with v ''<'' \<and> ends_with v ''>''"

definition extract_pred_iri :: "string \<Rightarrow> string \<Rightarrow> string option aff4_result" where
  "extract_pred_iri block predicate =
     (case find (\<lambda>w. fst w = predicate \<and> iri_token (snd w)) (windows2 (split_whitespace block)) of
        None \<Rightarrow> Inr None
      | Some w \<Rightarrow>
          and_then (str_slice (snd w) 1 (length (snd w) - 1)) (\<lambda>iri. Inr (Some iri)))"

text \<open>The leading digits of a value, after the quotes that may open it.\<close>

definition leading_digits :: "string \<Rightarrow> string" where
  "leading_digits v = takeWhile is_ascii_digit (trim_start_matches (\<lambda>c. c = CHR 0x22) v)"

definition extract_pred_u64 :: "string \<Rightarrow> string \<Rightarrow> u64 aff4_result" where
  "extract_pred_u64 block predicate =
     (case find (\<lambda>w. fst w = predicate) (windows2 (split_whitespace block)) of
        None \<Rightarrow> Inl (bad_format (predicate @ '' not found in block''))
      | Some w \<Rightarrow>
          let val = leading_digits (snd w) in
          if val = [] then Inl (bad_format (''no integer value after '' @ predicate))
          else ok_or (BadFormat (''bad integer after '' @ predicate @ '': '' @ val)) (parse_u64 val))"

definition extract_pred_quoted :: "string \<Rightarrow> string \<Rightarrow> string option aff4_result" where
  "extract_pred_quoted block predicate =
     (case find_str block predicate of
        None \<Rightarrow> Inr None
      | Some i \<Rightarrow>
          and_then (str_slice block (i + length predicate) (length block)) (\<lambda>after_pred.
          case find_str after_pred [CHR 0x22] of
            None \<Rightarrow> Inr None
          | Some k \<Rightarrow>
              and_then (str_slice after_pred (k + 1) (length after_pred)) (\<lambda>rest.
              case find_str rest [CHR 0x22] of
                None \<Rightarrow> Inr None
              | Some close \<Rightarrow> and_then (str_slice rest 0 close) (\<lambda>v. Inr (Some v)))))"

definition detect_compression :: "string \<Rightarrow> compression" where
  "detect_compression block =
     (if contains block ''snappy'' \<or> contains block ''google.com/p/snappy'' then Snappy
      else if contains block ''rfc1950'' \<or> contains block ''DeflateCompressor'' then Deflate
      else if contains block ''lz4'' \<or> contains block ''github.com/lz4'' then Lz4
      else Null)"

text \<open>\<open>hex_decode\<close>: two digits at a time by their indexes, after the check for an even length.\<close>

function hex_loop :: "string \<Rightarrow> nat \<Rightarrow> bytes \<Rightarrow> bytes option aff4_result" where
  "hex_loop bytes i out =
     (if i < length bytes then
        (case index_at bytes i of
           Inl e \<Rightarrow> Inl e
         | Inr a \<Rightarrow>
             (case to_digit16 a of
                None \<Rightarrow> Inr None
              | Some hi \<Rightarrow>
                  (case index_at bytes (i + 1) of
                     Inl e \<Rightarrow> Inl e
                   | Inr b \<Rightarrow>
                       (case to_digit16 b of
                          None \<Rightarrow> Inr None
                        | Some lo \<Rightarrow>
                            hex_loop bytes (i + 2) (out @ [word_of_nat (hi * 16 + lo)])))))
      else Inr (Some out))"
  by pat_completeness auto
termination
  by (relation "measure (\<lambda>(bytes, i, out). length bytes - i)") auto

declare hex_loop.simps [simp del]

definition hex_decode :: "string \<Rightarrow> bytes option aff4_result" where
  "hex_decode s = (if length s mod 2 \<noteq> 0 then Inr None else hex_loop s 0 [])"

section \<open>Stored hashes\<close>

definition parse_hash_term :: "string \<Rightarrow> stored_hash option" where
  "parse_hash_term tok =
     (case strip_prefix tok [CHR 0x22] of
        None \<Rightarrow> None
      | Some rest \<Rightarrow>
          (case split_once rest (CHR 0x22 # ''^^aff4:'') of
             None \<Rightarrow> None
           | Some (h, dtype) \<Rightarrow>
               if h = [] \<or> \<not> list_all is_ascii_hexdigit h then None
               else
                 let alg = trim_end_matches (\<lambda>c. \<not> is_ascii_alphanumeric c) dtype in
                 if alg = [] then None
                 else Some \<lparr>algorithm = alg, hex = to_ascii_lowercase h\<rparr>))"

text \<open>The two loops of \<open>parse_image_hashes\<close>, over the index of the token they look at.\<close>

function hash_values_loop ::
    "string list \<Rightarrow> nat \<Rightarrow> stored_hash list \<Rightarrow> (nat \<times> stored_hash list) aff4_result" where
  "hash_values_loop tokens j out =
     (if j < length tokens then
        (case index_at tokens j of
           Inl e \<Rightarrow> Inl e
         | Inr t \<Rightarrow>
             (if t = '','' then hash_values_loop tokens (j + 1) out
              else (case parse_hash_term t of
                      Some h \<Rightarrow> hash_values_loop tokens (j + 1) (out @ [h])
                    | None \<Rightarrow> Inr (j, out))))
      else Inr (j, out))"
  by pat_completeness auto
termination
  by (relation "measure (\<lambda>(tokens, j, out). length tokens - j)") auto

declare hash_values_loop.simps [simp del]

function hash_tokens_loop ::
    "string list \<Rightarrow> nat \<Rightarrow> stored_hash list \<Rightarrow> stored_hash list aff4_result" where
  "hash_tokens_loop tokens i out =
     (if i < length tokens then
        (case index_at tokens i of
           Inl e \<Rightarrow> Inl e
         | Inr t \<Rightarrow>
             (if t \<noteq> ''aff4:hash'' then hash_tokens_loop tokens (i + 1) out
              else
                (case hash_values_loop tokens (i + 1) out of
                   Inl e \<Rightarrow> Inl e
                 | Inr (j, out') \<Rightarrow> hash_tokens_loop tokens (max j (i + 1)) out')))
      else Inr out)"
  by pat_completeness auto
termination
  by (relation "measure (\<lambda>(tokens, i, out). length tokens - i)") auto

declare hash_tokens_loop.simps [simp del]

definition parse_image_hashes :: "string \<Rightarrow> stored_hash list aff4_result" where
  "parse_image_hashes block = hash_tokens_loop (split_whitespace block) 0 []"

section \<open>Disk images\<close>

definition parse_image_stream_block ::
    "string \<Rightarrow> (map_meta \<times> u64) option \<Rightarrow> stream_meta aff4_result" where
  "parse_image_stream_block block map_override =
     and_then (extract_iri block) (\<lambda>iri.
     and_then (ok_or (BadFormat ''stream IRI not found in ImageStream block'') iri) (\<lambda>stream_arn.
     and_then (extract_pred_u64 block ''aff4:chunkSize'') (\<lambda>chunk_size.
     and_then (extract_pred_u64 block ''aff4:chunksInSegment'') (\<lambda>chunks_per_segment.
       if chunk_size = 0 then Inl (bad_format ''aff4:chunkSize must be > 0'')
       else if chunks_per_segment = 0 then Inl (bad_format ''aff4:chunksInSegment must be > 0'')
       else
         and_then (extract_pred_u64 block ''aff4:size'') (\<lambda>image_stream_size.
         and_then (parse_image_hashes block) (\<lambda>image_hashes.
           let vm = (case map_override of
                       Some (mm, vs) \<Rightarrow> (vs, Some mm)
                     | None \<Rightarrow> (image_stream_size, None)) in
           Inr \<lparr>sm_stream_arn = stream_arn,
                sm_virtual_size = fst vm,
                sm_image_stream_size = image_stream_size,
                sm_chunk_size = chunk_size,
                sm_chunks_per_segment = chunks_per_segment,
                sm_compression = detect_compression block,
                sm_image_hashes = image_hashes,
                sm_map_meta = snd vm\<rparr>))))))"

definition parse_map_turtle :: "string list \<Rightarrow> string \<Rightarrow> stream_meta aff4_result" where
  "parse_map_turtle blocks map_block =
     and_then (extract_iri map_block) (\<lambda>iri.
     and_then (ok_or (BadFormat ''Map IRI not found in aff4:Map block'') iri) (\<lambda>map_arn.
     and_then (extract_pred_u64 map_block ''aff4:size'') (\<lambda>virtual_size.
     and_then (extract_pred_iri map_block ''aff4:dependentStream'') (\<lambda>dep.
     and_then (ok_or (BadFormat ''aff4:dependentStream not found in Map block'') dep) (\<lambda>dep_arn.
     and_then
       (ok_or (BadFormat (''dependent ImageStream '' @ dep_arn @ '' not found in turtle''))
          (find (\<lambda>b. contains b ''ImageStream'' \<and> contains b dep_arn) blocks))
       (\<lambda>image_block.
          parse_image_stream_block image_block
            (Some (\<lparr>mm_map_arn = map_arn, mm_image_stream_arn = dep_arn,
                    mm_gap_is_symbolic_ff = contains map_block ''SymbolicStreamFF''\<rparr>,
                   virtual_size))))))))"

definition encrypted_refusal :: "string \<Rightarrow> string" where
  "encrypted_refusal arn =
     ''stream '' @ arn @ '' is an aff4:EncryptedStream (AES-XTS); provide-key decryption '' @
     ''is not yet implemented''"

definition parse_turtle :: "string \<Rightarrow> stream_meta aff4_result" where
  "parse_turtle turtle =
     (let blocks = turtle_blocks turtle in
      (case find (\<lambda>b. contains b ''aff4:EncryptedStream'') blocks of
         Some block \<Rightarrow>
           and_then (extract_iri block) (\<lambda>iri.
             let arn = (case iri of Some a \<Rightarrow> a | None \<Rightarrow> ''<unknown stream>'') in
             Inl (Err (Encrypted (encrypted_refusal arn))))
       | None \<Rightarrow>
           (case find (\<lambda>b. contains b ''aff4:Map'') blocks of
              Some map_block \<Rightarrow> parse_map_turtle blocks map_block
            | None \<Rightarrow>
                and_then
                  (ok_or (BadFormat ''no aff4:ImageStream found in metadata'')
                     (find (\<lambda>b. contains b ''ImageStream'') blocks))
                  (\<lambda>image_block. parse_image_stream_block image_block None))))"

section \<open>Logical files\<close>

text \<open>\<^verbatim>\<open>unwrap_or\<close> on a result: an error gives the default, a panic does not.\<close>

fun unwrap_or :: "'a \<Rightarrow> 'a aff4_result \<Rightarrow> 'a aff4_result" where
  "unwrap_or d (Inr a) = Inr a"
| "unwrap_or d (Inl (Err e)) = Inr d"
| "unwrap_or d (Inl (Panic p)) = Inl (Panic p)"

definition parse_file_image :: "string \<Rightarrow> logical_file_meta aff4_result" where
  "parse_file_image block =
     and_then (extract_iri block) (\<lambda>iri.
     and_then (ok_or (BadFormat ''FileImage node has no IRI subject'') iri) (\<lambda>arn.
     and_then (unwrap_or 0 (extract_pred_u64 block ''aff4:size'')) (\<lambda>size.
     and_then (extract_pred_quoted block ''aff4:originalFileName'') (\<lambda>name.
     and_then (parse_image_hashes block) (\<lambda>hashes.
     and_then (extract_pred_quoted block ''aff4:lastWritten'') (\<lambda>last_written.
       Inr
         \<lparr>lf_arn = arn,
          lf_original_file_name = (case name of Some n \<Rightarrow> n | None \<Rightarrow> arn),
          lf_size = size,
          lf_hashes = hashes,
          lf_last_written = last_written\<rparr>))))))"

definition parse_logical_files :: "string \<Rightarrow> logical_file_meta list aff4_result" where
  "parse_logical_files turtle =
     traverse parse_file_image
       (filter (\<lambda>block. contains block ''aff4:FileImage'') (turtle_blocks turtle))"

section \<open>Encrypted streams\<close>

definition hex_literal :: "string \<Rightarrow> string \<Rightarrow> bytes option aff4_result" where
  "hex_literal block predicate =
     and_then (extract_pred_quoted block predicate) (\<lambda>q.
       case q of None \<Rightarrow> Inr None | Some h \<Rightarrow> hex_decode h)"

definition parse_encrypted_meta :: "string \<Rightarrow> encrypted_meta aff4_result" where
  "parse_encrypted_meta turtle =
     (let blocks = turtle_blocks turtle in
      and_then
        (ok_or (BadFormat ''no aff4:EncryptedStream in metadata'')
           (find (\<lambda>b. contains b ''aff4:EncryptedStream'') blocks)) (\<lambda>stream_block.
      and_then (extract_iri stream_block) (\<lambda>iri.
      and_then (ok_or (BadFormat ''EncryptedStream has no IRI'') iri) (\<lambda>stream_arn.
      and_then (extract_pred_u64 stream_block ''aff4:chunkSize'') (\<lambda>chunk_size.
      and_then (extract_pred_u64 stream_block ''aff4:chunksInSegment'') (\<lambda>chunks_per_segment.
      and_then (extract_pred_u64 stream_block ''aff4:size'') (\<lambda>stream_size.
      if chunk_size = 0 \<or> chunks_per_segment = 0
      then Inl (bad_format ''EncryptedStream chunk geometry must be > 0'')
      else
        and_then (extract_pred_iri stream_block ''aff4:keyBag'') (\<lambda>keybag.
        and_then (ok_or (BadFormat ''EncryptedStream has no aff4:keyBag'') keybag) (\<lambda>keybag_arn.
        and_then (ok_or (BadFormat (''keybag '' @ keybag_arn @ '' not found''))
                    (find (\<lambda>b. contains b keybag_arn \<and> contains b ''KeyBag'') blocks))
          (\<lambda>keybag_block.
        if \<not> contains keybag_block ''PasswordWrappedKeyBag''
        then Inl (Err (Encrypted
          (''only password-wrapped keybags are supported (this container uses another keybag type)'')))
        else
          and_then (extract_pred_u64 keybag_block ''aff4:iterations'') (\<lambda>it.
          and_then (if unat it < 2 ^ 32 then Inr (ucast it :: u32)
                    else Inl (bad_format ''aff4:iterations out of range'')) (\<lambda>iterations.
          and_then (extract_pred_u64 keybag_block ''aff4:keySizeInBytes'') (\<lambda>key_size.
          and_then (hex_literal keybag_block ''aff4:salt'') (\<lambda>salt_bytes.
          and_then (ok_or (BadFormat ''aff4:salt missing or not hex'') salt_bytes) (\<lambda>salt.
          and_then (hex_literal keybag_block ''aff4:wrappedKey'') (\<lambda>key_bytes.
          and_then (ok_or (BadFormat ''aff4:wrappedKey missing or not hex'') key_bytes)
            (\<lambda>wrapped_key.
          Inr \<lparr>em_stream_arn = stream_arn,
               em_chunks_per_segment = chunks_per_segment,
               em_size = stream_size,
               em_salt = salt,
               em_iterations = iterations,
               em_key_size = key_size,
               em_wrapped_key = wrapped_key\<rparr>)))))))))))))))))"

end
