(* ===== verification/Reader.thy ===== *)
theory Reader
  imports Aff4_Map Meta
begin

text \<open>
  The disk-image reader of \<^verbatim>\<open>core/src/lib.rs\<close>: opening a container, reading a chunk from
  its bevy, \<^verbatim>\<open>Read\<close> and \<^verbatim>\<open>Seek\<close> over the virtual disk, streaming the content of
  the image stream, and the container-kind probe. The flag \<open>oc\<close> says whether the build checks
  plain arithmetic for overflow. A read or seek that fails leaves the reader as it was, so a
  fault carries no state.
\<close>

section \<open>State and parameters\<close>

text \<open>The decompressors are external; each returns the error text or the bytes.\<close>

record codecs =
  zlib_decode :: "bytes \<Rightarrow> string + bytes"
  snappy_decode :: "bytes \<Rightarrow> string + bytes"
  lz4_decode :: "bytes \<Rightarrow> string + bytes"

record aff4_reader =
  rd_archive :: zip_archive
  rd_zip_base :: string
  rd_virtual_size :: u64
  rd_image_stream_size :: u64
  rd_chunk_size :: u64
  rd_chunks_per_segment :: u64
  rd_compression :: compression
  rd_image_hashes :: "stored_hash list"
  rd_pos :: u64
  rd_loaded_map :: "loaded_map option"

datatype kind_of_container = Disk | Logical | EncryptedContainer

text \<open>
  The environment: the file system as a function from paths, and the external ZIP reader as a
  function from the bytes of the backing source.
\<close>

type_synonym file_system = "string \<Rightarrow> io_error + bytes"
type_synonym zip_opener = "bytes \<Rightarrow> string + zip_archive"

definition open_file :: "file_system \<Rightarrow> string \<Rightarrow> bytes aff4_result" where
  "open_file fs path = (case fs path of Inl e \<Rightarrow> Inl (Err (Io e)) | Inr backing \<Rightarrow> Inr backing)"

definition zip_archive_new :: "zip_opener \<Rightarrow> bytes \<Rightarrow> zip_archive aff4_result" where
  "zip_archive_new zo backing =
     (case zo backing of Inl m \<Rightarrow> Inl (Err (Zip m)) | Inr a \<Rightarrow> Inr a)"

section \<open>Opening\<close>

definition load_map :: "safe_read \<Rightarrow> zip_archive \<Rightarrow> map_meta \<Rightarrow> loaded_map aff4_result" where
  "load_map sr archive mm =
     and_then (detect_zip_base archive (mm_map_arn mm)) (\<lambda>map_zip_base.
      and_then (read_zip_entry_bytes archive (map_zip_base @ ''/map'')) (\<lambda>map_data.
      and_then (and_then (by_name archive (map_zip_base @ ''/idx'')) read_to_string) (\<lambda>idx_data.
        Inr \<lparr>lm_entries = parse_map_entries sr map_data,
             lm_targets = parse_idx idx_data (mm_image_stream_arn mm),
             lm_gap_default = (if mm_gap_is_symbolic_ff mm then Fill 0xFF else Fill 0)\<rparr>)))"

definition open_reader ::
    "zip_opener \<Rightarrow> safe_read \<Rightarrow> bytes \<Rightarrow> aff4_reader aff4_result" where
  "open_reader zo sr backing =
     and_then (zip_archive_new zo backing) (\<lambda>archive.
     and_then (information_turtle archive) (\<lambda>turtle.
     and_then (parse_turtle turtle) (\<lambda>meta.
     and_then (detect_zip_base archive (sm_stream_arn meta)) (\<lambda>base.
     and_then
       (case sm_map_meta meta of
          Some mm \<Rightarrow> and_then (load_map sr archive mm) (\<lambda>lm. Inr (Some lm))
        | None \<Rightarrow> Inr None)
       (\<lambda>lm.
          Inr \<lparr>rd_archive = archive,
               rd_zip_base = base,
               rd_virtual_size = sm_virtual_size meta,
               rd_image_stream_size = sm_image_stream_size meta,
               rd_chunk_size = sm_chunk_size meta,
               rd_chunks_per_segment = sm_chunks_per_segment meta,
               rd_compression = sm_compression meta,
               rd_image_hashes = sm_image_hashes meta,
               rd_pos = 0,
               rd_loaded_map = lm\<rparr>)))))"

definition open_path ::
    "file_system \<Rightarrow> zip_opener \<Rightarrow> safe_read \<Rightarrow> string \<Rightarrow> aff4_reader aff4_result" where
  "open_path fs zo sr path = and_then (open_file fs path) (open_reader zo sr)"

text \<open>\<open>container_kind\<close>: logical files first, then the disk parser, whose refusal means encrypted.\<close>

definition container_kind ::
    "file_system \<Rightarrow> zip_opener \<Rightarrow> string \<Rightarrow> kind_of_container aff4_result" where
  "container_kind fs zo path =
     and_then (open_file fs path) (\<lambda>backing.
     and_then (zip_archive_new zo backing) (\<lambda>archive.
     and_then (information_turtle archive) (\<lambda>turtle.
     and_then (parse_logical_files turtle) (\<lambda>files.
       if files \<noteq> [] then Inr Logical
       else (case parse_turtle turtle of
               Inr _ \<Rightarrow> Inr Disk
             | Inl (Err (Encrypted _)) \<Rightarrow> Inr EncryptedContainer
             | Inl e \<Rightarrow> Inl e)))))"

section \<open>Accessors\<close>

definition virtual_disk_size :: "aff4_reader \<Rightarrow> u64" where
  "virtual_disk_size r = rd_virtual_size r"

definition image_stream_size :: "aff4_reader \<Rightarrow> u64" where
  "image_stream_size r = rd_image_stream_size r"

definition stored_image_hashes :: "aff4_reader \<Rightarrow> stored_hash list" where
  "stored_image_hashes r = rd_image_hashes r"

definition reader_unreadable_regions :: "aff4_reader \<Rightarrow> (u64 \<times> u64) list" where
  "reader_unreadable_regions r =
     (case rd_loaded_map r of Some lm \<Rightarrow> unreadable_regions lm | None \<Rightarrow> [])"

text \<open>\<^verbatim>\<open>{:?}\<close> of a reader: two of its fields, and the dots of \<^verbatim>\<open>finish_non_exhaustive\<close>.\<close>

definition debug_reader :: "aff4_reader \<Rightarrow> string" where
  "debug_reader r =
     ''Aff4Reader { virtual_size: '' @ dec (unat (rd_virtual_size r)) @
     '', chunk_size: '' @ dec (unat (rd_chunk_size r)) @ '', .. }''"

section \<open>Chunks\<close>

text \<open>The name of a bevy segment, and the three decompressing branches and the copying one.\<close>

definition segment_name :: "string \<Rightarrow> u64 \<Rightarrow> string" where
  "segment_name zip_base segment_idx = zip_base @ ''/'' @ hex08 segment_idx"

definition decode_with :: "string \<Rightarrow> string + bytes \<Rightarrow> bytes aff4_result" where
  "decode_with what res =
     (case res of Inl e \<Rightarrow> Inl (bad_format (what @ '' decode: '' @ e)) | Inr out \<Rightarrow> Inr out)"

fun decompress :: "codecs \<Rightarrow> u64 \<Rightarrow> compression \<Rightarrow> bytes \<Rightarrow> bytes aff4_result" where
  "decompress cd chunk_size Null stored = Inr stored"
| "decompress cd chunk_size Deflate stored =
     and_then (with_capacity chunk_size) (\<lambda>_. decode_with ''deflate'' (zlib_decode cd stored))"
| "decompress cd chunk_size Snappy stored = decode_with ''snappy'' (snappy_decode cd stored)"
| "decompress cd chunk_size Lz4 stored =
     and_then (with_capacity chunk_size) (\<lambda>_. decode_with ''lz4'' (lz4_decode cd stored))"

definition bounds_error :: "string \<Rightarrow> u64 \<Rightarrow> u64 \<Rightarrow> nat \<Rightarrow> aff4_error fault" where
  "bounds_error what start stop n =
     bad_format (what @ '' bounds ('' @ dec (unat start) @ ''..'' @ dec (unat stop) @
       '') exceed bevy size ('' @ dec n @ '')'')"

definition read_chunk :: "bool \<Rightarrow> codecs \<Rightarrow> aff4_reader \<Rightarrow> u64 \<Rightarrow> bytes aff4_result" where
  "read_chunk oc cd r chunk_idx =
     (if rd_chunks_per_segment r = 0 then Inl (Panic DivisionByZero)
      else
        let segment_idx = chunk_idx div rd_chunks_per_segment r;
            chunk_in_seg = chunk_idx mod rd_chunks_per_segment r;
            name = segment_name (rd_zip_base r) segment_idx in
        and_then (read_zip_entry_bytes (rd_archive r) (name @ ''.index'')) (\<lambda>index_data.
        and_then (chunk_bounds_from_index oc index_data chunk_in_seg) (\<lambda>(start, stop).
          if start = stop then
            and_then (with_capacity (rd_chunk_size r))
              (\<lambda>_. Inr (replicate (unat (rd_chunk_size r)) 0))
          else
            and_then (read_zip_entry_bytes (rd_archive r) name) (\<lambda>bevy_data.
              if unat stop > length bevy_data
              then Inl (bounds_error ''chunk'' start stop (length bevy_data))
              else
                and_then (slice_of bevy_data (unat start) (unat stop)) (\<lambda>stored.
                if length stored = unat (rd_chunk_size r) then Inr stored
                else decompress cd (rd_chunk_size r) (rd_compression r) stored)))))"

text \<open>The slice lies inside the bevy: its end is checked, and no index entry decreases.\<close>

lemma read_chunk_eq:
  "read_chunk oc cd r chunk_idx =
     (if rd_chunks_per_segment r = 0 then Inl (Panic DivisionByZero)
      else
        let segment_idx = chunk_idx div rd_chunks_per_segment r;
            chunk_in_seg = chunk_idx mod rd_chunks_per_segment r;
            name = segment_name (rd_zip_base r) segment_idx in
        and_then (read_zip_entry_bytes (rd_archive r) (name @ ''.index'')) (\<lambda>index_data.
        and_then (chunk_bounds_from_index oc index_data chunk_in_seg) (\<lambda>(start, stop).
          if start = stop then
            and_then (with_capacity (rd_chunk_size r))
              (\<lambda>_. Inr (replicate (unat (rd_chunk_size r)) 0))
          else
            and_then (read_zip_entry_bytes (rd_archive r) name) (\<lambda>bevy_data.
              if unat stop > length bevy_data
              then Inl (bounds_error ''chunk'' start stop (length bevy_data))
              else
                let stored = subrange bevy_data (unat start) (unat stop) in
                if length stored = unat (rd_chunk_size r) then Inr stored
                else decompress cd (rd_chunk_size r) (rd_compression r) stored))))"
  unfolding read_chunk_def Let_def
proof (intro if_cong and_then_cong refl, unfold split_paired_all prod.case, intro if_cong and_then_cong refl)
  fix index a b and bevy :: bytes
  assume "chunk_bounds_from_index oc index (chunk_idx mod rd_chunks_per_segment r) = Inr (a, b)"
    and "\<not> length bevy < unat b"
  then have "slice_of bevy (unat a) (unat b) = (Inr (subrange bevy (unat a) (unat b)) :: bytes aff4_result)"
    using chunk_bounds_okD(1) [of oc index _ a b] by (simp add: word_le_nat_alt)
  then show "and_then (slice_of bevy (unat a) (unat b)) (\<lambda>stored.
      if length stored = unat (rd_chunk_size r) then Inr stored
      else decompress cd (rd_chunk_size r) (rd_compression r) stored) =
    (if length (subrange bevy (unat a) (unat b)) = unat (rd_chunk_size r)
     then Inr (subrange bevy (unat a) (unat b))
     else decompress cd (rd_chunk_size r) (rd_compression r) (subrange bevy (unat a) (unat b)))"
    by simp
qed

section \<open>Streaming the image content\<close>

text \<open>
  The caller's closure \<open>sink\<close> is a state transformer; its state is returned even when a later
  chunk fails, because the closure has been called by then.
\<close>

fun content_loop ::
    "(u64 \<Rightarrow> bytes aff4_result) \<Rightarrow> bool \<Rightarrow> u64 \<Rightarrow> ('s \<Rightarrow> bytes \<Rightarrow> 's) \<Rightarrow> u64 list \<Rightarrow> u64 \<Rightarrow> 's \<Rightarrow>
     's \<times> unit aff4_result" where
  "content_loop chunk_of oc total_size sink [] produced s = (s, Inr ())"
| "content_loop chunk_of oc total_size sink (idx # idxs) produced s =
     (case chunk_of idx of
        Inl e \<Rightarrow> (s, Inl e)
      | Inr chunk \<Rightarrow>
          (case plain_sub oc total_size produced of
             Inl e \<Rightarrow> (s, Inl e)
           | Inr remaining \<Rightarrow>
               let k = min (length chunk) (unat remaining) in
               (case slice_of chunk 0 k of
                  Inl e \<Rightarrow> (s, Inl e)
                | Inr part \<Rightarrow>
                    let s' = sink s part in
                    (case plain_add oc produced (word_of_nat k) of
                       Inl e \<Rightarrow> (s', Inl e)
                     | Inr produced' \<Rightarrow>
                         content_loop chunk_of oc total_size sink idxs produced' s'))))"

declare content_loop.simps(2) [simp del]

lemma content_loop_Cons [simp]:
  "content_loop chunk_of oc total_size sink (idx # idxs) produced s =
     (case chunk_of idx of
        Inl e \<Rightarrow> (s, Inl e)
      | Inr chunk \<Rightarrow>
          (case plain_sub oc total_size produced of
             Inl e \<Rightarrow> (s, Inl e)
           | Inr remaining \<Rightarrow>
               let k = min (length chunk) (unat remaining); s' = sink s (take k chunk) in
               (case plain_add oc produced (word_of_nat k) of
                  Inl e \<Rightarrow> (s', Inl e)
                | Inr produced' \<Rightarrow> content_loop chunk_of oc total_size sink idxs produced' s')))"
  by (simp add: content_loop.simps(2) subrange_def Let_def split: sum.split)

definition read_image_stream_content ::
    "bool \<Rightarrow> codecs \<Rightarrow> aff4_reader \<Rightarrow> ('s \<Rightarrow> bytes \<Rightarrow> 's) \<Rightarrow> 's \<Rightarrow> 's \<times> unit aff4_result" where
  "read_image_stream_content oc cd r sink s =
     (if rd_chunk_size r = 0 then (s, Inl (bad_format ''aff4:chunkSize must be > 0''))
      else
        let total_size = rd_image_stream_size r; n_chunks = div_ceil total_size (rd_chunk_size r) in
        content_loop (read_chunk oc cd r) oc total_size sink
          (map word_of_nat [0..<unat n_chunks]) 0 s)"

section \<open>Read\<close>

definition region_at :: "bool \<Rightarrow> aff4_reader \<Rightarrow> resolved_region io_result" where
  "region_at oc r =
     (case rd_loaded_map r of
        Some lm \<Rightarrow> resolve oc lm (rd_pos r) (rd_virtual_size r)
      | None \<Rightarrow> Inr \<lparr>rr_kind = ImageStream, rr_target_offset = rd_pos r,
                     rr_bytes = 0xFFFFFFFFFFFFFFFF\<rparr>)"

text \<open>Copy \<open>data\<close>, of some length $n$, to \<^verbatim>\<open>buf[..n]\<close> and advance the position.\<close>

definition deliver ::
    "bool \<Rightarrow> aff4_reader \<Rightarrow> bytes \<Rightarrow> bytes \<Rightarrow> (nat \<times> bytes \<times> aff4_reader) io_result" where
  "deliver oc r buf data =
     and_then (slice_of buf 0 (length data)) (\<lambda>_.
     and_then (plain_add oc (rd_pos r) (word_of_nat (length data))) (\<lambda>p.
       Inr (length data, data @ drop (length data) buf, r\<lparr>rd_pos := p\<rparr>)))"

definition tile_bytes :: "bool \<Rightarrow> tile \<Rightarrow> u64 \<Rightarrow> nat \<Rightarrow> bytes io_result" where
  "tile_bytes oc t target_offset n =
     traverse (\<lambda>i. and_then (plain_add oc target_offset (word_of_nat i))
                     (tile_byte_at t)) [0..<n]"

definition aff4_read ::
    "bool \<Rightarrow> codecs \<Rightarrow> aff4_reader \<Rightarrow> bytes \<Rightarrow> (nat \<times> bytes \<times> aff4_reader) io_result" where
  "aff4_read oc cd r buf =
     (if buf = [] \<or> rd_virtual_size r \<le> rd_pos r then Inr (0, buf, r)
      else
        let remaining = rd_virtual_size r - rd_pos r;
            to_read = min (length buf) (unat remaining) in
        and_then (region_at oc r) (\<lambda>region.
          let m = min to_read (unat (rr_bytes region)) in
          (case rr_kind region of
             Unknown \<Rightarrow> deliver oc r buf (replicate m 0)
           | Fill byte \<Rightarrow> deliver oc r buf (replicate m byte)
           | Tile t \<Rightarrow>
               and_then (slice_of buf 0 m) (\<lambda>_.
               and_then (tile_bytes oc t (rr_target_offset region) m) (deliver oc r buf))
           | ImageStream \<Rightarrow>
               if rd_chunk_size r = 0 then Inl (Panic DivisionByZero)
               else
                 let chunk_idx = rr_target_offset region div rd_chunk_size r;
                     offset_in_chunk = unat (rr_target_offset region mod rd_chunk_size r) in
                 and_then
                   (map_err (\<lambda>e. io_other (aff4_error_display e)) (read_chunk oc cd r chunk_idx))
                   (\<lambda>chunk.
                      let available =
                            min (length chunk - offset_in_chunk) (unat (rr_bytes region));
                          n = min to_read available in
                      if n = 0 then Inr (0, buf, r)
                      else and_then (slice_of chunk offset_in_chunk (offset_in_chunk + n))
                             (deliver oc r buf)))))"

text \<open>
  The slices of the buffer and of the chunk are inside them, by the minima before them; what is
  left is to append the data to the front of the buffer and to advance.
\<close>

definition advance ::
    "bool \<Rightarrow> aff4_reader \<Rightarrow> bytes \<Rightarrow> bytes \<Rightarrow> (nat \<times> bytes \<times> aff4_reader) io_result" where
  "advance oc r buf data =
     and_then (plain_add oc (rd_pos r) (word_of_nat (length data))) (\<lambda>p.
       Inr (length data, data @ drop (length data) buf, r\<lparr>rd_pos := p\<rparr>))"

lemma deliver_fits: "length data \<le> length buf \<Longrightarrow> deliver oc r buf data = advance oc r buf data"
  by (simp add: deliver_def advance_def)

lemma aff4_read_eq:
  "aff4_read oc cd r buf =
     (if buf = [] \<or> rd_virtual_size r \<le> rd_pos r then Inr (0, buf, r)
      else
        let remaining = rd_virtual_size r - rd_pos r;
            to_read = min (length buf) (unat remaining) in
        and_then (region_at oc r) (\<lambda>region.
          let m = min to_read (unat (rr_bytes region)) in
          (case rr_kind region of
             Unknown \<Rightarrow> advance oc r buf (replicate m 0)
           | Fill byte \<Rightarrow> advance oc r buf (replicate m byte)
           | Tile t \<Rightarrow>
               and_then (tile_bytes oc t (rr_target_offset region) m) (advance oc r buf)
           | ImageStream \<Rightarrow>
               if rd_chunk_size r = 0 then Inl (Panic DivisionByZero)
               else
                 let chunk_idx = rr_target_offset region div rd_chunk_size r;
                     offset_in_chunk = unat (rr_target_offset region mod rd_chunk_size r) in
                 and_then
                   (map_err (\<lambda>e. io_other (aff4_error_display e)) (read_chunk oc cd r chunk_idx))
                   (\<lambda>chunk.
                      let available =
                            min (length chunk - offset_in_chunk) (unat (rr_bytes region));
                          n = min to_read available in
                      if n = 0 then Inr (0, buf, r)
                      else advance oc r buf
                             (subrange chunk offset_in_chunk (offset_in_chunk + n))))))"
proof -
  have tile: "and_then (tile_bytes oc t p m) (deliver oc r buf) =
      and_then (tile_bytes oc t p m) (advance oc r buf)" if "m \<le> length buf" for t p m
  proof -
    have "deliver oc r buf data = advance oc r buf data" if "tile_bytes oc t p m = Inr data" for data
      using that \<open>m \<le> length buf\<close>
      by (intro deliver_fits) (auto simp: tile_bytes_def dest: traverse_length)
    then show ?thesis by (intro and_then_cong refl)
  qed
  have stream: "and_then (slice_of chunk off (off + n)) (deliver oc r buf) =
      advance oc r buf (subrange chunk off (off + n))"
    if "n \<noteq> 0" "n \<le> length chunk - off" "n \<le> length buf" for chunk off n
    using that by (simp add: deliver_fits)
  show ?thesis
    unfolding aff4_read_def Let_def
    by (intro if_cong and_then_cong refl) (simp add: deliver_fits tile stream
        cong: if_cong split: target_kind.split)
qed

section \<open>Seek\<close>

text \<open>Offsets are \<^verbatim>\<open>i64\<close>: words read with \<open>sint\<close>; \<^verbatim>\<open>as i64\<close> keeps the bits.\<close>

type_synonym i64 = "64 word"

datatype seek_from = Start u64 | End i64 | Current i64

definition plain_add_i64 :: "bool \<Rightarrow> i64 \<Rightarrow> i64 \<Rightarrow> ('e, i64) outcome" where
  "plain_add_i64 oc a b =
     (if oc \<and> (sint a + sint b < - (2 ^ 63) \<or> 2 ^ 63 \<le> sint a + sint b)
      then Inl (Panic ArithmeticOverflow) else Inr (a + b))"

fun seek_target :: "bool \<Rightarrow> aff4_reader \<Rightarrow> seek_from \<Rightarrow> i64 io_result" where
  "seek_target oc r (Start n) = Inr n"
| "seek_target oc r (End n) = plain_add_i64 oc (rd_virtual_size r) n"
| "seek_target oc r (Current n) = plain_add_i64 oc (rd_pos r) n"

definition aff4_seek ::
    "bool \<Rightarrow> aff4_reader \<Rightarrow> seek_from \<Rightarrow> (u64 \<times> aff4_reader) io_result" where
  "aff4_seek oc r whence =
     and_then (seek_target oc r whence) (\<lambda>new_pos.
       if sint new_pos < 0
       then Inl (Err \<lparr>io_kind = InvalidInput, io_message = ''seek before start of stream''\<rparr>)
       else Inr (new_pos, r\<lparr>rd_pos := new_pos\<rparr>))"

end
