(* ===== verification/Fixtures.thy ===== *)
theory Fixtures
  imports Reader Bevy_Index
begin

text \<open>
  The fixture builders of \<^verbatim>\<open>core/src/testutil.rs\<close>, as the lists of ZIP entries they write.
  The ZIP writer is external: \<open>zip_pack\<close> turns the entries into the backing bytes, and an
  opener that reads the bytes back gives \<open>archive_of\<close> the entries.
\<close>

definition chunk_size_const :: nat where
  "chunk_size_const = 512"

definition stream_arn_const :: string where
  "stream_arn_const = ''aff4://issen-test-stream''"

definition map_arn_const :: string where
  "map_arn_const = ''aff4://issen-test-map''"

definition image_stream_arn_const :: string where
  "image_stream_arn_const = ''aff4://issen-test-image-stream''"

definition zip_base_const :: string where
  "zip_base_const = ''issen-test-stream''"

definition map_zip_base_const :: string where
  "map_zip_base_const = ''issen-test-map''"

definition image_zip_base_const :: string where
  "image_zip_base_const = ''issen-test-image-stream''"

definition line_feed :: string where
  "line_feed = [CHR 0x0A]"

definition turtle_prefixes :: string where
  "turtle_prefixes =
     ''@prefix rdf: <http://www.w3.org/1999/02/22-rdf-syntax-ns#> .'' @ line_feed @
     ''@prefix aff4: <http://aff4.org/Schema#> .'' @ line_feed"

definition image_stream_turtle :: "string \<Rightarrow> nat \<Rightarrow> nat \<Rightarrow> nat \<Rightarrow> string \<Rightarrow> string" where
  "image_stream_turtle arn n cs cps compressor =
     ''<'' @ arn @ ''> rdf:type aff4:ImageStream ; '' @
     ''aff4:size '' @ dec n @ '' ; '' @
     ''aff4:chunkSize '' @ dec cs @ '' ; '' @
     ''aff4:chunksInSegment '' @ dec cps @ '' ; '' @
     ''aff4:compressionMethod '' @ compressor @ '' .'' @ line_feed"

definition padded_chunk :: "bytes \<Rightarrow> bytes" where
  "padded_chunk data =
     take chunk_size_const data @ replicate (chunk_size_const - length data) 0"

definition geometry_entries :: "u64 \<Rightarrow> u64 \<Rightarrow> (string \<times> bytes) list" where
  "geometry_entries chunk_size chunks_per_segment =
     [(''information.turtle'',
       bytes_of_string (turtle_prefixes @
         image_stream_turtle stream_arn_const 512 (unat chunk_size) (unat chunks_per_segment)
           ''aff4:NullCompressor'')),
      (zip_base_const @ ''/00000000'', replicate 512 0),
      (zip_base_const @ ''/00000000.index'', index_entry 0 512)]"

definition single_chunk_entries :: "string \<Rightarrow> bytes \<Rightarrow> (string \<times> bytes) list" where
  "single_chunk_entries compressor stored =
     [(''information.turtle'',
       bytes_of_string (turtle_prefixes @
         image_stream_turtle stream_arn_const chunk_size_const chunk_size_const 1 compressor)),
      (zip_base_const @ ''/00000000'', stored),
      (zip_base_const @ ''/00000000.index'', index_entry 0 (word_of_nat (length stored)))]"

definition map_entries :: "bytes \<Rightarrow> (string \<times> bytes) list" where
  "map_entries data =
     [(''information.turtle'',
       bytes_of_string (turtle_prefixes @
         image_stream_turtle image_stream_arn_const chunk_size_const chunk_size_const 1
           ''aff4:NullCompressor'' @
         ''<'' @ map_arn_const @ ''> rdf:type aff4:Map ; '' @
         ''aff4:size '' @ dec 1024 @ '' ; '' @
         ''aff4:dependentStream <'' @ image_stream_arn_const @ ''> ; '' @
         ''aff4:mapGapDefaultStream aff4:Zero .'' @ line_feed)),
      (image_zip_base_const @ ''/00000000'', padded_chunk data),
      (image_zip_base_const @ ''/00000000.index'',
       index_entry 0 (word_of_nat chunk_size_const)),
      (map_zip_base_const @ ''/map'',
       u64_to_le 512 @ u64_to_le 512 @ u64_to_le 0 @ u32_to_le 0),
      (map_zip_base_const @ ''/idx'', bytes_of_string (image_stream_arn_const @ line_feed))]"

definition encrypted_entries :: "(string \<times> bytes) list" where
  "encrypted_entries =
     [(''information.turtle'',
       bytes_of_string (turtle_prefixes @
         ''<'' @ stream_arn_const @ ''> rdf:type aff4:EncryptedStream ; '' @
         ''aff4:size 4096 ; '' @
         ''aff4:chunkSize '' @ dec chunk_size_const @ '' ; '' @
         ''aff4:chunksInSegment 1 ; '' @
         ''aff4:keyBag <'' @ stream_arn_const @ ''/keybag> ; '' @
         ''aff4:compressionMethod aff4:NullCompressor .'' @ line_feed @
         ''<'' @ stream_arn_const @ ''/keybag> rdf:type aff4:PasswordWrappedKeyBag ; '' @
         ''aff4:keySizeInBytes 32 ; '' @
         ''aff4:salt '' @ [CHR 0x22] @ ''00112233445566778899aabbccddeeff'' @ [CHR 0x22] @ '' ; '' @
         ''aff4:wrappedKey '' @ [CHR 0x22] @ ''deadbeef'' @ [CHR 0x22] @ '' .'' @ line_feed))]"

definition logical_volume :: string where
  "logical_volume = ''aff4://issen-test-logical-volume''"

definition logical_entries :: "string \<Rightarrow> bytes \<Rightarrow> string \<Rightarrow> (string \<times> bytes) list" where
  "logical_entries segment content md5_hex =
     [(''information.turtle'',
       bytes_of_string (turtle_prefixes @
         ''@prefix xsd: <http://www.w3.org/2001/XMLSchema#> .'' @ line_feed @
         ''<'' @ logical_volume @ ''/'' @ segment @
         ''> rdf:type aff4:FileImage , aff4:Image , aff4:zip_segment ; '' @
         ''aff4:originalFileName '' @ [CHR 0x22] @ ''./'' @ segment @ [CHR 0x22] @ ''^^xsd:string ; '' @
         ''aff4:size '' @ dec (length content) @ '' ; '' @
         ''aff4:lastWritten '' @ [CHR 0x22] @ ''2018-09-17T13:42:20+10:00'' @ [CHR 0x22] @
         ''^^xsd:datetime ; '' @
         ''aff4:hash '' @ [CHR 0x22] @ md5_hex @ [CHR 0x22] @ ''^^aff4:MD5 ; '' @
         ''aff4:stored <'' @ logical_volume @ ''> .'' @ line_feed)),
      (segment, content),
      (''version.txt'',
       bytes_of_string (''major=1'' @ line_feed @ ''minor=1'' @ line_feed @ ''tool=issen-test'' @ line_feed))]"

text \<open>The builders: the entries, packed by the ZIP writer.\<close>

type_synonym zip_writer = "(string \<times> bytes) list \<Rightarrow> bytes"

definition test_aff4_with_geometry :: "zip_writer \<Rightarrow> u64 \<Rightarrow> u64 \<Rightarrow> bytes" where
  "test_aff4_with_geometry zip_pack chunk_size chunks_per_segment =
     zip_pack (geometry_entries chunk_size chunks_per_segment)"

definition test_aff4 :: "zip_writer \<Rightarrow> bytes \<Rightarrow> bytes" where
  "test_aff4 zip_pack data =
     zip_pack (single_chunk_entries ''aff4:NullCompressor'' (padded_chunk data))"

definition test_aff4_lz4 :: "zip_writer \<Rightarrow> (bytes \<Rightarrow> bytes) \<Rightarrow> bytes \<Rightarrow> bytes" where
  "test_aff4_lz4 zip_pack lz4_frame data =
     zip_pack (single_chunk_entries ''<https://github.com/lz4/lz4>''
       (lz4_frame (padded_chunk data)))"

definition test_aff4_map :: "zip_writer \<Rightarrow> bytes \<Rightarrow> bytes" where
  "test_aff4_map zip_pack data = zip_pack (map_entries data)"

definition test_aff4_encrypted :: "zip_writer \<Rightarrow> bytes" where
  "test_aff4_encrypted zip_pack = zip_pack encrypted_entries"

definition test_aff4_logical :: "zip_writer \<Rightarrow> string \<Rightarrow> bytes \<Rightarrow> string \<Rightarrow> bytes" where
  "test_aff4_logical zip_pack segment content md5_hex =
     zip_pack (logical_entries segment content md5_hex)"

end
