(* ===== verification/Stream_Interface.thy ===== *)
theory Stream_Interface
  imports Aff4_Error
begin

text \<open>
  The contract of a \<^verbatim>\<open>Read + Seek\<close> source as its clients use it: a read that returns \<open>n\<close>
  has put the next \<open>n\<close> content bytes at the front of the buffer, left the rest of the buffer
  alone and advanced by \<open>n\<close>; a seek from the start sets the position and nothing else. The
  content is a partial function: a position may hold no byte.
\<close>

locale byte_stream =
  fixes rd :: "'s \<Rightarrow> bytes \<Rightarrow> (nat \<times> bytes \<times> 's) io_result"
    and pos_of :: "'s \<Rightarrow> nat"
    and len_of :: "'s \<Rightarrow> nat"
    and byte_of :: "'s \<Rightarrow> nat \<Rightarrow> u8 option"
    and inv :: "'s \<Rightarrow> bool"
  assumes rd_count: "inv s \<Longrightarrow> rd s buf = Inr (n, buf', s') \<Longrightarrow> n \<le> length buf"
    and rd_length: "inv s \<Longrightarrow> rd s buf = Inr (n, buf', s') \<Longrightarrow> length buf' = length buf"
    and rd_bytes: "inv s \<Longrightarrow> rd s buf = Inr (n, buf', s') \<Longrightarrow>
      map Some (take n buf') = map (byte_of s) [pos_of s..<pos_of s + n]"
    and rd_rest: "inv s \<Longrightarrow> rd s buf = Inr (n, buf', s') \<Longrightarrow> drop n buf' = drop n buf"
    and rd_pos: "inv s \<Longrightarrow> rd s buf = Inr (n, buf', s') \<Longrightarrow> pos_of s' = pos_of s + n"
    and rd_inv: "inv s \<Longrightarrow> rd s buf = Inr (n, buf', s') \<Longrightarrow> inv s'"
    and rd_frame: "inv s \<Longrightarrow> rd s buf = Inr (n, buf', s') \<Longrightarrow>
      byte_of s' = byte_of s \<and> len_of s' = len_of s"
    and rd_end: "inv s \<Longrightarrow> rd s buf = Inr (n, buf', s') \<Longrightarrow> 0 < n \<Longrightarrow> pos_of s + n \<le> len_of s"
begin

text \<open>Two reads in a row deliver the content of the two runs joined.\<close>

lemma rd_twice:
  assumes s: "inv s" and r1: "rd s buf1 = Inr (n1, b1, s1)" and r2: "rd s1 buf2 = Inr (n2, b2, s2)"
  shows "map Some (take n1 b1 @ take n2 b2) =
      map (byte_of s) [pos_of s..<pos_of s + (n1 + n2)]"
proof -
  have "map Some (take n2 b2) = map (byte_of s) [pos_of s + n1..<pos_of s + n1 + n2]"
    using rd_bytes [OF rd_inv [OF s r1] r2] rd_frame [OF s r1] rd_pos [OF s r1] by simp
  moreover have "[pos_of s..<pos_of s + (n1 + n2)] =
      [pos_of s..<pos_of s + n1] @ [pos_of s + n1..<pos_of s + n1 + n2]"
    by (metis add.assoc le_add1 upt_add_eq_append)
  ultimately show ?thesis using rd_bytes [OF s r1] by simp
qed

end

locale seekable_stream = byte_stream +
  fixes seek_start :: "'s \<Rightarrow> u64 \<Rightarrow> 's io_result"
  assumes seek_pos: "inv s \<Longrightarrow> seek_start s off = Inr s' \<Longrightarrow> pos_of s' = unat off"
    and seek_inv: "inv s \<Longrightarrow> seek_start s off = Inr s' \<Longrightarrow> inv s'"
    and seek_frame: "inv s \<Longrightarrow> seek_start s off = Inr s' \<Longrightarrow>
      byte_of s' = byte_of s \<and> len_of s' = len_of s"

text \<open>
  A stream that makes progress: where the current position holds a byte, a read returns some; at
  and past the end it returns nothing, without an error.
\<close>

locale readable_stream = seekable_stream +
  assumes rd_progress: "inv s \<Longrightarrow> buf \<noteq> [] \<Longrightarrow> pos_of s < len_of s \<Longrightarrow> byte_of s (pos_of s) \<noteq> None \<Longrightarrow>
      \<exists>n buf' s'. rd s buf = Inr (n, buf', s') \<and> 0 < n"
    and rd_eof: "inv s \<Longrightarrow> len_of s \<le> pos_of s \<Longrightarrow> rd s buf = Inr (0, buf, s)"

end
