(* ===== verification/Virtual_Disk.thy ===== *)
theory Virtual_Disk
  imports Reader Stream_Interface
begin

text \<open>
  The abstract specification of the disk reader, and the proof that \<open>aff4_read\<close> and
  \<open>aff4_seek\<close> implement it. The specification is a byte function: \<open>disk_byte\<close> gives the
  content of one virtual position, through \<open>locate\<close> and, for the image stream, through the
  chunk that holds the position.
\<close>

section \<open>The specification\<close>

definition locate_in :: "aff4_reader \<Rightarrow> nat \<Rightarrow> location" where
  "locate_in r p = (case rd_loaded_map r of None \<Rightarrow> InStream p | Some lm \<Rightarrow> locate lm p)"

definition stream_byte :: "bool \<Rightarrow> codecs \<Rightarrow> aff4_reader \<Rightarrow> nat \<Rightarrow> u8 option" where
  "stream_byte oc cd r q =
     (case read_chunk oc cd r (word_of_nat (q div unat (rd_chunk_size r))) of
        Inl _ \<Rightarrow> None
      | Inr chunk \<Rightarrow> get_at chunk (q mod unat (rd_chunk_size r)))"

fun location_byte :: "bool \<Rightarrow> codecs \<Rightarrow> aff4_reader \<Rightarrow> location \<Rightarrow> u8 option" where
  "location_byte oc cd r (InStream q) = stream_byte oc cd r q"
| "location_byte oc cd r (Constant b) = Some b"
| "location_byte oc cd r (InTile t q) = Some (tile_byte t q)"

definition disk_byte :: "bool \<Rightarrow> codecs \<Rightarrow> aff4_reader \<Rightarrow> nat \<Rightarrow> u8 option" where
  "disk_byte oc cd r p = location_byte oc cd r (locate_in r p)"

section \<open>Invariants of a reader\<close>

text \<open>What opening establishes for every container, and what a well-formed map adds.\<close>

definition reader_wf :: "aff4_reader \<Rightarrow> bool" where
  "reader_wf r \<longleftrightarrow> 0 < rd_chunk_size r \<and> 0 < rd_chunks_per_segment r \<and>
     (case rd_loaded_map r of
        None \<Rightarrow> True
      | Some lm \<Rightarrow>
          sorted (map me_map_offset (lm_entries lm)) \<and>
          list_all (\<lambda>e. 0 < me_length e) (lm_entries lm) \<and>
          (lm_gap_default lm = Fill 0 \<or> lm_gap_default lm = Fill 0xFF))"

definition reader_ok :: "aff4_reader \<Rightarrow> bool" where
  "reader_ok r \<longleftrightarrow> 0 < rd_chunk_size r \<and> 0 < rd_chunks_per_segment r \<and>
     (case rd_loaded_map r of None \<Rightarrow> True | Some lm \<Rightarrow> map_ok lm)"

text \<open>No stored chunk decodes to more than the chunk size.\<close>

definition chunks_bounded :: "bool \<Rightarrow> codecs \<Rightarrow> aff4_reader \<Rightarrow> bool" where
  "chunks_bounded oc cd r \<longleftrightarrow>
     (\<forall>i c. read_chunk oc cd r i = Inr c \<longrightarrow> length c \<le> unat (rd_chunk_size r))"

definition same_image :: "aff4_reader \<Rightarrow> aff4_reader \<Rightarrow> bool" where
  "same_image r r' \<longleftrightarrow> (\<exists>p. r' = r\<lparr>rd_pos := p\<rparr>)"

section \<open>The position is not part of the image\<close>

lemma rd_pos_update_frame:
  "rd_archive (r\<lparr>rd_pos := p\<rparr>) = rd_archive r"
  "rd_zip_base (r\<lparr>rd_pos := p\<rparr>) = rd_zip_base r"
  "rd_chunk_size (r\<lparr>rd_pos := p\<rparr>) = rd_chunk_size r"
  "rd_chunks_per_segment (r\<lparr>rd_pos := p\<rparr>) = rd_chunks_per_segment r"
  "rd_compression (r\<lparr>rd_pos := p\<rparr>) = rd_compression r"
  by simp_all

lemma read_chunk_pos [simp]: "read_chunk oc cd (r\<lparr>rd_pos := p\<rparr>) = read_chunk oc cd r"
  by (rule ext) (simp only: read_chunk_eq, unfold rd_pos_update_frame, rule refl)

lemma locate_in_pos [simp]: "locate_in (r\<lparr>rd_pos := p\<rparr>) = locate_in r"
  by (simp add: locate_in_def fun_eq_iff)

lemma stream_byte_pos [simp]: "stream_byte oc cd (r\<lparr>rd_pos := p\<rparr>) = stream_byte oc cd r"
  by (simp add: stream_byte_def fun_eq_iff cong: sum.case_cong)

lemma location_byte_pos [simp]: "location_byte oc cd (r\<lparr>rd_pos := p\<rparr>) l = location_byte oc cd r l"
  by (cases l) simp_all

lemma disk_byte_pos [simp]: "disk_byte oc cd (r\<lparr>rd_pos := p\<rparr>) = disk_byte oc cd r"
  by (simp add: disk_byte_def fun_eq_iff)

lemma reader_ok_pos [simp]: "reader_ok (r\<lparr>rd_pos := p\<rparr>) = reader_ok r"
  by (simp add: reader_ok_def)

lemma reader_wf_pos [simp]: "reader_wf (r\<lparr>rd_pos := p\<rparr>) = reader_wf r"
  by (simp add: reader_wf_def)

lemma chunks_bounded_pos [simp]: "chunks_bounded oc cd (r\<lparr>rd_pos := p\<rparr>) = chunks_bounded oc cd r"
  by (simp add: chunks_bounded_def)

section \<open>The reader's address space\<close>

definition reader_lookup ::
    "bool \<Rightarrow> aff4_reader \<Rightarrow> u64 \<Rightarrow> u64 \<Rightarrow> resolved_region io_result" where
  "reader_lookup oc r p vs =
     (case rd_loaded_map r of
        Some lm \<Rightarrow> resolve oc lm p vs
      | None \<Rightarrow> Inr \<lparr>rr_kind = ImageStream, rr_target_offset = p, rr_bytes = 0xFFFFFFFFFFFFFFFF\<rparr>)"

lemma region_at_lookup: "region_at oc r = reader_lookup oc r (rd_pos r) (rd_virtual_size r)"
  by (simp add: region_at_def reader_lookup_def)

interpretation disk_addr: address_map "reader_lookup oc" locate_in reader_ok for oc
proof unfold_locales
  fix r :: aff4_reader and p vs :: u64
  assume ok: "reader_ok r" and lt: "unat p < unat vs"
  show "\<exists>x. reader_lookup oc r p vs = Inr x"
    using ok amap.lookup_total [OF _ lt, of _ oc]
    by (auto simp: reader_lookup_def reader_ok_def split: option.splits)
  fix x assume x: "reader_lookup oc r p vs = Inr x"
  show "0 < unat (rr_bytes x)"
    using ok x amap.lookup_nonempty [OF _ lt, of _ oc x]
    by (auto simp: reader_lookup_def reader_ok_def split: option.splits)
  fix i assume i: "i < unat (rr_bytes x)" and e: "unat p + i < unat vs"
  have "unat vs < 2 ^ 64" using unat_bound [of vs] by simp
  with e have fits: "unat p + i < 2 ^ 64" by linarith
  show "locate_in r (unat p + i) = loc_of (rr_kind x) (unat (rr_target_offset x) + i) \<and>
      unat (rr_target_offset x) + i < 2 ^ 64"
  proof (cases "rd_loaded_map r")
    case None
    with x fits show ?thesis by (auto simp: reader_lookup_def locate_in_def)
  next
    case (Some lm)
    then have "map_ok lm" "resolve oc lm p vs = (Inr x :: resolved_region io_result)"
      using ok x by (simp_all add: reader_ok_def reader_lookup_def)
    from amap.lookup_at [OF this(1) lt this(2) i e] Some show ?thesis
      by (simp add: locate_in_def)
  qed
qed

section \<open>Read implements the specification\<close>

lemma rd_pos_update_same: "r\<lparr>rd_pos := rd_pos r\<rparr> = (r :: aff4_reader)"
  by (cases r) simp

lemma advance_eq:
  assumes "unat (rd_pos r) + length data \<le> unat (rd_virtual_size r)"
  shows "advance oc r buf data = Inr (length data, data @ drop (length data) buf,
      r\<lparr>rd_pos := rd_pos r + word_of_nat (length data)\<rparr>)"
    and "unat (rd_pos r + word_of_nat (length data)) = unat (rd_pos r) + length data"
proof -
  have "unat (rd_virtual_size r) < 2 ^ 64" using unat_bound [of "rd_virtual_size r"] by simp
  then have fits: "unat (rd_pos r) + length data < 2 ^ 64" using assms by linarith
  then have u: "unat (word_of_nat (length data) :: u64) = length data" by simp
  with fits show "advance oc r buf data = Inr (length data, data @ drop (length data) buf,
      r\<lparr>rd_pos := rd_pos r + word_of_nat (length data)\<rparr>)"
    by (simp add: advance_def)
  from u fits show "unat (rd_pos r + word_of_nat (length data)) = unat (rd_pos r) + length data"
    by (subst unat_add_small) simp_all
qed

lemma tile_bytes_eq:
  assumes "\<And>i. i < n \<Longrightarrow> unat t0 + i < 2 ^ 64"
  shows "tile_bytes oc t t0 n = Inr (map (\<lambda>i. tile_byte t (unat t0 + i)) [0..<n])"
  unfolding tile_bytes_def
proof (rule traverse_total)
  fix i assume "i \<in> set [0..<n]"
  then have fits: "unat t0 + i < 2 ^ 64" using assms by simp
  then have u: "unat (word_of_nat i :: u64) = i" by simp
  with fits show "and_then (plain_add oc t0 (word_of_nat i)) (tile_byte_at t) =
      Inr (tile_byte t (unat t0 + i))"
    by (simp add: tile_byte_at_eq unat_add_small)
qed

text \<open>A piece of one chunk is the content of the stream positions it covers.\<close>

lemma stream_piece:
  assumes chunk: "read_chunk oc cd r (t0 div rd_chunk_size r) = Inr chunk"
    and cs: "0 < rd_chunk_size r" and len: "length chunk \<le> unat (rd_chunk_size r)"
    and n: "unat (t0 mod rd_chunk_size r) + n \<le> length chunk" and i: "i < n"
  shows "stream_byte oc cd r (unat t0 + i) =
    Some (subrange chunk (unat (t0 mod rd_chunk_size r)) (unat (t0 mod rd_chunk_size r) + n) ! i)"
proof -
  let ?c = "unat (rd_chunk_size r)" and ?off = "unat (t0 mod rd_chunk_size r)"
  have c: "0 < ?c" using cs by (simp add: word_less_nat_alt)
  have off: "?off = unat t0 mod ?c" by (simp add: unat_mod)
  have lt: "unat t0 mod ?c + i < ?c" using n i len off by simp
  have e: "unat t0 + i = (unat t0 div ?c) * ?c + (unat t0 mod ?c + i)" by simp
  have d: "(unat t0 + i) div ?c = unat t0 div ?c"
    by (subst e, subst div_mult_self3) (use c lt in simp_all)
  have m: "(unat t0 + i) mod ?c = ?off + i"
    by (subst e, subst mod_mult_self3) (use lt off in simp)
  have idx: "word_of_nat ((unat t0 + i) div ?c) = t0 div rd_chunk_size r"
    by (simp add: d unat_div [symmetric])
  show ?thesis
    using chunk n i by (simp add: stream_byte_def idx m get_at_def nth_subrange)
qed

lemma map_Some_eqI:
  assumes "length data = n" and "\<And>i. i < n \<Longrightarrow> f (a + i) = Some (data ! i)"
  shows "map Some data = map f [a..<a + n]"
  using assms by (intro nth_equalityI) auto

lemma aff4_read_data:
  assumes ok: "reader_ok r" and bounded: "chunks_bounded oc cd r"
    and res: "aff4_read oc cd r buf = Inr (n, buf', r')"
  obtains data where "length data = n" and "n \<le> length buf"
    and "0 < n \<Longrightarrow> unat (rd_pos r) + n \<le> unat (rd_virtual_size r)"
    and "buf' = data @ drop n buf"
    and "r' = r\<lparr>rd_pos := rd_pos r + word_of_nat n\<rparr>"
    and "unat (rd_pos r') = unat (rd_pos r) + n"
    and "map Some data = map (disk_byte oc cd r) [unat (rd_pos r)..<unat (rd_pos r) + n]"
proof (cases "buf = [] \<or> rd_virtual_size r \<le> rd_pos r")
  case True
  with res have "n = 0" "buf' = buf" "r' = r" by (auto simp: aff4_read_eq)
  then show thesis by (intro that [of "[]"]) (simp_all add: rd_pos_update_same)
next
  case False
  note result = that
  from False have nonempty: "buf \<noteq> []" "\<not> rd_virtual_size r \<le> rd_pos r" by auto
  from False have lt: "unat (rd_pos r) < unat (rd_virtual_size r)"
    by (simp add: word_le_nat_alt)
  obtain g where g: "region_at oc r = Inr g"
    using disk_addr.lookup_total [OF ok lt, of oc] by (auto simp: region_at_lookup)
  note look = g [unfolded region_at_lookup]
  define m where "m = min (min (length buf) (unat (rd_virtual_size r) - unat (rd_pos r)))
    (unat (rr_bytes g))"
  have rem: "unat (rd_virtual_size r - rd_pos r) = unat (rd_virtual_size r) - unat (rd_pos r)"
    using lt by (simp add: unat_sub word_le_nat_alt)
  have mb: "m \<le> length buf" "unat (rd_pos r) + m \<le> unat (rd_virtual_size r)" "m \<le> unat (rr_bytes g)"
    using lt by (auto simp: m_def)
  have at: "disk_byte oc cd r (unat (rd_pos r) + i) =
      location_byte oc cd r (loc_of (rr_kind g) (unat (rr_target_offset g) + i))" if "i < m" for i
    using disk_addr.lookup_at [OF ok lt look, of i] that mb by (simp add: disk_byte_def)
  have fits: "unat (rr_target_offset g) + i < 2 ^ 64" if "i < m" for i
    using disk_addr.lookup_at [OF ok lt look, of i] that mb by simp
  have finish: thesis if len: "length data \<le> m"
    and d: "advance oc r buf data = Inr (n, buf', r')"
    and c: "\<And>i. i < length data \<Longrightarrow> disk_byte oc cd r (unat (rd_pos r) + i) = Some (data ! i)"
    for data
  proof -
    have le: "unat (rd_pos r) + length data \<le> unat (rd_virtual_size r)" using len mb by simp
    from d advance_eq [OF le] have n: "n = length data"
      and b: "buf' = data @ drop (length data) buf"
      and r: "r' = r\<lparr>rd_pos := rd_pos r + word_of_nat (length data)\<rparr>"
      by auto
    show thesis
    proof (rule result [of data])
      show "map Some data = map (disk_byte oc cd r) [unat (rd_pos r)..<unat (rd_pos r) + n]"
        by (rule map_Some_eqI) (simp_all add: n c)
    qed (use n b r le len mb advance_eq(2) [OF le] in auto)
  qed
  have unf: "aff4_read oc cd r buf =
     (case rr_kind g of
        Unknown \<Rightarrow> advance oc r buf (replicate m 0)
      | Fill byte \<Rightarrow> advance oc r buf (replicate m byte)
      | Tile t \<Rightarrow> and_then (tile_bytes oc t (rr_target_offset g) m) (advance oc r buf)
      | ImageStream \<Rightarrow>
          and_then (map_err (\<lambda>e. io_other (aff4_error_display e))
              (read_chunk oc cd r (rr_target_offset g div rd_chunk_size r)))
            (\<lambda>chunk.
               let off = unat (rr_target_offset g mod rd_chunk_size r);
                   k = min (min (length buf) (unat (rd_virtual_size r) - unat (rd_pos r)))
                         (min (length chunk - off) (unat (rr_bytes g))) in
               if k = 0 then Inr (0, buf, r)
               else advance oc r buf (subrange chunk off (off + k))))"
    using nonempty ok
    by (cases "rr_kind g") (simp_all add: aff4_read_eq g rem m_def Let_def reader_ok_def word_gt_0
        cong: if_cong)
  show thesis
  proof (cases "rr_kind g")
    case Unknown
    then show thesis using res by (intro finish [of "replicate m 0"]) (auto simp: unf at)
  next
    case (Fill b)
    then show thesis using res by (intro finish [of "replicate m b"]) (auto simp: unf at)
  next
    case (Tile t)
    with res fits show thesis
      by (intro finish [of "map (\<lambda>i. tile_byte t (unat (rr_target_offset g) + i)) [0..<m]"])
        (auto simp: unf at tile_bytes_eq)
  next
    case ImageStream
    let ?off = "unat (rr_target_offset g mod rd_chunk_size r)"
    from res ImageStream obtain chunk where
      chunk: "read_chunk oc cd r (rr_target_offset g div rd_chunk_size r) = Inr chunk"
      by (auto simp: unf)
    define k where "k = min (min (length buf) (unat (rd_virtual_size r) - unat (rd_pos r)))
      (min (length chunk - ?off) (unat (rr_bytes g)))"
    have km: "k \<le> m" "k \<le> length chunk - ?off" by (auto simp: k_def m_def)
    show thesis
    proof (cases "k = 0")
      case True
      with res ImageStream chunk have "n = 0" "buf' = buf" "r' = r"
        by (simp_all add: unf k_def [symmetric])
      then show thesis by (intro that [of "[]"]) (simp_all add: rd_pos_update_same)
    next
      case False
      then have in_chunk: "?off + k \<le> length chunk" using km by simp
      show thesis
      proof (rule finish [of "subrange chunk ?off (?off + k)"])
        show "advance oc r buf (subrange chunk ?off (?off + k)) = Inr (n, buf', r')"
          using res ImageStream chunk False by (simp add: unf Let_def k_def [symmetric])
        fix i assume "i < length (subrange chunk ?off (?off + k))"
        then have i: "i < k" by simp
        have "length chunk \<le> unat (rd_chunk_size r)" "0 < rd_chunk_size r"
          using bounded chunk ok by (auto simp: chunks_bounded_def reader_ok_def)
        from stream_piece [OF chunk this(2,1) in_chunk i] show
          "disk_byte oc cd r (unat (rd_pos r) + i) = Some (subrange chunk ?off (?off + k) ! i)"
          using at [of i] i km ImageStream by simp
      qed (use km in_chunk in auto)
    qed
  qed
qed

section \<open>Seek\<close>

text \<open>The position a seek asks for, as an integer.\<close>

fun seek_request :: "aff4_reader \<Rightarrow> seek_from \<Rightarrow> int" where
  "seek_request r (Start n) = uint n"
| "seek_request r (End n) = uint (rd_virtual_size r) + sint n"
| "seek_request r (Current n) = uint (rd_pos r) + sint n"

definition seek_error :: io_error where
  "seek_error = \<lparr>io_kind = InvalidInput, io_message = ''seek before start of stream''\<rparr>"

definition seek_to :: "bool \<Rightarrow> aff4_reader \<Rightarrow> u64 \<Rightarrow> aff4_reader io_result" where
  "seek_to oc r off = and_then (aff4_seek oc r (Start off)) (\<lambda>(_, r'). Inr r')"

lemma aff4_seek_Inr:
  assumes "aff4_seek oc r whence = Inr (p, r')"
  shows "r' = r\<lparr>rd_pos := p\<rparr>" and "unat p < 2 ^ 63"
proof -
  from assms show "r' = r\<lparr>rd_pos := p\<rparr>"
    by (auto simp: aff4_seek_def split: if_splits)
  from assms have "\<not> sint p < 0" by (auto simp: aff4_seek_def split: if_splits)
  then have "uint p < 2 ^ 63"
    using sint_u64_big [of p] uint_lt2p [of p] by (cases "uint p < 2 ^ 63") auto
  then show "unat p < 2 ^ 63" by (simp only: uint_less_half)
qed

lemma aff4_seek_start:
  "aff4_seek oc r (Start n) =
     (if unat n < 2 ^ 63 then Inr (n, r\<lparr>rd_pos := n\<rparr>) else Inl (Err seek_error))"
proof (cases "unat n < 2 ^ 63")
  case True
  then have "uint n < 2 ^ 63" by (simp only: uint_less_half)
  then have "\<not> sint n < 0" by (simp add: sint_u64_small)
  with True show ?thesis by (simp add: aff4_seek_def)
next
  case False
  then have "2 ^ 63 \<le> uint n" by (simp only: uint_less_half [symmetric] not_less)
  then have "sint n < 0" using uint_lt2p [of n] by (simp add: sint_u64_big)
  with False show ?thesis by (simp add: aff4_seek_def seek_error_def)
qed

lemma plain_add_i64_cases:
  assumes a: "uint a < 2 ^ 63"
  shows "plain_add_i64 oc a b =
    (if oc \<and> 2 ^ 63 \<le> uint a + sint b then Inl (Panic ArithmeticOverflow) else Inr (a + b))"
    and "sint (a + b) =
      (if 2 ^ 63 \<le> uint a + sint b then uint a + sint b - 2 ^ 64 else uint a + sint b)"
proof -
  have sa: "sint a = uint a" using a by (rule sint_u64_small)
  have lo: "- (2 ^ 63) \<le> sint b" and hi: "sint b < 2 ^ 63"
    using sint_greater_eq [of b] sint_less [of b] by simp_all
  have nn: "0 \<le> uint a" by simp
  show "plain_add_i64 oc a b =
    (if oc \<and> 2 ^ 63 \<le> uint a + sint b then Inl (Panic ArithmeticOverflow) else Inr (a + b))"
  proof -
    have "\<not> uint a + sint b < - (2 ^ 63)" using lo nn by linarith
    then show ?thesis by (simp add: plain_add_i64_def sa)
  qed
  have sum: "a + b = word_of_int (uint a + sint b)" by simp
  show "sint (a + b) =
      (if 2 ^ 63 \<le> uint a + sint b then uint a + sint b - 2 ^ 64 else uint a + sint b)"
  proof (cases "2 ^ 63 \<le> uint a + sint b")
    case True
    moreover have "uint a + sint b < 2 ^ 64 + 2 ^ 63" using a hi by simp
    ultimately show ?thesis unfolding sum by (simp only: sint_of_int_over if_True)
  next
    case False
    have "- (2 ^ 63) \<le> uint a + sint b" using nn lo by linarith
    with False have "sint (word_of_int (uint a + sint b) :: u64) = uint a + sint b"
      by (intro sint_of_int_small) (simp_all only: not_le)
    with False show ?thesis unfolding sum by (simp only: if_False)
  qed
qed

text \<open>
  A seek inside an address space below $2^{63}$: the requested position is taken when it lies in
  $[0, 2^{63})$ and refused when it is negative. Beyond $2^{63}$ a relative seek overflows the
  signed addition, which panics in a checked build and is refused otherwise.
\<close>

lemma aff4_seek_eq:
  assumes vs: "unat (rd_virtual_size r) < 2 ^ 63" and pos: "unat (rd_pos r) < 2 ^ 63"
  shows "aff4_seek oc r whence =
    (let t = seek_request r whence in
     if t < 0 then Inl (Err seek_error)
     else if t < 2 ^ 63 then Inr (word_of_int t, r\<lparr>rd_pos := word_of_int t\<rparr>)
     else if oc \<and> (\<forall>n. whence \<noteq> Start n) then Inl (Panic ArithmeticOverflow)
     else Inl (Err seek_error))"
proof -
  have relative: "and_then (plain_add_i64 oc a n) (\<lambda>new_pos.
       if sint new_pos < 0
       then Inl (Err \<lparr>io_kind = InvalidInput, io_message = ''seek before start of stream''\<rparr>)
       else Inr (new_pos, r\<lparr>rd_pos := new_pos\<rparr>)) =
    (let t = uint a + sint n in
     if t < 0 then Inl (Err seek_error)
     else if t < 2 ^ 63 then Inr (word_of_int t, r\<lparr>rd_pos := word_of_int t\<rparr>)
     else if oc then Inl (Panic ArithmeticOverflow)
     else Inl (Err seek_error))" if a: "uint a < 2 ^ 63" for a n
  proof (cases "2 ^ 63 \<le> uint a + sint n")
    case True
    have "sint n < 2 ^ 63" using sint_less [of n] by simp
    then have "uint a + sint n - 2 ^ 64 < 0" using a by simp
    with True show ?thesis
      by (simp add: plain_add_i64_cases [OF a] Let_def seek_error_def)
  next
    case False
    then show ?thesis
      by (simp add: plain_add_i64_cases [OF a] Let_def seek_error_def)
  qed
  show ?thesis
  proof (cases whence)
    case (Start n)
    with uint_less_half [of n] show ?thesis
      by (simp add: aff4_seek_start Let_def)
  next
    case (End n)
    from vs have "uint (rd_virtual_size r) < 2 ^ 63" by (simp only: uint_less_half)
    from relative [OF this, of n] End show ?thesis by (simp add: aff4_seek_def)
  next
    case (Current n)
    from pos have "uint (rd_pos r) < 2 ^ 63" by (simp only: uint_less_half)
    from relative [OF this, of n] Current show ?thesis by (simp add: aff4_seek_def)
  qed
qed

section \<open>The reader is a seekable stream\<close>

interpretation disk: seekable_stream
  "aff4_read oc cd" "\<lambda>r. unat (rd_pos r)" "\<lambda>r. unat (rd_virtual_size r)" "disk_byte oc cd"
  "\<lambda>r. reader_ok r \<and> chunks_bounded oc cd r" "seek_to oc" for oc cd
proof unfold_locales
  fix r r' :: aff4_reader and buf buf' n
  assume inv: "reader_ok r \<and> chunks_bounded oc cd r"
    and res: "aff4_read oc cd r buf = Inr (n, buf', r')"
  from aff4_read_data [OF _ _ res] inv obtain data where
    d: "length data = n" "n \<le> length buf" "buf' = data @ drop n buf"
    and e: "0 < n \<Longrightarrow> unat (rd_pos r) + n \<le> unat (rd_virtual_size r)"
    and r': "r' = r\<lparr>rd_pos := rd_pos r + word_of_nat n\<rparr>"
    and p: "unat (rd_pos r') = unat (rd_pos r) + n"
    and b: "map Some data = map (disk_byte oc cd r) [unat (rd_pos r)..<unat (rd_pos r) + n]"
    by metis
  show "n \<le> length buf" by (rule d)
  show "length buf' = length buf" using d by simp
  show "map Some (take n buf') = map (disk_byte oc cd r) [unat (rd_pos r)..<unat (rd_pos r) + n]"
    using d b by simp
  show "drop n buf' = drop n buf" using d by simp
  show "unat (rd_pos r') = unat (rd_pos r) + n" by (rule p)
  show "reader_ok r' \<and> chunks_bounded oc cd r'" using inv by (simp add: r')
  show "disk_byte oc cd r' = disk_byte oc cd r \<and>
      unat (rd_virtual_size r') = unat (rd_virtual_size r)"
    by (simp add: r')
  show "unat (rd_pos r) + n \<le> unat (rd_virtual_size r)" if "0 < n" by (rule e [OF that])
next
  fix r r' :: aff4_reader and off
  assume inv: "reader_ok r \<and> chunks_bounded oc cd r" and res: "seek_to oc r off = Inr r'"
  from res have r': "r' = r\<lparr>rd_pos := off\<rparr>"
    by (auto simp: seek_to_def aff4_seek_start split: if_splits)
  then show "unat (rd_pos r') = unat off" by simp
  show "reader_ok r' \<and> chunks_bounded oc cd r'" using inv by (simp add: r')
  show "disk_byte oc cd r' = disk_byte oc cd r \<and>
      unat (rd_virtual_size r') = unat (rd_virtual_size r)"
    by (simp add: r')
qed

section \<open>Progress\<close>

text \<open>Where the virtual disk has a byte, a read with room in the buffer returns at least one.\<close>

lemma aff4_read_progress:
  assumes ok: "reader_ok r" and buf: "buf \<noteq> []"
    and lt: "unat (rd_pos r) < unat (rd_virtual_size r)"
    and byte: "disk_byte oc cd r (unat (rd_pos r)) \<noteq> None"
  shows "\<exists>n buf' r'. aff4_read oc cd r buf = Inr (n, buf', r') \<and> 0 < n"
proof -
  obtain g where g: "region_at oc r = Inr g"
    using disk_addr.lookup_total [OF ok lt, of oc] by (auto simp: region_at_lookup)
  note look = g [unfolded region_at_lookup]
  have rb: "0 < unat (rr_bytes g)" by (rule disk_addr.lookup_nonempty [OF ok lt look])
  have loc: "locate_in r (unat (rd_pos r)) = loc_of (rr_kind g) (unat (rr_target_offset g))"
    using disk_addr.lookup_at [OF ok lt look, of 0] rb lt by simp
  have rem: "unat (rd_virtual_size r - rd_pos r) = unat (rd_virtual_size r) - unat (rd_pos r)"
    using lt by (simp add: unat_sub word_le_nat_alt)
  have cs: "rd_chunk_size r \<noteq> 0" using ok by (auto simp: reader_ok_def)
  have start: "\<not> (buf = [] \<or> rd_virtual_size r \<le> rd_pos r)"
    using buf lt by (simp add: word_le_nat_alt)
  define k where "k = min (length buf) (unat (rd_virtual_size r) - unat (rd_pos r))"
  have k: "0 < k" "unat (rd_pos r) + k \<le> unat (rd_virtual_size r)"
    using buf lt by (auto simp: k_def)
  define m where "m = min k (unat (rr_bytes g))"
  have m: "0 < m" "unat (rd_pos r) + m \<le> unat (rd_virtual_size r)" using k rb by (auto simp: m_def)
  have advance: "\<exists>n buf' r'. advance oc r buf data = Inr (n, buf', r') \<and> 0 < n"
    if "length data = j" "0 < j" "unat (rd_pos r) + j \<le> unat (rd_virtual_size r)" for data j
    using advance_eq(1) [of r data oc buf] that by auto
  show ?thesis
  proof (cases "rr_kind g")
    case Unknown
    then show ?thesis using start g m advance [of "replicate m 0" m]
      by (simp add: aff4_read_eq rem Let_def k_def [symmetric] m_def [symmetric])
  next
    case (Fill b)
    then show ?thesis using start g m advance [of "replicate m b" m]
      by (simp add: aff4_read_eq rem Let_def k_def [symmetric] m_def [symmetric])
  next
    case (Tile t)
    have "tile_bytes oc t (rr_target_offset g) m =
        Inr (map (\<lambda>i. tile_byte t (unat (rr_target_offset g) + i)) [0..<m])"
      by (rule tile_bytes_eq)
        (use disk_addr.lookup_at [OF ok lt look] m in \<open>auto simp: m_def\<close>)
    moreover have "length (map (\<lambda>i. tile_byte t (unat (rr_target_offset g) + i)) [0..<m]) = m"
      by simp
    ultimately show ?thesis using Tile start g m(1) advance [OF _ m]
      by (simp add: aff4_read_eq rem Let_def k_def [symmetric] m_def [symmetric])
  next
    case ImageStream
    let ?t = "rr_target_offset g"
    from byte loc ImageStream have "stream_byte oc cd r (unat ?t) \<noteq> None"
      by (simp add: disk_byte_def)
    then obtain chunk where chunk: "read_chunk oc cd r (?t div rd_chunk_size r) = Inr chunk"
      and off: "unat (?t mod rd_chunk_size r) < length chunk"
      by (auto simp: stream_byte_def unat_div [symmetric] unat_mod get_at_def
          split: sum.splits if_splits)
    define n where "n = min k (min (length chunk - unat (?t mod rd_chunk_size r)) (unat (rr_bytes g)))"
    have n: "0 < n" "unat (rd_pos r) + n \<le> unat (rd_virtual_size r)"
      "n \<le> length chunk - unat (?t mod rd_chunk_size r)"
      using k rb off by (auto simp: n_def)
    have "aff4_read oc cd r buf =
        advance oc r buf (subrange chunk (unat (?t mod rd_chunk_size r))
          (unat (?t mod rd_chunk_size r) + n))"
      using ImageStream start g chunk cs n(1)
      by (simp add: aff4_read_eq rem Let_def k_def [symmetric] n_def [symmetric])
    moreover have "length (subrange chunk (unat (?t mod rd_chunk_size r))
        (unat (?t mod rd_chunk_size r) + n)) = n"
      using n(3) by simp
    ultimately show ?thesis using advance [OF _ n(1,2)] by metis
  qed
qed

interpretation disk: readable_stream
  "aff4_read oc cd" "\<lambda>r. unat (rd_pos r)" "\<lambda>r. unat (rd_virtual_size r)" "disk_byte oc cd"
  "\<lambda>r. reader_ok r \<and> chunks_bounded oc cd r" "seek_to oc" for oc cd
  by unfold_locales (rule aff4_read_progress, auto simp: aff4_read_eq word_le_nat_alt)

end
