(* ===== verification/Meta_Facts.thy ===== *)
theory Meta_Facts
  imports Meta
begin

text \<open>
  Lemmas about the metadata parser: where a marker text can lie among the blocks, what every
  successful parse guarantees, the index loops of \<open>parse_image_hashes\<close> against a reference that
  reads the tokens as a list, the hexadecimal and hash-term round trips, and the absence of
  panics.
\<close>

section \<open>Blocks\<close>

text \<open>A marker that shares no character with the separator survives in one of the pieces.\<close>

lemma contains_iff_nth:
  "contains s w \<longleftrightarrow> (\<exists>i. i + length w \<le> length s \<and> (\<forall>j < length w. s ! (i + j) = w ! j))"
proof
  assume "contains s w"
  then obtain u v where "s = u @ w @ v" by (auto simp: contains_iff)
  then show "\<exists>i. i + length w \<le> length s \<and> (\<forall>j < length w. s ! (i + j) = w ! j)"
    by (intro exI [of _ "length u"]) (auto simp: nth_append)
next
  assume "\<exists>i. i + length w \<le> length s \<and> (\<forall>j < length w. s ! (i + j) = w ! j)"
  then obtain i where i: "i + length w \<le> length s" "\<And>j. j < length w \<Longrightarrow> s ! (i + j) = w ! j"
    by blast
  then have "take (length w) (drop i s) = w" by (intro nth_equalityI) auto
  then have "s = take i s @ w @ drop (length w) (drop i s)"
    by (metis append_take_drop_id)
  then show "contains s w" unfolding contains_iff by blast
qed

lemma contains_across:
  assumes c: "contains (a @ p @ b) w" and disj: "set w \<inter> set p = {}" and ne: "w \<noteq> []" "p \<noteq> []"
  shows "contains a w \<or> contains b w"
proof -
  let ?s = "a @ p @ b"
  obtain i where i: "i + length w \<le> length ?s" "\<And>j. j < length w \<Longrightarrow> ?s ! (i + j) = w ! j"
    using c by (auto simp: contains_iff_nth)
  consider "i + length w \<le> length a" | "length a + length p \<le> i"
    | "length a < i + length w" "i < length a + length p"
    by linarith
  then show ?thesis
  proof cases
    case 1
    have "a ! (i + j) = w ! j" if "j < length w" for j
      using i(2) [OF that] 1 that by (simp add: nth_append)
    then show ?thesis using 1 by (auto simp: contains_iff_nth)
  next
    case 2
    have "b ! (i - (length a + length p) + j) = w ! j" if "j < length w" for j
    proof -
      have k: "i - (length a + length p) + j = i + j - length a - length p"
        and "\<not> i + j < length a" "\<not> i + j - length a < length p"
        using 2 by linarith+
      then have "?s ! (i + j) = b ! (i + j - length a - length p)" by (simp add: nth_append)
      with i(2) [OF that] show ?thesis by (simp only: k)
    qed
    moreover have "i - (length a + length p) + length w \<le> length b" using i(1) 2 by simp
    ultimately show ?thesis unfolding contains_iff_nth by blast
  next
    case 3
    define j where "j = max i (length a)"
    have j: "j - i < length w" "length a \<le> j" "j < length a + length p" "i \<le> j"
      using 3 ne by (auto simp: j_def max_def)
    have "?s ! j = w ! (j - i)" using i(2) [of "j - i"] j by simp
    moreover have jl: "j - length a < length p" "\<not> j < length a" using j by linarith+
    then have "?s ! j = p ! (j - length a)" by (simp add: nth_append)
    ultimately have "w ! (j - i) \<in> set w \<inter> set p"
      using jl(1) j(1) by (metis IntI nth_mem)
    with disj show ?thesis by blast
  qed
qed

lemma contains_join:
  "set w \<inter> set p = {} \<Longrightarrow> w \<noteq> [] \<Longrightarrow> p \<noteq> [] \<Longrightarrow> contains (join_with p xs) w \<Longrightarrow>
   \<exists>x \<in> set xs. contains x w"
proof (induction p xs rule: join_with.induct)
  case (1 p)
  then show ?case by (auto simp: contains_iff)
next
  case (2 p x)
  then show ?case by simp
next
  case (3 p x y ys)
  have "contains (x @ p @ join_with p (y # ys)) w" using "3.prems"(4) by simp
  then have "contains x w \<or> contains (join_with p (y # ys)) w"
    using "3.prems"(1-3) by (rule contains_across)
  with "3.IH" "3.prems"(1-3) show ?case by auto
qed

lemma split_piece_within: "x \<in> set (split_str s p) \<Longrightarrow> \<exists>u v. s = u @ x @ v"
proof (induction s p rule: split_str.induct)
  case (1 s p)
  show ?case
  proof (cases "find_str s p")
    case None
    with "1.prems" have "s = [] @ x @ []" by (simp add: split_str.simps [of s p])
    then show ?thesis by blast
  next
    case (Some i)
    show ?thesis
    proof (cases "p = [] \<or> x = take i s")
      case True
      then have "x = s \<or> x = take i s"
        using "1.prems" Some by (auto simp: split_str.simps [of s "[]"])
      then have "s = [] @ x @ [] \<or> s = [] @ x @ drop i s" by auto
      then show ?thesis by blast
    next
      case False
      then have "x \<in> set (split_str (drop (i + length p) s) p)"
        using "1.prems" Some by (simp add: split_str.simps [of s p])
      with False Some "1.IH" obtain u v where "drop (i + length p) s = u @ x @ v" by blast
      then have "s = (take (i + length p) s @ u) @ x @ v"
        by (metis append.assoc append_take_drop_id)
      then show ?thesis by blast
    qed
  qed
qed

text \<open>
  A marker made of characters the normalisation keeps, none of them a blank or a full stop, is in
  a block of the turtle exactly when it is in the turtle.
\<close>

definition marker :: "string \<Rightarrow> bool" where
  "marker w \<longleftrightarrow> w \<noteq> [] \<and> set w \<inter> set '' .;'' = {} \<and> set w \<inter> {CHR 0x0A, CHR 0x0D, CHR 0x09} = {}"

lemma marker_in_normalized:
  assumes "marker w"
  shows "contains (normalize_turtle t) w \<longleftrightarrow> contains t w"
proof -
  have "(normalize_turtle t ! k = c) = (t ! k = c)" if "k < length t" "c \<in> set w" for k c
    using that assms by (auto simp: normalize_turtle_def marker_def)
  then show ?thesis
    unfolding contains_iff_nth
    by (intro ex_cong1 conj_cong all_cong1) (auto simp: normalize_turtle_def)
qed

lemma marker_in_block:
  assumes w: "marker w"
  shows "(\<exists>b \<in> set (turtle_blocks t). contains b w) \<longleftrightarrow> contains t w"
proof
  assume "contains t w"
  then have "contains (join_with '' . '' (split_str (normalize_turtle t) '' . '')) w"
    using marker_in_normalized [OF w] by (simp add: join_with_split_str)
  moreover have "set w \<inter> set '' . '' = {}" "w \<noteq> []" using w by (auto simp: marker_def)
  ultimately show "\<exists>b \<in> set (turtle_blocks t). contains b w"
    unfolding turtle_blocks_def by (intro contains_join) auto
next
  assume "\<exists>b \<in> set (turtle_blocks t). contains b w"
  then obtain b where b: "b \<in> set (turtle_blocks t)" "contains b w" by blast
  then obtain u v where "normalize_turtle t = u @ b @ v"
    unfolding turtle_blocks_def using split_piece_within by metis
  with b(2) have "contains (normalize_turtle t) w"
    by (simp add: contains_appendI1 contains_appendI2)
  then show "contains t w" using marker_in_normalized [OF w] by simp
qed

lemma find_None_iff_contains:
  "marker w \<Longrightarrow> find (\<lambda>b. contains b w) (turtle_blocks t) = None \<longleftrightarrow> \<not> contains t w"
  using marker_in_block [of w t] by (auto simp: find_None_iff)

section \<open>Cuts on character boundaries\<close>

text \<open>
  The values of the three look-ups where no slice panics, which is so in every text without a
  continuation byte behind an ASCII byte: every cut is next to an ASCII character.
\<close>

definition first_iri :: "string \<Rightarrow> string option" where
  "first_iri s =
     (case find_str s ''<'' of
        None \<Rightarrow> None
      | Some i \<Rightarrow>
          let start = i + 1 in
          (case find_str (drop start s) ''>'' of
             None \<Rightarrow> None
           | Some k \<Rightarrow> Some (subrange s start (k + start))))"

definition pred_iri :: "string \<Rightarrow> string \<Rightarrow> string option" where
  "pred_iri block predicate =
     (case find (\<lambda>w. fst w = predicate \<and> iri_token (snd w)) (windows2 (split_whitespace block)) of
        None \<Rightarrow> None
      | Some w \<Rightarrow> Some (subrange (snd w) 1 (length (snd w) - 1)))"

definition pred_quoted :: "string \<Rightarrow> string \<Rightarrow> string option" where
  "pred_quoted block predicate =
     (case find_str block predicate of
        None \<Rightarrow> None
      | Some i \<Rightarrow>
          let after_pred = drop (i + length predicate) block in
          (case find_str after_pred [CHR 0x22] of
             None \<Rightarrow> None
           | Some k \<Rightarrow>
               let rest = drop (k + 1) after_pred in
               map_option (\<lambda>close. take close rest) (find_str rest [CHR 0x22])))"

lemma cut_behind:
  assumes "str_ok s" and f: "find_str s p = Some i" and p: "p \<noteq> []" "ascii (last p) < 128"
  shows "str_slice s (i + length p) (length s) = (Inr (drop (i + length p) s) :: string aff4_result)"
    and "str_ok (drop (i + length p) s)"
proof -
  have le: "i + length p \<le> length s" using find_str_SomeD [OF f] by simp
  note d = find_str_decomp [OF f]
  have l: "length (take i s @ p) = i + length p" using le by simp
  have "char_boundary s (length (take i s @ p))"
    by (rule boundary_behind [OF assms(1), of _ "drop (i + length p) s"]) (use d p in simp_all)
  then show "str_slice s (i + length p) (length s) = (Inr (drop (i + length p) s) :: string aff4_result)"
    using le l by (simp add: subrange_def)
  have "str_ok ((take i s @ p) @ drop (i + length p) s @ [])" using assms(1) d by simp
  then show "str_ok (drop (i + length p) s)" by (rule str_ok_part)
qed

lemma boundary_match:
  assumes f: "find_str s [c] = Some k" and "ascii c < 128"
  shows "char_boundary s k" and "k < length s"
proof -
  show "k < length s" using find_str_SomeD [OF f] by simp
  moreover have "s ! k = c" using find_str_SomeD [OF f] by (auto simp: starts_with_iff nth_via_drop)
  ultimately show "char_boundary s k" using assms(2) by (simp add: boundary_before)
qed

lemma boundary_shift:
  "char_boundary (drop i s) k \<Longrightarrow> k \<noteq> 0 \<or> char_boundary s i \<Longrightarrow> i \<le> length s \<Longrightarrow> char_boundary s (k + i)"
  by (cases "k = 0") (auto simp: char_boundary_def add.commute)

lemma extract_iri_eq:
  assumes ok: "str_ok s"
  shows "extract_iri s = Inr (first_iri s)"
proof (cases "find_str s ''<''")
  case None
  then show ?thesis by (simp add: extract_iri_def first_iri_def)
next
  case (Some i)
  have lt: "ascii (CHR ''<'') < 128" "ascii (CHR ''>'') < 128" by simp_all
  note cut = cut_behind [OF ok Some, simplified]
  have le: "Suc i \<le> length s" using find_str_SomeD [OF Some] by simp
  have start: "char_boundary s (Suc i)"
    using cut(1) by (auto simp: str_slice_def split: if_splits)
  show ?thesis
  proof (cases "find_str (drop (Suc i) s) ''>''")
    case None
    with Some cut(1) show ?thesis by (simp add: extract_iri_def first_iri_def)
  next
    case k: (Some k)
    have "char_boundary s (k + Suc i)"
      using boundary_match(1) [OF k lt(2)] start le by (intro boundary_shift) simp_all
    moreover have "k + Suc i \<le> length s" using boundary_match(2) [OF k lt(2)] by simp
    ultimately show ?thesis
      using Some k cut(1) start by (simp add: extract_iri_def first_iri_def)
  qed
qed

lemma extract_pred_quoted_eq:
  assumes ok: "str_ok block" and p: "p \<noteq> []" "ascii (last p) < 128"
  shows "extract_pred_quoted block p = Inr (pred_quoted block p)"
proof (cases "find_str block p")
  case None
  then show ?thesis by (simp add: extract_pred_quoted_def pred_quoted_def)
next
  case (Some i)
  note cut = cut_behind [OF ok Some p]
  let ?a = "drop (i + length p) block"
  show ?thesis
  proof (cases "find_str ?a [CHR 0x22]")
    case None
    with Some cut(1) show ?thesis by (simp add: extract_pred_quoted_def pred_quoted_def)
  next
    case k: (Some k)
    note cut' = cut_behind [OF cut(2) k, simplified]
    let ?r = "drop (k + 1) ?a"
    show ?thesis
    proof (cases "find_str ?r [CHR 0x22]")
      case None
      with Some k cut(1) cut'(1) show ?thesis
        by (simp add: extract_pred_quoted_def pred_quoted_def)
    next
      case c: (Some c)
      have "char_boundary ?r c" "c < length ?r" using boundary_match [OF c] by simp_all
      then have "str_slice ?r 0 c = (Inr (take c ?r) :: string aff4_result)"
        by (simp add: subrange_def)
      with Some k c cut(1) cut'(1) show ?thesis
        by (simp add: extract_pred_quoted_def pred_quoted_def)
    qed
  qed
qed

lemma split_ws_part: "t \<in> set (split_ws cur s) \<Longrightarrow> \<exists>u v. rev cur @ s = u @ t @ v"
proof (induction cur s rule: split_ws.induct)
  case (1 cur s)
  show ?case
  proof (cases s)
    case Nil
    with "1.prems" have "t = rev cur" by (simp add: split_ws.simps [of cur "[]"] split: if_splits)
    then have "rev cur @ s = [] @ t @ s" by simp
    then show ?thesis by blast
  next
    case (Cons c r)
    show ?thesis
    proof (cases "ws_len s = 0")
      case True
      have "t \<in> set (split_ws (c # cur) r)"
        using "1.prems" True Cons by (simp add: split_ws.simps [of cur "c # r"])
      from "1.IH"(1) [OF Cons True this] show ?thesis by (simp add: Cons)
    next
      case False
      then consider "t = rev cur" | "t \<in> set (split_ws [] (drop (ws_len s) s))"
        using "1.prems" Cons by (auto simp: split_ws.simps [of cur "c # r"] split: if_splits)
      then show ?thesis
      proof cases
        case 1
        then have "rev cur @ s = [] @ t @ s" by simp
        then show ?thesis by blast
      next
        case 2
        from "1.IH"(2) [OF Cons False 2] obtain u v where "drop (ws_len s) s = u @ t @ v" by auto
        then have "rev cur @ s = (rev cur @ take (ws_len s) s @ u) @ t @ v"
          by (metis append.assoc append_take_drop_id)
        then show ?thesis by blast
      qed
    qed
  qed
qed

lemma str_ok_token: "str_ok s \<Longrightarrow> t \<in> set (split_whitespace s) \<Longrightarrow> str_ok t"
  using split_ws_part [of t "[]" s] str_ok_part by (fastforce simp: split_whitespace_def)

lemma windows2_in: "w \<in> set (windows2 ts) \<Longrightarrow> fst w \<in> set ts \<and> snd w \<in> set ts"
  by (cases w; cases ts) (auto simp: windows2_def dest: set_zip_leftD set_zip_rightD)

lemma iri_token_cut:
  assumes "str_ok v" and "iri_token v"
  shows "str_slice v 1 (length v - 1) = (Inr (subrange v 1 (length v - 1)) :: string aff4_result)"
proof -
  obtain t where t: "v = CHR ''<'' # t"
    using assms(2) by (auto simp: iri_token_def starts_with_iff)
  obtain u where u: "v = u @ [CHR ''>'']"
    using assms(2) by (auto simp: iri_token_def ends_with_iff)
  then have len: "2 \<le> length v" using t by (cases u) auto
  have "char_boundary v (length [CHR ''<''])"
    by (rule boundary_behind [OF assms(1), of _ t]) (simp_all add: t)
  moreover have "char_boundary v (length v - 1)"
    by (rule boundary_before) (simp_all add: u nth_append)
  ultimately show ?thesis using len by simp
qed

lemma extract_pred_iri_eq:
  assumes "str_ok block"
  shows "extract_pred_iri block p = Inr (pred_iri block p)"
proof (cases "find (\<lambda>w. fst w = p \<and> iri_token (snd w)) (windows2 (split_whitespace block))")
  case None
  then show ?thesis by (simp add: extract_pred_iri_def pred_iri_def)
next
  case (Some w)
  then have "w \<in> set (windows2 (split_whitespace block))" and i: "iri_token (snd w)"
    by (auto simp: find_Some_iff)
  then have "str_ok (snd w)" using windows2_in str_ok_token [OF assms] by blast
  with i Some show ?thesis
    by (simp add: extract_pred_iri_def pred_iri_def iri_token_cut del: One_nat_def)
qed

text \<open>The blocks of a text are such texts again.\<close>

lemma str_ok_normalize: "str_ok t \<Longrightarrow> str_ok (normalize_turtle t)"
proof (induction t)
  case Nil
  then show ?case by (simp add: normalize_turtle_def)
next
  case (Cons c t)
  define n where "n c = (if c = CHR 0x0A \<or> c = CHR 0x0D \<or> c = CHR 0x09 \<or> c = CHR '';'' then CHR '' '' else c)" for c
  have n: "normalize_turtle s = map n s" for s by (simp add: normalize_turtle_def n_def)
  have cont: "utf8_cont (ascii (n d)) \<Longrightarrow> utf8_cont (ascii d)" for d
    by (auto simp: n_def utf8_cont_def split: if_splits)
  have high: "128 \<le> ascii d \<Longrightarrow> 128 \<le> ascii (n d)" for d by (auto simp: n_def split: if_splits)
  have "str_ok t" and ct: "t \<noteq> [] \<Longrightarrow> utf8_cont (ascii (hd t)) \<Longrightarrow> 128 \<le> ascii c"
    using Cons.prems by (simp_all add: str_ok_def bytes_ok_Cons hd_map)
  with Cons.IH show ?case
    using cont high by (cases t) (auto simp: n str_ok_def bytes_ok_Cons)
qed

lemma str_ok_block: "str_ok t \<Longrightarrow> b \<in> set (turtle_blocks t) \<Longrightarrow> str_ok b"
  unfolding turtle_blocks_def using split_piece_within str_ok_normalize str_ok_part by metis

lemma found_block:
  "find P (turtle_blocks t) = Some b \<Longrightarrow> b \<in> set (turtle_blocks t)"
  by (auto simp: find_Some_iff)

section \<open>Windows of tokens\<close>

lemma find_window:
  assumes "p \<notin> set pre"
  shows "find (\<lambda>w. fst w = p) (windows2 (pre @ p # v # post)) = Some (p, v)"
  using assms
proof (induction pre)
  case Nil
  then show ?case by (simp add: windows2_def)
next
  case (Cons x pre)
  have "windows2 ((x # pre) @ p # v # post) =
      (x, hd (pre @ p # v # post)) # windows2 (pre @ p # v # post)"
    by (cases pre) (simp_all add: windows2_def)
  moreover have "x \<noteq> p" "p \<notin> set pre" using Cons.prems by auto
  ultimately show ?case using Cons.IH by simp
qed

section \<open>The declared hashes\<close>

text \<open>
  The reference reading of \<open>parse_image_hashes\<close>: after every \<open>aff4:hash\<close> token stands a run of
  commas and hash terms; the declared hashes are the terms of those runs, in order.
\<close>

definition value_token :: "string \<Rightarrow> bool" where
  "value_token t \<longleftrightarrow> t = '','' \<or> parse_hash_term t \<noteq> None"

definition value_run :: "string list \<Rightarrow> stored_hash list" where
  "value_run ts = List.map_filter parse_hash_term (takeWhile value_token ts)"

definition hashes_from :: "string list \<Rightarrow> nat \<Rightarrow> stored_hash list" where
  "hashes_from ts i =
     concat (map (\<lambda>k. if ts ! k = ''aff4:hash'' then value_run (drop (k + 1) ts) else [])
       [i..<length ts])"

lemma parse_hash_term_comma [simp]: "parse_hash_term '','' = None"
  by (simp add: parse_hash_term_def strip_prefix_def)

lemma parse_hash_term_hash [simp]: "parse_hash_term ''aff4:hash'' = None"
  by (simp add: parse_hash_term_def strip_prefix_def)

lemma hash_values_loop_eq:
  "hash_values_loop ts j out =
     Inr (j + length (takeWhile value_token (drop j ts)), out @ value_run (drop j ts))"
proof (induction ts j out rule: hash_values_loop.induct)
  case (1 ts j out)
  show ?case
  proof (cases "j < length ts")
    case False
    then show ?thesis
      by (simp add: hash_values_loop.simps [of ts j out] value_run_def List.map_filter_simps)
  next
    case True
    then have d: "drop j ts = ts ! j # drop (j + 1) ts" by (simp add: Cons_nth_drop_Suc)
    have at: "index_at ts j = Inr (ts ! j)" using True by simp
    show ?thesis
    proof (cases "ts ! j = '',''")
      case comma: True
      then show ?thesis
        using "1.IH"(1) [OF True at comma] True
        by (simp add: hash_values_loop.simps [of ts j out] d value_run_def value_token_def
            List.map_filter_simps)
    next
      case False
      show ?thesis
      proof (cases "parse_hash_term (ts ! j)")
        case None
        with True False show ?thesis
          by (simp add: hash_values_loop.simps [of ts j out] d value_run_def value_token_def
              List.map_filter_simps)
      next
        case (Some h)
        then show ?thesis
          using "1.IH"(2) [OF True at False Some] True False
          by (simp add: hash_values_loop.simps [of ts j out] d value_run_def value_token_def
              List.map_filter_simps)
      qed
    qed
  qed
qed

lemma hashes_from_skip:
  assumes "\<And>k. i \<le> k \<Longrightarrow> k < j \<Longrightarrow> ts ! k \<noteq> ''aff4:hash''" and "i \<le> j" "j \<le> length ts"
  shows "hashes_from ts i = hashes_from ts j"
proof -
  have "[i..<length ts] = [i..<j] @ [j..<length ts]"
    using assms(2,3) by (metis le_add_diff_inverse upt_add_eq_append)
  moreover have "map (\<lambda>k. if ts ! k = ''aff4:hash'' then value_run (drop (k + 1) ts) else []) [i..<j] =
      map (\<lambda>k. []) [i..<j]"
    using assms(1) by (intro map_cong) auto
  ultimately show ?thesis by (simp add: hashes_from_def)
qed

lemma hashes_from_step:
  "i < length ts \<Longrightarrow> hashes_from ts i =
     (if ts ! i = ''aff4:hash'' then value_run (drop (i + 1) ts) else []) @ hashes_from ts (i + 1)"
  by (simp add: hashes_from_def upt_conv_Cons)

lemma hash_tokens_loop_eq: "hash_tokens_loop ts i out = Inr (out @ hashes_from ts i)"
proof (induction ts i out rule: hash_tokens_loop.induct)
  case (1 ts i out)
  show ?case
  proof (cases "i < length ts")
    case False
    then show ?thesis by (simp add: hash_tokens_loop.simps [of ts i out] hashes_from_def)
  next
    case True
    then have at: "index_at ts i = Inr (ts ! i)" by simp
    show ?thesis
    proof (cases "ts ! i = ''aff4:hash''")
      case False
      then show ?thesis
        using "1.IH"(1) [OF True at False] True False
        by (simp add: hash_tokens_loop.simps [of ts i out] hashes_from_step)
    next
      case hash: True
      let ?run = "takeWhile value_token (drop (i + 1) ts)"
      let ?j = "i + 1 + length ?run"
      have jl: "?j \<le> length ts"
        using True length_takeWhile_le [of value_token "drop (i + 1) ts"] by simp
      have "ts ! k \<noteq> ''aff4:hash''" if k: "i + 1 \<le> k" "k < ?j" for k
      proof -
        have "k - (i + 1) < length ?run" using k by simp
        then have "?run ! (k - (i + 1)) \<in> set ?run" by (rule nth_mem)
        then have "value_token (?run ! (k - (i + 1)))" by (rule set_takeWhileD [THEN conjunct2])
        moreover have "?run ! (k - (i + 1)) = ts ! k"
          using k jl takeWhile_nth [of "k - (i + 1)" value_token "drop (i + 1) ts"] by simp
        ultimately show ?thesis by (auto simp: value_token_def)
      qed
      then have "hashes_from ts (i + 1) = hashes_from ts ?j"
        by (intro hashes_from_skip) (use jl in auto)
      moreover have "hash_tokens_loop ts ?j (out @ value_run (drop (i + 1) ts)) =
          Inr ((out @ value_run (drop (i + 1) ts)) @ hashes_from ts ?j)"
        using "1.IH"(2) [OF True at _ hash_values_loop_eq refl] hash
        by (simp add: max_absorb1)
      ultimately show ?thesis
        using True hash hashes_from_step [OF True]
        by (simp add: hash_tokens_loop.simps [of ts i out] hash_values_loop_eq Let_def)
    qed
  qed
qed

definition declared_hashes :: "string \<Rightarrow> stored_hash list" where
  "declared_hashes block = hashes_from (split_whitespace block) 0"

lemma parse_image_hashes_eq [simp]: "parse_image_hashes block = Inr (declared_hashes block)"
  by (simp add: parse_image_hashes_def hash_tokens_loop_eq declared_hashes_def)

section \<open>What a parsed disk image guarantees\<close>

lemma parse_image_stream_block_ok:
  "parse_image_stream_block b mo = Inr m \<Longrightarrow>
     0 < sm_chunk_size m \<and> 0 < sm_chunks_per_segment m \<and>
     (mo = None \<longrightarrow> sm_map_meta m = None \<and> sm_virtual_size m = sm_image_stream_size m) \<and>
     (\<forall>mm vs. mo = Some (mm, vs) \<longrightarrow> sm_map_meta m = Some mm \<and> sm_virtual_size m = vs)"
  by (auto simp: parse_image_stream_block_def Let_def word_gt_0 split: if_splits)

lemma parse_turtle_geometry:
  "parse_turtle t = Inr m \<Longrightarrow> 0 < sm_chunk_size m \<and> 0 < sm_chunks_per_segment m"
  by (auto simp: parse_turtle_def parse_map_turtle_def Let_def
      dest!: parse_image_stream_block_ok split: option.splits)

lemma not_encrypted_extract: "extract_pred_u64 b p \<noteq> Inl (Err (Encrypted m))"
  by (auto simp: extract_pred_u64_def ok_or_def Let_def split: option.splits if_splits)

lemma str_slice_not_err: "str_slice s a b \<noteq> Inl (Err e)"
  by (simp add: str_slice_def)

lemma not_encrypted_iri: "extract_iri b \<noteq> Inl (Err e)"
  by (auto simp: extract_iri_def and_then_eq_Inl str_slice_not_err Let_def split: option.splits)

lemma not_encrypted_pred_iri: "extract_pred_iri b p \<noteq> Inl (Err e)"
  by (auto simp: extract_pred_iri_def and_then_eq_Inl str_slice_not_err split: option.splits)

lemma not_encrypted_stream_block: "parse_image_stream_block b mo \<noteq> Inl (Err (Encrypted m))"
  by (auto simp: parse_image_stream_block_def and_then_eq_Inl ok_or_def Let_def not_encrypted_extract
      not_encrypted_iri hash_tokens_loop_eq parse_image_hashes_def split: option.splits if_splits)

lemma not_encrypted_map: "parse_map_turtle bs b \<noteq> Inl (Err (Encrypted m))"
  by (auto simp: parse_map_turtle_def and_then_eq_Inl ok_or_def not_encrypted_extract
      not_encrypted_iri not_encrypted_pred_iri not_encrypted_stream_block split: option.splits)

lemma is_encrypted_iff: "is_encrypted x \<longleftrightarrow> (\<exists>m. x = Inl (Err (Encrypted m)))"
  by (cases x rule: is_encrypted.cases) auto

lemma parse_turtle_encrypted_iff:
  assumes "str_ok t"
  shows "is_encrypted (parse_turtle t) \<longleftrightarrow> contains t ''aff4:EncryptedStream''"
proof -
  have mk: "marker ''aff4:EncryptedStream''" by (simp add: marker_def)
  note ok = str_ok_block [OF assms]
  show ?thesis
  proof (cases "find (\<lambda>b. contains b ''aff4:EncryptedStream'') (turtle_blocks t)")
    case None
    then show ?thesis
      using find_None_iff_contains [OF mk, of t]
      by (auto simp: parse_turtle_def Let_def is_encrypted_iff and_then_eq_Inl ok_or_def
          not_encrypted_map not_encrypted_stream_block split: option.splits)
  next
    case (Some b)
    then show ?thesis
      using find_None_iff_contains [OF mk, of t] ok [OF found_block [OF Some]]
      by (simp add: parse_turtle_def Let_def extract_iri_eq)
  qed
qed

section \<open>Hash terms and hexadecimal text\<close>

lemma find_str_fresh: "p \<noteq> [] \<Longrightarrow> hd p \<notin> set a \<Longrightarrow> find_str (a @ p @ b) p = Some (length a)"
proof (induction a)
  case Nil
  then show ?case by (cases p) auto
next
  case (Cons x a)
  then show ?case by (cases p) auto
qed

lemma trim_end_suffix:
  assumes "list_all P s" and "a \<noteq> []" and "\<not> P (last a)"
  shows "trim_end_matches P (a @ s) = a"
proof -
  have "dropWhile P (rev s @ rev a) = rev a"
    using assms by (subst dropWhile_append2) (auto simp: list_all_iff dropWhile_eq_self_iff hd_rev)
  then show ?thesis by (simp add: trim_end_matches_def)
qed

lemma hexdigit_not_quote: "is_ascii_hexdigit c \<Longrightarrow> c \<noteq> CHR 0x22"
  by (auto simp: is_ascii_hexdigit_def to_digit16_def Let_def)

lemma parse_hash_term_render:
  assumes h: "h \<noteq> []" "list_all is_ascii_hexdigit h"
    and a: "a \<noteq> []" "is_ascii_alphanumeric (last a)"
    and s: "list_all (\<lambda>c. \<not> is_ascii_alphanumeric c) s"
  shows "parse_hash_term (CHR 0x22 # h @ CHR 0x22 # ''^^aff4:'' @ a @ s) =
    Some \<lparr>algorithm = a, hex = to_ascii_lowercase h\<rparr>"
proof -
  have "CHR 0x22 \<notin> set h" using h(2) hexdigit_not_quote by (auto simp: list_all_iff)
  then have "find_str (h @ (CHR 0x22 # ''^^aff4:'') @ (a @ s)) (CHR 0x22 # ''^^aff4:'') =
      Some (length h)"
    by (intro find_str_fresh) auto
  then have "split_once (h @ CHR 0x22 # ''^^aff4:'' @ a @ s) (CHR 0x22 # ''^^aff4:'') =
      Some (h, a @ s)"
    by (simp add: split_once_def)
  moreover have "trim_end_matches (\<lambda>c. \<not> is_ascii_alphanumeric c) (a @ s) = a"
    using a s by (intro trim_end_suffix) auto
  ultimately show ?thesis
    using h a by (simp add: parse_hash_term_def strip_prefix_def)
qed

text \<open>The pairs of digits of a text.\<close>

fun hex_pairs :: "string \<Rightarrow> bytes option" where
  "hex_pairs (a # b # s) =
     (case to_digit16 a of
        None \<Rightarrow> None
      | Some hi \<Rightarrow>
          (case to_digit16 b of
             None \<Rightarrow> None
           | Some lo \<Rightarrow> map_option (\<lambda>out. word_of_nat (hi * 16 + lo) # out) (hex_pairs s)))"
| "hex_pairs _ = Some []"

lemma byte_nibbles: "(word_of_nat (unat b div 16 * 16 + unat b mod 16) :: u8) = b"
  by (simp only: div_mult_mod_eq) simp

lemma hex_pairs_render: "hex_pairs (concat (map hex02 bs)) = Some bs"
proof (induction bs)
  case Nil
  then show ?case by simp
next
  case (Cons b bs)
  have "unat b div 16 < 16" "unat b mod 16 < 16"
    using unat_bound [of b] by (auto simp: less_mult_imp_div_less)
  moreover have "concat (map hex02 (b # bs)) =
      digit_char (unat b div 16) # digit_char (unat b mod 16) # concat (map hex02 bs)"
    by (simp add: hex02_two_digits [of b])
  ultimately show ?case
    by (simp only: hex_pairs.simps Cons.IH to_digit16_digit_char option.case byte_nibbles) simp
qed

lemma length_concat_hex02 [simp]: "length (concat (map hex02 bs)) = 2 * length bs"
  by (induction bs) (auto simp: hex02_two_digits)

text \<open>The index loop reads the pairs of the text, when it has an even length.\<close>

lemma hex_loop_eq:
  "even (length s) \<Longrightarrow> even i \<Longrightarrow>
   hex_loop s i out = Inr (map_option (\<lambda>bs. out @ bs) (hex_pairs (drop i s)))"
proof (induction s i out rule: hex_loop.induct)
  case (1 s i out)
  show ?case
  proof (cases "i < length s")
    case False
    then show ?thesis by (simp add: hex_loop.simps [of s i out])
  next
    case True
    have "Suc i \<noteq> length s" using "1.prems" by (metis even_Suc)
    then have more: "Suc i < length s" using True by simp
    then have d: "drop i s = s ! i # s ! Suc i # drop (i + 2) s"
      using True by (simp add: Cons_nth_drop_Suc)
    have at: "index_at s i = (Inr (s ! i) :: char aff4_result)"
      "index_at s (i + 1) = (Inr (s ! Suc i) :: char aff4_result)"
      using True more by simp_all
    show ?thesis
    proof (cases "to_digit16 (s ! i)")
      case None
      with True d at show ?thesis by (simp add: hex_loop.simps [of s i out])
    next
      case hi: (Some hi)
      show ?thesis
      proof (cases "to_digit16 (s ! Suc i)")
        case None
        with True d at hi show ?thesis by (simp add: hex_loop.simps [of s i out])
      next
        case (Some lo)
        have "hex_loop s (i + 2) (out @ [word_of_nat (hi * 16 + lo)]) =
            Inr (map_option (\<lambda>bs. (out @ [word_of_nat (hi * 16 + lo)]) @ bs) (hex_pairs (drop (i + 2) s)))"
          using "1.prems" by (intro "1.IH" [OF True at(1) hi at(2) Some]) simp_all
        with True d at hi Some show ?thesis
          by (simp add: hex_loop.simps [of s i out] option.map_comp comp_def)
      qed
    qed
  qed
qed

definition hex_bytes :: "string \<Rightarrow> bytes option" where
  "hex_bytes s = (if length s mod 2 \<noteq> 0 then None else hex_pairs s)"

lemma hex_decode_eq [simp]: "hex_decode s = Inr (hex_bytes s)"
proof (cases "even (length s)")
  case True
  then have "hex_loop s 0 [] = Inr (hex_pairs s)"
    using hex_loop_eq [OF True, of 0 "[]"] by (simp add: option.map_ident)
  with True show ?thesis by (simp add: hex_decode_def hex_bytes_def even_iff_mod_2_eq_zero)
next
  case False
  then show ?thesis by (simp add: hex_decode_def hex_bytes_def odd_iff_mod_2_eq_one)
qed

lemma hex_decode_render: "hex_decode (concat (map hex02 bs)) = Inr (Some bs)"
  by (simp add: hex_bytes_def hex_pairs_render)

section \<open>No parser panics\<close>

lemma no_panic_extract_pred_u64 [simp]: "no_panic (extract_pred_u64 b p)"
  by (auto simp: extract_pred_u64_def Let_def split: option.split)

lemma no_panic_unwrap_or [simp]: "no_panic x \<Longrightarrow> no_panic (unwrap_or d x)"
  by (cases "(d, x)" rule: unwrap_or.cases) auto

lemma unwrap_or_no_error: "no_panic x \<Longrightarrow> unwrap_or d x \<noteq> Inl e"
  by (cases "(d, x)" rule: unwrap_or.cases) auto

lemma no_panic_parse_image_stream_block: "str_ok b \<Longrightarrow> no_panic (parse_image_stream_block b mo)"
  by (auto simp: parse_image_stream_block_def extract_iri_eq Let_def split: option.split)

lemma no_panic_parse_map_turtle:
  "str_ok b \<Longrightarrow> (\<And>b. b \<in> set bs \<Longrightarrow> str_ok b) \<Longrightarrow> no_panic (parse_map_turtle bs b)"
  by (auto simp: parse_map_turtle_def extract_iri_eq extract_pred_iri_eq find_Some_iff
      intro!: no_panic_parse_image_stream_block)

lemma no_panic_parse_turtle:
  assumes "str_ok t"
  shows "no_panic (parse_turtle t)"
  using str_ok_block [OF assms]
  by (auto simp: parse_turtle_def Let_def extract_iri_eq dest!: found_block
      intro!: no_panic_parse_map_turtle no_panic_parse_image_stream_block split: option.split)

lemma no_panic_parse_file_image:
  "str_ok b \<Longrightarrow> no_panic (parse_file_image b)"
  by (auto simp: parse_file_image_def extract_iri_eq extract_pred_quoted_eq)

lemma no_panic_parse_logical_files: "str_ok t \<Longrightarrow> no_panic (parse_logical_files t)"
  by (auto simp: parse_logical_files_def
      intro!: no_panic_traverse no_panic_parse_file_image dest: str_ok_block)

lemma hex_literal_eq:
  "str_ok b \<Longrightarrow> p \<noteq> [] \<Longrightarrow> ascii (last p) < 128 \<Longrightarrow>
   hex_literal b p = Inr (Option.bind (pred_quoted b p) hex_bytes)"
  by (simp add: hex_literal_def extract_pred_quoted_eq split: option.split)

lemma no_panic_parse_encrypted_meta:
  assumes "str_ok t"
  shows "no_panic (parse_encrypted_meta t)"
  using str_ok_block [OF assms]
  by (auto simp: parse_encrypted_meta_def Let_def extract_iri_eq extract_pred_iri_eq hex_literal_eq
      dest!: found_block)

end
