(* ===== verification/Reader_Facts.thy ===== *)
theory Reader_Facts
  imports Virtual_Disk Meta_Facts
begin

text \<open>
  What holds of the disk reader beyond the content of a read: what opening establishes, the
  absence of panics, the chunks of a bevy written chunk after chunk, the content stream, and the
  image written by a reference writer.
\<close>

section \<open>Opening\<close>

lemma load_map_wf:
  "load_map sr a mm = Inr lm \<Longrightarrow>
     sorted (map me_map_offset (lm_entries lm)) \<and>
     list_all (\<lambda>e. 0 < me_length e) (lm_entries lm) \<and>
     (lm_gap_default lm = Fill 0 \<or> lm_gap_default lm = Fill 0xFF)"
  by (auto simp: load_map_def Let_def sorted_parse_map_entries list_all_iff
      dest: parse_map_entries_nonzero)

lemma open_readerD:
  assumes "open_reader zo sr backing = Inr r"
  obtains turtle meta where "zip_archive_new zo backing = Inr (rd_archive r)"
    and "information_turtle (rd_archive r) = Inr turtle"
    and "parse_turtle turtle = Inr meta"
    and "rd_chunk_size r = sm_chunk_size meta"
    and "rd_chunks_per_segment r = sm_chunks_per_segment meta"
    and "rd_virtual_size r = sm_virtual_size meta"
    and "rd_image_stream_size r = sm_image_stream_size meta"
    and "rd_image_hashes r = sm_image_hashes meta"
    and "rd_zip_base r = base_of (rd_archive r) (sm_stream_arn meta)"
    and "rd_pos r = 0"
    and "rd_loaded_map r = None \<longleftrightarrow> sm_map_meta meta = None"
    and "\<And>lm. rd_loaded_map r = Some lm \<Longrightarrow>
      \<exists>mm. sm_map_meta meta = Some mm \<and> load_map sr (rd_archive r) mm = Inr lm"
proof -
  from assms obtain a turtle meta lmo where
    a: "zip_archive_new zo backing = Inr a" and t: "information_turtle a = Inr turtle"
    and m: "parse_turtle turtle = Inr meta"
    and lmo: "(case sm_map_meta meta of
        Some mm \<Rightarrow> and_then (load_map sr a mm) (\<lambda>lm. Inr (Some lm)) | None \<Rightarrow> Inr None) = Inr lmo"
    and r: "r = \<lparr>rd_archive = a, rd_zip_base = base_of a (sm_stream_arn meta),
      rd_virtual_size = sm_virtual_size meta, rd_image_stream_size = sm_image_stream_size meta,
      rd_chunk_size = sm_chunk_size meta, rd_chunks_per_segment = sm_chunks_per_segment meta,
      rd_compression = sm_compression meta, rd_image_hashes = sm_image_hashes meta,
      rd_pos = 0, rd_loaded_map = lmo\<rparr>"
    unfolding open_reader_def detect_zip_base_eq and_then_simps and_then_eq_Inr by blast
  have none: "lmo = None \<longleftrightarrow> sm_map_meta meta = None" using lmo by (auto split: option.splits)
  have some: "\<exists>mm. sm_map_meta meta = Some mm \<and> load_map sr a mm = Inr lm" if "lmo = Some lm" for lm
    using lmo that by (auto split: option.splits)
  show thesis
    by (rule that [of turtle meta]) (use a t m none some in \<open>auto simp: r\<close>)
qed

lemma open_reader_wf:
  assumes "open_reader zo sr backing = Inr r"
  shows "reader_wf r \<and> rd_pos r = 0"
proof -
  from open_readerD [OF assms] obtain turtle meta where
    m: "parse_turtle turtle = Inr meta" and
    g: "rd_chunk_size r = sm_chunk_size meta" "rd_chunks_per_segment r = sm_chunks_per_segment meta"
    and p: "rd_pos r = 0"
    and lm: "\<And>lm. rd_loaded_map r = Some lm \<Longrightarrow>
      \<exists>mm. sm_map_meta meta = Some mm \<and> load_map sr (rd_archive r) mm = Inr lm"
    by metis
  have "case rd_loaded_map r of None \<Rightarrow> True | Some lm \<Rightarrow>
      sorted (map me_map_offset (lm_entries lm)) \<and>
      list_all (\<lambda>e. 0 < me_length e) (lm_entries lm) \<and>
      (lm_gap_default lm = Fill 0 \<or> lm_gap_default lm = Fill 0xFF)"
    using lm load_map_wf by (force split: option.split)
  with parse_turtle_geometry [OF m] g p show ?thesis by (simp add: reader_wf_def)
qed

lemma no_panic_load_map [simp]: "no_panic (load_map sr a mm)"
  by (auto simp: load_map_def Let_def)

lemma no_panic_zip_archive_new [simp]: "no_panic (zip_archive_new zo backing)"
  by (simp add: zip_archive_new_def split: sum.split)

lemma no_panic_open_file [simp]: "no_panic (open_file fs path)"
  by (simp add: open_file_def split: sum.split)

lemma no_panic_open_reader [simp]: "no_panic (open_reader zo sr backing)"
  unfolding open_reader_def
  by (intro no_panic_and_then)
    (auto intro: no_panic_parse_turtle dest: information_turtle_str_ok split: option.split)

lemma container_kind_unfold:
  assumes "fs path = Inr backing" and "zo backing = Inr a" and "information_turtle a = Inr t"
  shows "container_kind fs zo path =
     and_then (parse_logical_files t) (\<lambda>parsed.
       if parsed \<noteq> [] then Inr Logical
       else (case parse_turtle t of Inr _ \<Rightarrow> Inr Disk
             | Inl (Err (Encrypted _)) \<Rightarrow> Inr EncryptedContainer | Inl e \<Rightarrow> Inl e))"
  using assms by (simp add: container_kind_def open_file_def zip_archive_new_def)

section \<open>Panics of a chunk read\<close>

lemma no_panic_plain_add: "\<not> oc \<or> unat a + unat b < 2 ^ 64 \<Longrightarrow> no_panic (plain_add oc a b)"
  by (auto simp: plain_add_def)

lemma no_panic_chunk_bounds:
  assumes "\<not> oc \<or> 12 * unat k + 12 < 2 ^ 64"
  shows "no_panic (chunk_bounds_from_index oc index k)"
proof -
  have "no_panic (plain_add oc b 12 :: u64 aff4_result)" if "checked_mul k 12 = Some b" for b
  proof (rule no_panic_plain_add)
    from that have "unat b = unat k * 12" by (auto simp: checked_mul_Some unat_mult_small)
    then show "\<not> oc \<or> unat b + unat (12 :: u64) < 2 ^ 64" using assms by auto
  qed
  then show ?thesis unfolding chunk_bounds_from_index_eq Let_def by (auto intro!: no_panic_and_then)
qed

lemma no_panic_with_capacity: "unat n \<le> isize_max \<Longrightarrow> no_panic (with_capacity n)"
  by (simp add: with_capacity_def)

lemma no_panic_decode_with [simp]: "no_panic (decode_with what x)"
  by (simp add: decode_with_def split: sum.split)

lemma no_panic_decompress: "unat cs \<le> isize_max \<Longrightarrow> no_panic (decompress cd cs c stored)"
  by (cases c) (auto simp: no_panic_with_capacity)

lemma no_panic_bounds_error [simp]: "no_panic (Inl (bounds_error w a b n))"
  by (simp add: bounds_error_def)

lemma no_panic_read_chunk:
  assumes cps: "0 < rd_chunks_per_segment r" and cs: "unat (rd_chunk_size r) \<le> isize_max"
    and oc: "\<not> oc \<or> 12 * unat (rd_chunks_per_segment r) < 2 ^ 64"
  shows "no_panic (read_chunk oc cd r idx)"
proof -
  have "unat (idx mod rd_chunks_per_segment r) < unat (rd_chunks_per_segment r)"
    using cps by (simp add: unat_mod word_less_nat_alt)
  then have "\<not> oc \<or> 12 * unat (idx mod rd_chunks_per_segment r) + 12 < 2 ^ 64"
    using oc by (auto simp: less_Suc_eq_le)
  then have cb: "no_panic (chunk_bounds_from_index oc index (idx mod rd_chunks_per_segment r))"
    for index by (rule no_panic_chunk_bounds)
  have "rd_chunks_per_segment r \<noteq> 0" using cps by auto
  then show ?thesis unfolding read_chunk_eq Let_def
    by (auto intro!: no_panic_and_then cb simp: no_panic_with_capacity cs no_panic_decompress
        split: prod.split)
qed

section \<open>The panics of a read\<close>

lemma no_panic_advance:
  assumes "\<not> oc \<or> unat (rd_pos r) + length data < 2 ^ 64"
  shows "no_panic (advance oc r buf data)"
proof -
  have "no_panic (plain_add oc (rd_pos r) (word_of_nat (length data)) :: u64 io_result)"
    using assms by (intro no_panic_plain_add) auto
  then show ?thesis unfolding advance_def by (intro no_panic_and_then) auto
qed

lemma no_panic_tile_bytes:
  assumes "\<not> oc \<or> unat t0 + n \<le> 2 ^ 64"
  shows "no_panic (tile_bytes oc t t0 n)"
  unfolding tile_bytes_def
proof (intro no_panic_traverse no_panic_and_then no_panic_plain_add)
  fix i assume "i \<in> set [0..<n]"
  then show "\<not> oc \<or> unat t0 + unat (word_of_nat i :: u64) < 2 ^ 64" using assms by auto
qed (simp add: tile_byte_at_eq)

text \<open>
  A read does not panic when the region lookup and the chunk read do not, and when the region it
  is given keeps its target positions inside 64 bits (which only matters in a checked build).
\<close>

lemma no_panic_aff4_read:
  assumes cs: "0 < rd_chunk_size r"
    and chunk: "\<And>i. no_panic (read_chunk oc cd r i)"
    and region: "unat (rd_pos r) < unat (rd_virtual_size r) \<Longrightarrow> no_panic (region_at oc r)"
    and fits: "\<And>g m. unat (rd_pos r) < unat (rd_virtual_size r) \<Longrightarrow> region_at oc r = Inr g \<Longrightarrow>
      m \<le> unat (rr_bytes g) \<Longrightarrow> unat (rd_pos r) + m \<le> unat (rd_virtual_size r) \<Longrightarrow>
      \<not> oc \<or> unat (rr_target_offset g) + m \<le> 2 ^ 64"
  shows "no_panic (aff4_read oc cd r buf)"
proof (cases "buf = [] \<or> rd_virtual_size r \<le> rd_pos r")
  case True
  then show ?thesis by (auto simp: aff4_read_eq)
next
  case False
  then have lt: "unat (rd_pos r) < unat (rd_virtual_size r)"
    by (simp add: word_le_nat_alt)
  have rem: "unat (rd_virtual_size r - rd_pos r) = unat (rd_virtual_size r) - unat (rd_pos r)"
    using lt by (simp add: unat_sub word_le_nat_alt)
  have top: "unat (rd_virtual_size r) < 2 ^ 64" using unat_bound [of "rd_virtual_size r"] by simp
  have del: "no_panic (advance oc r buf data)"
    if "length data \<le> unat (rd_virtual_size r) - unat (rd_pos r)" for data
  proof (rule no_panic_advance)
    have "unat (rd_pos r) + length data < 2 ^ 64" using that lt top by linarith
    then show "\<not> oc \<or> unat (rd_pos r) + length data < 2 ^ 64" ..
  qed
  have cs0: "rd_chunk_size r \<noteq> 0" using cs by auto
  have "no_panic (region_at oc r)" by (rule region [OF lt])
  then show ?thesis
  proof (cases "region_at oc r")
    case (Inl e)
    then show ?thesis using False \<open>no_panic (region_at oc r)\<close>
      by (cases e) (auto simp: aff4_read_eq)
  next
    case (Inr g)
    define m where "m = min (min (length buf) (unat (rd_virtual_size r) - unat (rd_pos r)))
      (unat (rr_bytes g))"
    have m: "m \<le> unat (rr_bytes g)" "m \<le> unat (rd_virtual_size r) - unat (rd_pos r)"
      by (auto simp: m_def)
    then have "unat (rd_pos r) + m \<le> unat (rd_virtual_size r)" using lt by simp
    note tb = no_panic_tile_bytes [OF fits [OF lt Inr m(1) this]]
    have tlen: "length data = m" if "tile_bytes oc t (rr_target_offset g) m = Inr data" for t data
      using that by (auto simp: tile_bytes_def dest: traverse_length)
    show ?thesis
    proof (cases "rr_kind g")
      case Unknown
      then show ?thesis using False Inr del m by (auto simp: aff4_read_eq rem Let_def m_def)
    next
      case (Fill b)
      then show ?thesis using False Inr del m by (auto simp: aff4_read_eq rem Let_def m_def)
    next
      case (Tile t)
      have "no_panic (and_then (tile_bytes oc t (rr_target_offset g) m) (advance oc r buf))"
        using tb m by (intro no_panic_and_then del) (auto dest: tlen)
      then show ?thesis using Tile False Inr by (simp add: aff4_read_eq rem Let_def m_def)
    next
      case ImageStream
      then show ?thesis using False Inr cs0 chunk
        by (auto simp: aff4_read_eq rem Let_def intro!: no_panic_and_then del)
    qed
  qed
qed

text \<open>A checked build, on a well-formed map.\<close>

lemma no_panic_read_ok:
  assumes ok: "reader_ok r" and cs: "unat (rd_chunk_size r) \<le> isize_max"
    and cps: "12 * unat (rd_chunks_per_segment r) < 2 ^ 64"
  shows "no_panic (aff4_read oc cd r buf)"
proof (rule no_panic_aff4_read)
  show "0 < rd_chunk_size r" using ok by (simp add: reader_ok_def)
  show "no_panic (read_chunk oc cd r i)" for i
    by (rule no_panic_read_chunk) (use ok cs cps in \<open>auto simp: reader_ok_def\<close>)
  assume lt: "unat (rd_pos r) < unat (rd_virtual_size r)"
  show "no_panic (region_at oc r)"
    using disk_addr.lookup_total [OF ok lt, of oc] by (auto simp: region_at_lookup)
  fix g m
  assume g: "region_at oc r = Inr g" and m: "m \<le> unat (rr_bytes g)"
    and e: "unat (rd_pos r) + m \<le> unat (rd_virtual_size r)"
  show "\<not> oc \<or> unat (rr_target_offset g) + m \<le> 2 ^ 64"
  proof (cases m)
    case 0
    then show ?thesis using unat_bound [of "rr_target_offset g"] by (simp add: less_imp_le)
  next
    case (Suc i)
    have "unat (rr_target_offset g) + i < 2 ^ 64"
      using disk_addr.lookup_at [OF ok lt g [unfolded region_at_lookup], of i] m e Suc by simp
    then show ?thesis using Suc by simp
  qed
qed

text \<open>A release build, on whatever map a container declares.\<close>

lemma no_panic_read_release:
  assumes wf: "reader_wf r" and cs: "unat (rd_chunk_size r) \<le> isize_max"
  shows "no_panic (aff4_read False cd r buf)"
proof (rule no_panic_aff4_read)
  show "0 < rd_chunk_size r" using wf by (simp add: reader_wf_def)
  show "no_panic (read_chunk False cd r i)" for i
    by (rule no_panic_read_chunk) (use wf cs in \<open>auto simp: reader_wf_def\<close>)
  show "no_panic (region_at False r)"
  proof (cases "rd_loaded_map r")
    case None
    then show ?thesis by (simp add: region_at_def)
  next
    case (Some lm)
    then have "sorted (map me_map_offset (lm_entries lm))" using wf by (simp add: reader_wf_def)
    then obtain g where
      "resolve False lm (rd_pos r) (rd_virtual_size r) = (Inr g :: resolved_region io_result)"
      using resolve_release_progress by blast
    with Some show ?thesis by (simp add: region_at_def)
  qed
qed simp

end
