(* ===== verification/Bevy_Layout.thy ===== *)
theory Bevy_Layout
  imports Reader
begin

text \<open>
  Bevies as the standard lays them out: the stored chunks of a stream, cut into segments of
  \<open>chunks_per_segment\<close>, each segment a ZIP entry with the chunks one after the other and an
  index entry beside it. Both readers of bevies, \<open>read_chunk\<close> and the decryption loop, use the
  lemmas here.
\<close>

definition segment_chunks :: "u64 \<Rightarrow> bytes list \<Rightarrow> nat \<Rightarrow> bytes list" where
  "segment_chunks cps stored i = take (unat cps) (drop (i * unat cps) stored)"

definition segment_held :: "zip_archive \<Rightarrow> string \<Rightarrow> u64 \<Rightarrow> bytes list \<Rightarrow> nat \<Rightarrow> bool" where
  "segment_held archive zip_base cps stored i \<longleftrightarrow>
     read_zip_entry_bytes archive (segment_name zip_base (word_of_nat i) @ ''.index'') =
       Inr (packed_index index_entry (segment_chunks cps stored i)) \<and>
     read_zip_entry_bytes archive (segment_name zip_base (word_of_nat i)) =
       Inr (concat (segment_chunks cps stored i))"

definition bevies_held :: "zip_archive \<Rightarrow> string \<Rightarrow> u64 \<Rightarrow> bytes list \<Rightarrow> bool" where
  "bevies_held archive zip_base cps stored \<longleftrightarrow>
     0 < cps \<and> 12 * unat cps < 2 ^ 64 \<and>
     length stored \<le> 2 ^ 63 \<and> list_all (\<lambda>c. length c < 2 ^ 32) stored \<and>
     length (concat stored) < 2 ^ 63 \<and>
     (\<forall>i < length stored. segment_held archive zip_base cps stored (i div unat cps))"

lemma length_concat_part: "length (concat (take n (drop k xs))) \<le> length (concat xs)"
proof -
  have "concat xs = concat (take k xs) @ concat (take n (drop k xs)) @ concat (drop n (drop k xs))"
    by (metis append_take_drop_id concat_append)
  then show ?thesis by (metis length_append le_add1 le_add2 le_trans)
qed

lemma chunk_index_split:
  assumes held: "bevies_held archive zb cps stored" and i: "i < length stored"
  shows "word_of_nat i div cps = word_of_nat (i div unat cps)"
    and "word_of_nat i mod cps = word_of_nat (i mod unat cps)"
proof -
  have il: "i < 2 ^ 64" using held i by (simp add: bevies_held_def)
  then have ui: "unat (word_of_nat i :: u64) = i" by simp
  have "i div unat cps < 2 ^ 64" "i mod unat cps < 2 ^ 64"
    using il by (meson div_le_dividend le_less_trans, meson mod_less_eq_dividend le_less_trans)
  then show "word_of_nat i div cps = word_of_nat (i div unat cps)"
    and "word_of_nat i mod cps = word_of_nat (i mod unat cps)"
    by (simp_all add: word_unat_eq_iff unat_div unat_mod ui)
qed

lemma bevies_held_entries:
  assumes held: "bevies_held archive zb cps stored" and i: "i < length stored"
  shows "read_zip_entry_bytes archive (segment_name zb (word_of_nat (i div unat cps)) @ ''.index'') =
      Inr (packed_index index_entry (segment_chunks cps stored (i div unat cps)))"
    and "read_zip_entry_bytes archive (segment_name zb (word_of_nat (i div unat cps))) =
      Inr (concat (segment_chunks cps stored (i div unat cps)))"
  using held i by (auto simp: bevies_held_def segment_held_def)

lemma segment_chunks_nth:
  assumes cps: "0 < cps" and i: "i < length stored"
  shows "i mod unat cps < length (segment_chunks cps stored (i div unat cps))"
    and "segment_chunks cps stored (i div unat cps) ! (i mod unat cps) = stored ! i"
proof -
  have "0 < unat cps" using cps by (simp add: word_less_nat_alt)
  then have m: "i mod unat cps < unat cps" by simp
  have e: "i div unat cps * unat cps + i mod unat cps = i" by simp
  then have "i mod unat cps < length stored - i div unat cps * unat cps" using i by linarith
  with m show "i mod unat cps < length (segment_chunks cps stored (i div unat cps))"
    by (simp add: segment_chunks_def)
  show "segment_chunks cps stored (i div unat cps) ! (i mod unat cps) = stored ! i"
    using m e less_imp_le [OF le_less_trans [OF div_times_less_eq_dividend i]]
    by (simp add: segment_chunks_def)
qed

lemma bevies_held_bounds:
  assumes held: "bevies_held archive zb cps stored" and i: "i < length stored"
  defines "seg \<equiv> segment_chunks cps stored (i div unat cps)"
  obtains a b where
    "chunk_bounds_from_index oc (packed_index index_entry seg) (word_of_nat (i mod unat cps)) =
       Inr (a, b)"
    and "unat b \<le> length (concat seg)"
    and "subrange (concat seg) (unat a) (unat b) = stored ! i"
    and "a = b \<longleftrightarrow> stored ! i = []"
proof -
  have cps: "0 < cps" using held by (simp add: bevies_held_def)
  note j = segment_chunks_nth [OF cps i, folded seg_def]
  have "length seg \<le> unat cps" by (simp add: seg_def segment_chunks_def)
  then have "12 * length seg < 2 ^ 64" using held by (simp add: bevies_held_def)
  moreover have "length (concat seg) < 2 ^ 63"
    using held length_concat_part [of "unat cps" "i div unat cps * unat cps" stored]
    by (simp add: bevies_held_def seg_def segment_chunks_def)
  moreover have "length (seg ! (i mod unat cps)) < 2 ^ 32"
    using held i by (simp add: bevies_held_def list_all_length j)
  ultimately obtain a b where
    ab: "chunk_bounds_from_index oc (packed_index index_entry seg) (word_of_nat (i mod unat cps)) =
       Inr (a, b)"
    and b: "unat b \<le> length (concat seg)"
    and len: "unat b - unat a = length (seg ! (i mod unat cps))" and le: "unat a \<le> unat b"
    and sub: "subrange (concat seg) (unat a) (unat b) = seg ! (i mod unat cps)"
    using bevy.packed_bounds [OF j(1), of oc] by blast
  have "a = b \<longleftrightarrow> stored ! i = []"
    using len le j(2) by (auto simp: word_unat_eq_iff)
  with ab b sub j(2) show thesis by (intro that) auto
qed

lemma length_packed_index [simp]: "length (packed_index index_entry cs) = 12 * length cs"
proof -
  have "length (packed_index index_entry cs) = 12 * length (pack_entries 0 cs)"
    unfolding packed_index_def by (rule length_concat_fixed) auto
  then show ?thesis by simp
qed

end
