(* ===== verification/Image_Content.thy ===== *)
theory Image_Content
  imports Reader_Facts Bevy_Layout
begin

text \<open>
  The content of the image stream, from both sides. The reading side:
  \<open>read_image_stream_content\<close> hands the caller pieces that, joined, are the declared number of
  stream bytes. The writing side: a reference writer stores chunks the way the AFF4 standard
  lays them out (bevies of chunks with an index), and reading gives the written bytes back.
\<close>

section \<open>The stream of pieces\<close>

text \<open>The pieces a content loop hands out do not depend on what the caller does with them.\<close>

lemma content_loop_sink:
  "content_loop f oc T sink idxs produced s =
     (case content_loop f oc T (\<lambda>ps p. ps @ [p]) idxs produced [] of
        (ps, res) \<Rightarrow> (foldl sink s ps, res))"
proof -
  have acc: "content_loop f oc T (\<lambda>ps p. ps @ [p]) idxs produced qs =
      (case content_loop f oc T (\<lambda>ps p. ps @ [p]) idxs produced [] of (ps, res) \<Rightarrow> (qs @ ps, res))"
    for idxs produced qs
  proof (induction idxs arbitrary: produced qs)
    case Nil
    then show ?case by simp
  next
    case (Cons i js)
    show ?case
      apply (simp add: Let_def split: sum.split)
      apply (intro allI impI)
      apply (subst Cons.IH)
      apply (subst (2) Cons.IH)
      apply (simp split: prod.split)
      done
  qed
  show ?thesis
  proof (induction idxs arbitrary: produced s)
    case Nil
    then show ?case by simp
  next
    case (Cons i js)
    show ?case
      apply (simp add: Let_def split: sum.split)
      apply (intro allI impI)
      apply (subst Cons.IH)
      apply (subst (2) acc)
      apply (simp split: prod.split)
      done
  qed
qed

lemma concat_fixed_length: "(\<And>c. c \<in> set cs \<Longrightarrow> length c = n) \<Longrightarrow> length (concat cs) = n * length cs"
  by (induction cs) auto

text \<open>Reading full chunks one after the other cuts the content at the declared size.\<close>

lemma content_loop_full:
  assumes chunks: "list_all2 (\<lambda>i c. f i = Inr c) idxs cs"
    and produced: "produced \<le> T"
  shows "\<exists>ps. content_loop f oc T (\<lambda>ps p. ps @ [p]) idxs produced qs = (qs @ ps, Inr ()) \<and>
    concat ps = take (unat T - unat produced) (concat cs)"
  using assms
proof (induction arbitrary: produced qs rule: list_all2_induct)
  case Nil
  then show ?case by simp
next
  case (Cons i js c cs)
  let ?k = "min (length c) (unat (T - produced))"
  have le: "unat produced \<le> unat T" using Cons.prems by (simp add: word_le_nat_alt)
  have rem: "unat (T - produced) = unat T - unat produced"
    using Cons.prems by (simp add: unat_sub)
  have "unat T < 2 ^ 64" using unat_bound [of T] by simp
  then have fits: "unat produced + ?k < 2 ^ 64" using rem le by linarith
  then have uk: "unat (word_of_nat ?k :: u64) = ?k" by simp
  have up: "unat (produced + word_of_nat ?k) = unat produced + ?k"
    using fits uk by (subst unat_add_small) auto
  have le': "produced + word_of_nat ?k \<le> T"
    using up rem le by (simp add: word_le_nat_alt)
  have pa: "plain_add oc produced (word_of_nat ?k) =
      (Inr (produced + word_of_nat ?k) :: u64 aff4_result)"
    using fits uk by simp
  from Cons.IH [OF le', of "qs @ [take ?k c]"] obtain ps where
    ps: "content_loop f oc T (\<lambda>ps p. ps @ [p]) js (produced + word_of_nat ?k) (qs @ [take ?k c]) =
        (qs @ take ?k c # ps, Inr ())"
    and cc: "concat ps = take (unat T - (unat produced + ?k)) (concat cs)"
    by (auto simp: up)
  have "content_loop f oc T (\<lambda>ps p. ps @ [p]) (i # js) produced qs =
      (qs @ take ?k c # ps, Inr ())"
    using Cons.hyps(1) Cons.prems pa ps by (simp add: Let_def)
  moreover have "concat (take ?k c # ps) = take (unat T - unat produced) (concat (c # cs))"
    using cc rem by (auto simp: min_def)
  ultimately show ?case by blast
qed

section \<open>The content stream\<close>

definition chunk_count :: "aff4_reader \<Rightarrow> nat" where
  "chunk_count r = unat (div_ceil (rd_image_stream_size r) (rd_chunk_size r))"

text \<open>Every chunk the size needs can be read and has the full chunk size.\<close>

definition chunks_full :: "bool \<Rightarrow> codecs \<Rightarrow> aff4_reader \<Rightarrow> bool" where
  "chunks_full oc cd r \<longleftrightarrow>
     (\<forall>i < chunk_count r. case read_chunk oc cd r (word_of_nat i) of
        Inl _ \<Rightarrow> False | Inr c \<Rightarrow> length c = unat (rd_chunk_size r))"

lemma chunk_count_covers:
  assumes "0 < rd_chunk_size r"
  shows "unat (rd_image_stream_size r) \<le> unat (rd_chunk_size r) * chunk_count r"
    and "i < unat (rd_image_stream_size r) \<Longrightarrow> i div unat (rd_chunk_size r) < chunk_count r"
proof -
  let ?T = "unat (rd_image_stream_size r)" and ?c = "unat (rd_chunk_size r)"
  have c: "0 < ?c" using assms by (simp add: word_less_nat_alt)
  have n: "chunk_count r = (?T + ?c - 1) div ?c"
    using assms by (simp add: chunk_count_def div_ceil_nat)
  have "?T + ?c - 1 = ?c * chunk_count r + (?T + ?c - 1) mod ?c" by (simp add: n)
  moreover have "(?T + ?c - 1) mod ?c < ?c" using c by simp
  ultimately show le: "?T \<le> ?c * chunk_count r" by linarith
  assume "i < ?T"
  with le have "i < chunk_count r * ?c" by (simp add: mult.commute)
  then show "i div ?c < chunk_count r" by (rule less_mult_imp_div_less)
qed

lemma concat_nth_fixed:
  assumes len: "\<And>c. c \<in> set cs \<Longrightarrow> length c = n" and q: "q < n * length cs"
  shows "concat cs ! q = cs ! (q div n) ! (q mod n)"
proof -
  have n: "0 < n" using q by (cases n) auto
  have i: "q div n < length cs" using q by (metis less_mult_imp_div_less mult.commute)
  have t: "take n (drop (n * (q div n)) (concat cs)) = cs ! (q div n)"
    using concat_fixed_drop [of cs id n "q div n"] len i by simp
  have "concat cs ! q = concat cs ! (n * (q div n) + q mod n)" by simp
  also have "\<dots> = drop (n * (q div n)) (concat cs) ! (q mod n)"
  proof (rule nth_drop [symmetric])
    have "length (concat cs) = n * length cs" using len by (rule concat_fixed_length)
    moreover have "n * (q div n) \<le> q" by simp
    ultimately show "n * (q div n) \<le> length (concat cs)" using q by linarith
  qed
  also have "\<dots> = take n (drop (n * (q div n)) (concat cs)) ! (q mod n)"
    using n by simp
  finally show ?thesis by (simp add: t)
qed

lemma content_complete:
  assumes cs: "0 < rd_chunk_size r" and full: "chunks_full oc cd r"
  obtains ps where "\<And>sink s. read_image_stream_content oc cd r sink s = (foldl sink s ps, Inr ())"
    and "map Some (concat ps) = map (stream_byte oc cd r) [0..<unat (rd_image_stream_size r)]"
proof -
  let ?T = "rd_image_stream_size r" and ?c = "unat (rd_chunk_size r)" and ?n = "chunk_count r"
  define chunk where "chunk i = (case read_chunk oc cd r (word_of_nat i) of
      Inr c \<Rightarrow> c | Inl _ \<Rightarrow> [])" for i
  have read: "read_chunk oc cd r (word_of_nat i) = Inr (chunk i) \<and> length (chunk i) = ?c"
    if "i < ?n" for i
    using full that by (auto simp: chunks_full_def chunk_def split: sum.splits)
  let ?cs = "map chunk [0..<?n]"
  have "list_all2 (\<lambda>i c. read_chunk oc cd r i = Inr c) (map word_of_nat [0..<?n]) ?cs"
    by (rule list_all2_all_nthI) (simp_all add: read)
  from content_loop_full [OF this word_zero_le, of oc ?T "[]"] obtain ps where
    ps: "content_loop (read_chunk oc cd r) oc ?T (\<lambda>ps p. ps @ [p]) (map word_of_nat [0..<?n]) 0 [] =
        (ps, Inr ())" and cc: "concat ps = take (unat ?T) (concat ?cs)"
    by auto
  have "rd_chunk_size r \<noteq> 0" using cs by auto
  then have run: "read_image_stream_content oc cd r sink s = (foldl sink s ps, Inr ())" for sink s
    using ps content_loop_sink [of "read_chunk oc cd r" oc ?T sink "map word_of_nat [0..<?n]" 0 s]
    by (simp add: read_image_stream_content_def chunk_count_def Let_def)
  have len: "\<And>c. c \<in> set ?cs \<Longrightarrow> length c = ?c" using read by auto
  have total: "unat ?T \<le> ?c * length ?cs" using chunk_count_covers [OF cs] by simp
  have at: "stream_byte oc cd r q = Some (concat ps ! q)" if q: "q < unat ?T" for q
  proof -
    have i: "q div ?c < ?n" using chunk_count_covers(2) [OF cs] q by simp
    have "0 < ?c" using cs by (simp add: word_less_nat_alt)
    then have "q mod ?c < length (chunk (q div ?c))" using read [OF i] by simp
    then have "stream_byte oc cd r q = Some (chunk (q div ?c) ! (q mod ?c))"
      using read [OF i] by (simp add: stream_byte_def)
    moreover have "concat ps ! q = ?cs ! (q div ?c) ! (q mod ?c)"
      using concat_nth_fixed [of ?cs ?c q, OF len] q total cc by simp
    ultimately show ?thesis using i by simp
  qed
  have "length (concat ps) = unat ?T"
    using total concat_fixed_length [of ?cs ?c, OF len] by (simp add: cc)
  then have "map Some (concat ps) = map (stream_byte oc cd r) [0..<unat ?T]"
    by (intro nth_equalityI) (auto simp: at)
  with run show thesis by (rule that)
qed

section \<open>The content interface\<close>

text \<open>
  What the audit needs of a source of content: \<open>stream\<close> hands a sink, one after the other, pieces
  that join to \<open>content\<close>, and ends without an error.
\<close>

locale content_source =
  fixes stream :: "'r \<Rightarrow> ('s \<Rightarrow> bytes \<Rightarrow> 's) \<Rightarrow> 's \<Rightarrow> 's \<times> unit aff4_result"
    and content :: "'r \<Rightarrow> bytes"
    and ok :: "'r \<Rightarrow> bool"
  assumes stream_pieces:
    "ok r \<Longrightarrow> \<exists>ps. concat ps = content r \<and> (\<forall>sink s. stream r sink s = (foldl sink s ps, Inr ()))"
begin

text \<open>A sink whose result depends on the joined pieces only computes that result of the content.\<close>

lemma stream_result:
  assumes "ok r" and "\<And>ps. out (foldl sink s ps) = f (concat ps)"
  obtains s' where "stream r sink s = (s', Inr ())" and "out s' = f (content r)"
  using stream_pieces [OF assms(1)] assms(2) by metis

end

definition image_content :: "bool \<Rightarrow> codecs \<Rightarrow> aff4_reader \<Rightarrow> bytes" where
  "image_content oc cd r =
     map (\<lambda>q. case stream_byte oc cd r q of None \<Rightarrow> 0 | Some b \<Rightarrow> b)
       [0..<unat (rd_image_stream_size r)]"

interpretation image: content_source "read_image_stream_content oc cd" "image_content oc cd"
    "\<lambda>r. 0 < rd_chunk_size r \<and> chunks_full oc cd r" for oc cd
proof unfold_locales
  fix r
  assume "0 < rd_chunk_size r \<and> chunks_full oc cd r"
  then obtain ps where
    run: "\<And>sink (s :: 'a). read_image_stream_content oc cd r sink s = (foldl sink s ps, Inr ())"
    and ps: "map Some (concat ps) = map (stream_byte oc cd r) [0..<unat (rd_image_stream_size r)]"
    using content_complete by blast
  have "image_content oc cd r = map (\<lambda>b. case b of None \<Rightarrow> 0 | Some b \<Rightarrow> b) (map Some (concat ps))"
    by (simp add: image_content_def ps o_def)
  then have "concat ps = image_content oc cd r" by (simp add: o_def)
  with run show "\<exists>ps. concat ps = image_content oc cd r \<and>
      (\<forall>sink (s :: 'a). read_image_stream_content oc cd r sink s = (foldl sink s ps, Inr ()))" by blast
qed

section \<open>Chunks of a laid-out image\<close>

abbreviation chunks_held :: "aff4_reader \<Rightarrow> bytes list \<Rightarrow> bool" where
  "chunks_held r stored \<equiv>
     bevies_held (rd_archive r) (rd_zip_base r) (rd_chunks_per_segment r) stored"

text \<open>What a stored chunk stands for: nothing stored is a chunk of zeros, a full one is verbatim.\<close>

definition chunk_of :: "codecs \<Rightarrow> aff4_reader \<Rightarrow> bytes \<Rightarrow> bytes aff4_result" where
  "chunk_of cd r stored =
     (if stored = [] then
        and_then (with_capacity (rd_chunk_size r))
          (\<lambda>_. Inr (replicate (unat (rd_chunk_size r)) 0))
      else if length stored = unat (rd_chunk_size r) then Inr stored
      else decompress cd (rd_chunk_size r) (rd_compression r) stored)"

lemma read_chunk_held:
  assumes held: "chunks_held r stored" and i: "i < length stored"
  shows "read_chunk oc cd r (word_of_nat i) = chunk_of cd r (stored ! i)"
proof -
  define k where "k = i div unat (rd_chunks_per_segment r)"
  define j where "j = i mod unat (rd_chunks_per_segment r)"
  note ix = chunk_index_split [OF held i, folded k_def j_def]
  define seg where "seg = segment_chunks (rd_chunks_per_segment r) stored k"
  note seg = bevies_held_entries [OF held i, folded k_def, folded seg_def]
  obtain a b where
    ab: "chunk_bounds_from_index oc (packed_index index_entry seg) (word_of_nat j) = Inr (a, b)"
    and b: "unat b \<le> length (concat seg)"
    and sub: "subrange (concat seg) (unat a) (unat b) = stored ! i"
    and sparse: "a = b \<longleftrightarrow> stored ! i = []"
    by (rule bevies_held_bounds [OF held i, of oc, folded k_def j_def, folded seg_def])
  have cps0: "rd_chunks_per_segment r \<noteq> 0" using held by (auto simp: bevies_held_def)
  show ?thesis
  proof (cases "a = b")
    case True
    with sparse ab seg cps0 show ?thesis by (simp add: read_chunk_eq Let_def ix chunk_of_def)
  next
    case False
    with sparse ab seg cps0 b sub show ?thesis
      by (simp add: read_chunk_eq Let_def ix chunk_of_def)
  qed
qed

section \<open>A reference writer\<close>

text \<open>
  A writer stores a full chunk encoded when that is shorter, verbatim otherwise. The codec it
  uses is undone by the reader's decompression.
\<close>

definition store_chunk :: "(bytes \<Rightarrow> bytes) \<Rightarrow> bytes \<Rightarrow> bytes" where
  "store_chunk enc chunk =
     (let z = enc chunk in if z \<noteq> [] \<and> length z < length chunk then z else chunk)"

definition encodes :: "codecs \<Rightarrow> aff4_reader \<Rightarrow> (bytes \<Rightarrow> bytes) \<Rightarrow> bool" where
  "encodes cd r enc \<longleftrightarrow>
     (\<forall>c. length c = unat (rd_chunk_size r) \<longrightarrow>
        decompress cd (rd_chunk_size r) (rd_compression r) (enc c) = Inr c)"

lemma chunk_of_store:
  assumes "encodes cd r enc" and "length c = unat (rd_chunk_size r)" and "0 < rd_chunk_size r"
  shows "chunk_of cd r (store_chunk enc c) = Inr c"
proof -
  have "c \<noteq> []" using assms(2,3) by (auto simp: word_less_nat_alt)
  then show ?thesis
    using assms by (auto simp: chunk_of_def store_chunk_def Let_def encodes_def)
qed

text \<open>The content of a written image, position by position.\<close>

lemma written_stream:
  assumes held: "chunks_held r (map (store_chunk enc) chunks)"
    and enc: "encodes cd r enc" and cs: "0 < rd_chunk_size r"
    and len: "list_all (\<lambda>c. length c = unat (rd_chunk_size r)) chunks"
    and q: "q < length (concat chunks)"
  shows "stream_byte oc cd r q = Some (concat chunks ! q)"
proof -
  let ?c = "unat (rd_chunk_size r)"
  have full: "length c = ?c" if "c \<in> set chunks" for c using len that by (auto simp: list_all_iff)
  have lc: "length (concat chunks) = ?c * length chunks" using full by (rule concat_fixed_length)
  have i: "q div ?c < length chunks" using q lc by (metis less_mult_imp_div_less mult.commute)
  have pos: "0 < ?c" using cs by (simp add: word_less_nat_alt)
  have "read_chunk oc cd r (word_of_nat (q div ?c)) = Inr (chunks ! (q div ?c))"
    using read_chunk_held [OF held, of "q div ?c" oc cd] i
      chunk_of_store [OF enc full cs] by simp
  moreover have "length (chunks ! (q div ?c)) = ?c" using full i by simp
  ultimately show ?thesis
    using pos concat_nth_fixed [of chunks ?c q, OF full] q lc
    by (simp add: stream_byte_def)
qed

text \<open>Streamed, a written image is its plaintext, cut at the declared size of the stream.\<close>

lemma written_full:
  assumes held: "chunks_held r (map (store_chunk enc) chunks)"
    and enc: "encodes cd r enc" and cs: "0 < rd_chunk_size r"
    and len: "list_all (\<lambda>c. length c = unat (rd_chunk_size r)) chunks"
    and total: "unat (rd_image_stream_size r) \<le> length (concat chunks)"
  shows "chunks_full oc cd r"
proof -
  let ?c = "unat (rd_chunk_size r)"
  have full: "length c = ?c" if "c \<in> set chunks" for c using len that by (auto simp: list_all_iff)
  have pos: "0 < ?c" using cs by (simp add: word_less_nat_alt)
  have "unat (rd_image_stream_size r) \<le> ?c * length chunks"
    using total concat_fixed_length [of chunks ?c] full by simp
  then have "unat (rd_image_stream_size r) + ?c - 1 \<le> (?c - 1) + ?c * length chunks" by linarith
  then have "(unat (rd_image_stream_size r) + ?c - 1) div ?c \<le> ((?c - 1) + ?c * length chunks) div ?c"
    by (rule div_le_mono)
  moreover have "((?c - 1) + ?c * length chunks) div ?c = length chunks"
    using pos by (subst div_mult_self2) simp_all
  ultimately have n: "chunk_count r \<le> length chunks" using cs by (simp add: chunk_count_def div_ceil_nat)
  have "read_chunk oc cd r (word_of_nat i) = Inr (chunks ! i) \<and> length (chunks ! i) = ?c"
    if "i < chunk_count r" for i
    using read_chunk_held [OF held, of i oc cd] chunk_of_store [OF enc full cs] that n full by simp
  then show ?thesis by (auto simp: chunks_full_def)
qed

lemma written_content:
  assumes "chunks_held r (map (store_chunk enc) chunks)" and "encodes cd r enc" and "0 < rd_chunk_size r"
    and "list_all (\<lambda>c. length c = unat (rd_chunk_size r)) chunks"
    and "unat (rd_image_stream_size r) \<le> length (concat chunks)"
  shows "image_content oc cd r = take (unat (rd_image_stream_size r)) (concat chunks)"
  using written_stream [OF assms(1-4), of _ oc] assms(5)
  by (intro nth_equalityI) (auto simp: image_content_def)

end
