(* ===== verification/Fixture_Facts.thy ===== *)
theory Fixture_Facts
  imports Fixtures Image_Content
begin

text \<open>
  The fixture images, opened and read back for every geometry and every content: the turtle of
  an image stream is parsed symbolically, with its numbers left as variables.
\<close>

section \<open>Text written and read back\<close>

lemma string_bytes_round_trip [simp]: "string_of_bytes (bytes_of_string s) = s"
proof -
  have "char_of (unat (word_of_nat (of_char c) :: u8)) = (c :: char)" for c
  proof -
    have "(of_char c :: nat) < 256" by (rule nat_of_char_less_256)
    then have "unat (word_of_nat (of_char c) :: u8) = of_char c"
      by (simp add: unat_of_nat take_bit_nat_eq_self)
    then show ?thesis by simp
  qed
  then show ?thesis by (simp add: string_of_bytes_def bytes_of_string_def comp_def map_idI)
qed

definition ascii_text :: "string \<Rightarrow> bool" where
  "ascii_text s \<longleftrightarrow> list_all (\<lambda>c. ascii c < 128) s"

lemma utf8_valid_ascii: "list_all (\<lambda>n. n < 128) ns \<Longrightarrow> utf8_valid ns"
  by (induction ns) auto

lemma utf8_valid_text: "ascii_text s \<Longrightarrow> utf8_valid (map unat (bytes_of_string s))"
proof (rule utf8_valid_ascii)
  assume s: "ascii_text s"
  have "unat (word_of_nat (ascii c) :: u8) < 128" if "ascii c < 128" for c
    using that by (simp add: unat_of_nat take_bit_nat_eq_self)
  with s show "list_all (\<lambda>n. n < 128) (map unat (bytes_of_string s))"
    by (auto simp: ascii_text_def bytes_of_string_def list_all_iff)
qed

lemma ascii_text_append [simp]: "ascii_text (s @ t) \<longleftrightarrow> ascii_text s \<and> ascii_text t"
  by (simp add: ascii_text_def)

lemma ascii_text_dec [simp]: "ascii_text (dec n)"
  using dec_digits [of n] by (auto simp: ascii_text_def list_all_iff is_ascii_digit_def)

lemma read_text_entry:
  "map_of es ''information.turtle'' = Some (bytes_of_string s) \<Longrightarrow> ascii_text s \<Longrightarrow>
   information_turtle (archive_of es) = Inr s"
  by (simp add: information_turtle_def by_name_def archive_of_def read_to_string_def
      utf8_valid_text)

section \<open>Splitting texts put together from words\<close>

lemma find_str_extend: "find_str s p = Some i \<Longrightarrow> find_str (s @ t) p = Some i"
proof (induction s arbitrary: i)
  case Nil
  then show ?case by (auto split: if_splits)
next
  case (Cons c s)
  show ?case
  proof (cases "starts_with (c # s) p")
    case True
    then obtain u where u: "c # s = p @ u" by (auto simp: starts_with_iff)
    then have "c # s @ t = p @ u @ t" by simp
    then have "starts_with (c # s @ t) p" by (metis starts_with_append)
    with True Cons.prems show ?thesis by simp
  next
    case False
    with Cons.prems obtain k where k: "find_str s p = Some k" "i = Suc k" by auto
    have "length p \<le> length (c # s)" using find_str_SomeD [OF k(1)] by simp
    with False have "\<not> starts_with (c # s @ t) p"
      by (auto simp: starts_with_iff append_eq_append_conv2 Cons_eq_append_conv)
    with k Cons.IH show ?thesis by simp
  qed
qed

lemma split_str_piece:
  assumes "find_str (a @ p) p = Some (length a)" and "p \<noteq> []"
  shows "split_str (a @ p @ t) p = a # split_str t p"
proof -
  have "find_str (a @ p @ t) p = Some (length a)"
    using find_str_extend [OF assms(1), of t] by simp
  then show ?thesis using assms(2) by (subst split_str.simps) simp
qed

lemma find_str_no_dot: "CHR ''.'' \<notin> set a \<Longrightarrow> find_str (a @ '' . '') '' . '' = Some (length a)"
proof (induction a)
  case Nil
  then show ?case by simp
next
  case (Cons x a)
  then have "\<not> starts_with (x # a @ '' . '') '' . ''" by (cases a) auto
  with Cons show ?case by simp
qed

lemma split_whitespace_words:
  "list_all (\<lambda>w. w = [] \<or> token w) ws \<Longrightarrow>
   split_whitespace (join_with '' '' ws) = filter (\<lambda>w. w \<noteq> []) ws"
proof (induction "'' ''" ws rule: join_with.induct)
  case 1
  then show ?case by simp
next
  case (2 x)
  then show ?case using split_whitespace_last [of x] by auto
next
  case (3 x y ys)
  then have IH: "split_whitespace (join_with '' '' (y # ys)) = filter (\<lambda>w. w \<noteq> []) (y # ys)"
    by simp
  show ?case
  proof (cases "x = []")
    case True
    then show ?thesis using IH by (simp add: split_whitespace_space)
  next
    case False
    then have "token x" using "3.prems" by simp
    then show ?thesis using IH False by (simp add: split_whitespace_token)
  qed
qed

lemma contains_words:
  "CHR '' '' \<notin> set w \<Longrightarrow> w \<noteq> [] \<Longrightarrow> contains (join_with '' '' ws) w \<Longrightarrow> \<exists>x \<in> set ws. contains x w"
  by (rule contains_join) auto

lemma contains_set: "contains s w \<Longrightarrow> set w \<subseteq> set s"
  by (auto simp: contains_iff)

lemma dec_no_char: "\<not> is_ascii_digit c \<Longrightarrow> c \<notin> set (dec n)"
  using dec_digits [of n] by (auto simp: list_all_iff)

lemma dec_not_contains: "c \<in> set w \<Longrightarrow> \<not> is_ascii_digit c \<Longrightarrow> \<not> contains (dec n) w"
  using contains_set dec_no_char by blast

lemma dec_neq: "c \<in> set w \<Longrightarrow> \<not> is_ascii_digit c \<Longrightarrow> dec n \<noteq> w"
  using dec_no_char by blast

lemma leading_digits_dec [simp]: "leading_digits (dec n) = dec n"
proof -
  have "trim_start_matches (\<lambda>c. c = CHR 0x22) (dec n) = dec n"
    using dec_no_char [of "CHR 0x22" n]
    by (cases "dec n") (auto simp: trim_start_matches_def is_ascii_digit_def)
  then show ?thesis using dec_digits [of n] by (simp add: leading_digits_def takeWhile_eq_all_conv list_all_iff)
qed

section \<open>The turtle of an image stream\<close>

definition prefix_1 :: string where
  "prefix_1 = ''@prefix rdf: <http://www.w3.org/1999/02/22-rdf-syntax-ns#>''"

definition prefix_2 :: string where
  "prefix_2 = ''@prefix aff4: <http://aff4.org/Schema#>''"

definition stream_words :: "nat \<Rightarrow> nat \<Rightarrow> nat \<Rightarrow> string list" where
  "stream_words n cs cps =
     [''<aff4://issen-test-stream>'', ''rdf:type'', ''aff4:ImageStream'', [], [],
      ''aff4:size'', dec n, [], [],
      ''aff4:chunkSize'', dec cs, [], [],
      ''aff4:chunksInSegment'', dec cps, [], [],
      ''aff4:compressionMethod'', ''aff4:NullCompressor'']"

definition stream_turtle :: "nat \<Rightarrow> nat \<Rightarrow> nat \<Rightarrow> string" where
  "stream_turtle n cs cps =
     turtle_prefixes @ image_stream_turtle stream_arn_const n cs cps ''aff4:NullCompressor''"

lemma normalize_append: "normalize_turtle (s @ t) = normalize_turtle s @ normalize_turtle t"
  by (simp add: normalize_turtle_def)

lemma normalize_id:
  "set s \<inter> {CHR 0x0A, CHR 0x0D, CHR 0x09, CHR '';''} = {} \<Longrightarrow> normalize_turtle s = s"
  unfolding normalize_turtle_def by (intro map_idI) auto

lemma normalize_dec [simp]: "normalize_turtle (dec n) = dec n"
  by (rule normalize_id) (use dec_no_char in \<open>auto simp: is_ascii_digit_def\<close>)

lemma normalize_stream_turtle:
  "normalize_turtle (stream_turtle n cs cps) =
     prefix_1 @ '' . '' @ prefix_2 @ '' . '' @ join_with '' '' (stream_words n cs cps) @ '' . ''"
proof -
  have pre: "normalize_turtle turtle_prefixes = prefix_1 @ '' . '' @ prefix_2 @ '' . ''"
    by code_simp
  define t1 where "t1 = ''<'' @ stream_arn_const @ ''> rdf:type aff4:ImageStream ; aff4:size ''"
  define t2 where "t2 = '' ; aff4:chunkSize ''"
  define t3 where "t3 = '' ; aff4:chunksInSegment ''"
  define t4 where "t4 = '' ; aff4:compressionMethod aff4:NullCompressor .'' @ line_feed"
  have parts:
    "normalize_turtle t1 = ''<aff4://issen-test-stream> rdf:type aff4:ImageStream   aff4:size ''"
    "normalize_turtle t2 = ''   aff4:chunkSize ''"
    "normalize_turtle t3 = ''   aff4:chunksInSegment ''"
    "normalize_turtle t4 = ''   aff4:compressionMethod aff4:NullCompressor . ''"
    unfolding t1_def t2_def t3_def t4_def by code_simp+
  have "image_stream_turtle stream_arn_const n cs cps ''aff4:NullCompressor'' =
      t1 @ dec n @ t2 @ dec cs @ t3 @ dec cps @ t4"
    by (simp add: image_stream_turtle_def t1_def t2_def t3_def t4_def)
  then have "normalize_turtle (stream_turtle n cs cps) =
      prefix_1 @ '' . '' @ prefix_2 @ '' . '' @
      ''<aff4://issen-test-stream> rdf:type aff4:ImageStream   aff4:size '' @ dec n @
      ''   aff4:chunkSize '' @ dec cs @ ''   aff4:chunksInSegment '' @ dec cps @
      ''   aff4:compressionMethod aff4:NullCompressor . ''"
    by (simp only: stream_turtle_def normalize_append pre parts normalize_dec append_assoc)
  then show ?thesis by (simp add: stream_words_def)
qed

lemma stream_turtle_blocks:
  "turtle_blocks (stream_turtle n cs cps) =
     [prefix_1, prefix_2, join_with '' '' (stream_words n cs cps), []]"
proof -
  have p1: "find_str (prefix_1 @ '' . '') '' . '' = Some (length prefix_1)" by code_simp
  have p2: "find_str (prefix_2 @ '' . '') '' . '' = Some (length prefix_2)" by code_simp
  have dot: "CHR ''.'' \<notin> set (dec k)" for k by (rule dec_no_char) code_simp
  then have "CHR ''.'' \<notin> set (join_with '' '' (stream_words n cs cps))"
    by (simp add: stream_words_def)
  from find_str_no_dot [OF this] have "split_str (join_with '' '' (stream_words n cs cps) @ '' . '' @ []) '' . '' =
      [join_with '' '' (stream_words n cs cps), []]"
    by (subst split_str_piece) (simp_all add: split_str_None contains_def)
  then show ?thesis
    unfolding turtle_blocks_def normalize_stream_turtle
    by (simp only: split_str_piece [OF p1] split_str_piece [OF p2] list.distinct not_False_eq_True
        append_Nil2 simp_thms)
qed

lemma stream_block_lacks:
  assumes w: "CHR '' '' \<notin> set w" "\<not> list_all is_ascii_digit w"
    and lacks: "list_all (\<lambda>x. \<not> contains x w)
      [''<aff4://issen-test-stream>'', ''rdf:type'', ''aff4:ImageStream'', [], ''aff4:size'',
       ''aff4:chunkSize'', ''aff4:chunksInSegment'', ''aff4:compressionMethod'',
       ''aff4:NullCompressor'']"
  shows "\<not> contains (join_with '' '' (stream_words n cs cps)) w"
proof
  assume "contains (join_with '' '' (stream_words n cs cps)) w"
  moreover have "w \<noteq> []" using w(2) by auto
  ultimately obtain x where x: "x \<in> set (stream_words n cs cps)" "contains x w"
    using contains_words w(1) by blast
  have "\<not> contains (dec k) w" for k
    using w(2) dec_not_contains by (auto simp: list_all_iff)
  with x lacks show False by (auto simp: stream_words_def)
qed

lemma stream_block_tokens:
  "split_whitespace (join_with '' '' (stream_words n cs cps)) =
     [''<aff4://issen-test-stream>'', ''rdf:type'', ''aff4:ImageStream'',
      ''aff4:size'', dec n, ''aff4:chunkSize'', dec cs, ''aff4:chunksInSegment'', dec cps,
      ''aff4:compressionMethod'', ''aff4:NullCompressor'']"
proof -
  have toks: "list_all token [''<aff4://issen-test-stream>'', ''rdf:type'', ''aff4:ImageStream'',
      ''aff4:size'', ''aff4:chunkSize'', ''aff4:chunksInSegment'', ''aff4:compressionMethod'',
      ''aff4:NullCompressor'']"
    by code_simp
  have "list_all (\<lambda>w. w = [] \<or> token w) (stream_words n cs cps)"
    using toks by (simp add: stream_words_def)
  from split_whitespace_words [OF this] show ?thesis
    by (simp add: stream_words_def)
qed

lemma dec_eq_iff: "\<not> list_all is_ascii_digit w \<Longrightarrow> dec n = w \<longleftrightarrow> False"
  using dec_digits by metis

lemma stream_block_pred:
  "extract_pred_u64 (join_with '' '' (stream_words n cs cps)) ''aff4:size'' =
     ok_or (BadFormat (''bad integer after aff4:size: '' @ dec n)) (parse_u64 (dec n))"
  "extract_pred_u64 (join_with '' '' (stream_words n cs cps)) ''aff4:chunkSize'' =
     ok_or (BadFormat (''bad integer after aff4:chunkSize: '' @ dec cs)) (parse_u64 (dec cs))"
  "extract_pred_u64 (join_with '' '' (stream_words n cs cps)) ''aff4:chunksInSegment'' =
     ok_or (BadFormat (''bad integer after aff4:chunksInSegment: '' @ dec cps)) (parse_u64 (dec cps))"
proof -
  have no: "\<not> list_all is_ascii_digit ''aff4:size''" "\<not> list_all is_ascii_digit ''aff4:chunkSize''"
    "\<not> list_all is_ascii_digit ''aff4:chunksInSegment''"
    by code_simp+
  note neq = no [THEN dec_eq_iff]
  show "extract_pred_u64 (join_with '' '' (stream_words n cs cps)) ''aff4:size'' =
     ok_or (BadFormat (''bad integer after aff4:size: '' @ dec n)) (parse_u64 (dec n))"
    by (simp add: extract_pred_u64_def stream_block_tokens windows2_def neq Let_def)
  show "extract_pred_u64 (join_with '' '' (stream_words n cs cps)) ''aff4:chunkSize'' =
     ok_or (BadFormat (''bad integer after aff4:chunkSize: '' @ dec cs)) (parse_u64 (dec cs))"
    by (simp add: extract_pred_u64_def stream_block_tokens windows2_def neq Let_def)
  show "extract_pred_u64 (join_with '' '' (stream_words n cs cps)) ''aff4:chunksInSegment'' =
     ok_or (BadFormat (''bad integer after aff4:chunksInSegment: '' @ dec cps)) (parse_u64 (dec cps))"
    by (simp add: extract_pred_u64_def stream_block_tokens windows2_def neq Let_def)
qed

lemma stream_block_iri:
  "first_iri (join_with '' '' (stream_words n cs cps)) = Some stream_arn_const"
proof -
  let ?arn = "''aff4://issen-test-stream''"
  obtain t where t: "join_with '' '' (stream_words n cs cps) = CHR ''<'' # ?arn @ ''>'' @ t"
    by (simp add: stream_words_def)
  have "find_str (?arn @ ''>'' @ t) ''>'' = Some (length ?arn)"
    by (rule find_str_fresh) simp_all
  then show ?thesis
    unfolding t first_iri_def stream_arn_const_def by (simp add: Let_def subrange_def)
qed

lemma stream_block_hashes: "declared_hashes (join_with '' '' (stream_words n cs cps)) = []"
proof -
  have "\<not> list_all is_ascii_digit ''aff4:hash''" by code_simp
  then have neq: "''aff4:hash'' \<noteq> dec k" for k using dec_eq_iff [of "''aff4:hash''" k] by auto
  have "''aff4:hash'' \<notin> set (split_whitespace (join_with '' '' (stream_words n cs cps)))"
    by (simp add: stream_block_tokens neq)
  then show ?thesis
    unfolding declared_hashes_def hashes_from_def by (auto simp: in_set_conv_nth)
qed

lemma stream_block_compression: "detect_compression (join_with '' '' (stream_words n cs cps)) = Null"
proof -
  have "\<not> contains (join_with '' '' (stream_words n cs cps)) w"
    if "w \<in> {''snappy'', ''google.com/p/snappy'', ''rfc1950'', ''DeflateCompressor'', ''lz4'',
      ''github.com/lz4''}" for w
    by (rule stream_block_lacks) (use that in \<open>elim insertE emptyE; hypsubst; code_simp\<close>)+
  then show ?thesis by (simp add: detect_compression_def)
qed

definition stream_meta_of :: "nat \<Rightarrow> nat \<Rightarrow> nat \<Rightarrow> stream_meta" where
  "stream_meta_of n cs cps =
     \<lparr>sm_stream_arn = stream_arn_const, sm_virtual_size = word_of_nat n,
      sm_image_stream_size = word_of_nat n, sm_chunk_size = word_of_nat cs,
      sm_chunks_per_segment = word_of_nat cps, sm_compression = Null, sm_image_hashes = [],
      sm_map_meta = None\<rparr>"

lemma ascii_stream_turtle: "ascii_text (stream_turtle n cs cps)"
proof -
  have pre: "ascii_text turtle_prefixes" "ascii_text (''<'' @ stream_arn_const @ ''> rdf:type aff4:ImageStream ; '')"
    "ascii_text ''aff4:size ''" "ascii_text '' ; ''" "ascii_text ''aff4:chunkSize ''"
    "ascii_text ''aff4:chunksInSegment ''" "ascii_text ''aff4:compressionMethod ''"
    "ascii_text ''aff4:NullCompressor''" "ascii_text ('' .'' @ line_feed)"
    by code_simp+
  show ?thesis
    unfolding stream_turtle_def image_stream_turtle_def using pre
    by (simp only: ascii_text_append ascii_text_dec simp_thms)
qed

lemma ascii_block_ok: "ascii_text t \<Longrightarrow> b \<in> set (turtle_blocks t) \<Longrightarrow> str_ok b"
  unfolding ascii_text_def by (rule str_ok_block [OF str_ok_ascii])

lemma parse_stream_turtle:
  assumes n: "n < 2 ^ 64" and cs: "cs < 2 ^ 64" and cps: "cps < 2 ^ 64"
  shows "parse_turtle (stream_turtle n cs cps) =
    (if cs = 0 then Inl (bad_format ''aff4:chunkSize must be > 0'')
     else if cps = 0 then Inl (bad_format ''aff4:chunksInSegment must be > 0'')
     else Inr (stream_meta_of n cs cps))"
proof -
  let ?B = "join_with '' '' (stream_words n cs cps)"
  have enc: "\<not> contains prefix_1 ''aff4:EncryptedStream''" "\<not> contains prefix_2 ''aff4:EncryptedStream''"
    and mp: "\<not> contains prefix_1 ''aff4:Map''" "\<not> contains prefix_2 ''aff4:Map''"
    and im: "\<not> contains prefix_1 ''ImageStream''" "\<not> contains prefix_2 ''ImageStream''"
    and nil: "\<not> contains [] ''aff4:EncryptedStream''" "\<not> contains [] ''aff4:Map''"
    by code_simp+
  have b: "\<not> contains ?B ''aff4:EncryptedStream''" "\<not> contains ?B ''aff4:Map''"
    by (rule stream_block_lacks; code_simp)+
  have "contains ?B ''ImageStream''"
  proof -
    have "?B = ''<aff4://issen-test-stream> rdf:type aff4:'' @ ''ImageStream'' @
        drop (length ''<aff4://issen-test-stream> rdf:type aff4:ImageStream'') ?B"
      by (simp add: stream_words_def)
    then show ?thesis unfolding contains_iff by blast
  qed
  then have "parse_turtle (stream_turtle n cs cps) = parse_image_stream_block ?B None"
    by (simp add: parse_turtle_def stream_turtle_blocks enc mp im nil b)
  also have "\<dots> = (if cs = 0 then Inl (bad_format ''aff4:chunkSize must be > 0'')
     else if cps = 0 then Inl (bad_format ''aff4:chunksInSegment must be > 0'')
     else Inr (stream_meta_of n cs cps))"
  proof -
    have p: "extract_pred_u64 ?B ''aff4:size'' = Inr (word_of_nat n)"
      "extract_pred_u64 ?B ''aff4:chunkSize'' = Inr (word_of_nat cs)"
      "extract_pred_u64 ?B ''aff4:chunksInSegment'' = Inr (word_of_nat cps)"
      unfolding stream_block_pred parse_u64_dec using n cs cps by simp_all
    have z: "(word_of_nat k :: u64) = 0 \<longleftrightarrow> k = 0" if "k < 2 ^ 64" for k
      by (simp add: word_unat_eq_iff unat_of_nat_small [OF that])
    have "?B \<in> set (turtle_blocks (stream_turtle n cs cps))" by (simp add: stream_turtle_blocks)
    then have "str_ok ?B" by (rule ascii_block_ok [OF ascii_stream_turtle])
    then show ?thesis
      unfolding parse_image_stream_block_def extract_iri_eq [OF \<open>str_ok ?B\<close>] parse_image_hashes_eq
        stream_block_iri p ok_or_simps and_then_simps
        z [OF cs] z [OF cps] stream_block_hashes stream_block_compression stream_meta_of_def
      by (simp only: option.case Let_def fst_conv snd_conv)
  qed
  finally show ?thesis .
qed

section \<open>Opening a fixture\<close>

definition stream_reader :: "(string \<times> bytes) list \<Rightarrow> nat \<Rightarrow> nat \<Rightarrow> nat \<Rightarrow> aff4_reader" where
  "stream_reader es n cs cps =
     \<lparr>rd_archive = archive_of es, rd_zip_base = base_of (archive_of es) stream_arn_const,
      rd_virtual_size = word_of_nat n, rd_image_stream_size = word_of_nat n,
      rd_chunk_size = word_of_nat cs, rd_chunks_per_segment = word_of_nat cps,
      rd_compression = Null, rd_image_hashes = [], rd_pos = 0, rd_loaded_map = None\<rparr>"

lemma open_stream_archive:
  assumes zo: "zo backing = Inr (archive_of es)"
    and turtle: "map_of es ''information.turtle'' = Some (bytes_of_string (stream_turtle n cs cps))"
    and n: "n < 2 ^ 64" and cs: "cs < 2 ^ 64" and cps: "cps < 2 ^ 64"
  shows "open_reader zo sr backing =
    (if cs = 0 then Inl (bad_format ''aff4:chunkSize must be > 0'')
     else if cps = 0 then Inl (bad_format ''aff4:chunksInSegment must be > 0'')
     else Inr (stream_reader es n cs cps))"
proof -
  have z: "zip_archive_new zo backing = Inr (archive_of es)" by (simp add: zip_archive_new_def zo)
  have t: "information_turtle (archive_of es) = Inr (stream_turtle n cs cps)"
    by (rule read_text_entry [OF turtle ascii_stream_turtle])
  show ?thesis
    unfolding open_reader_def z t and_then_simps parse_stream_turtle [OF n cs cps]
    by (simp add: stream_meta_of_def stream_reader_def)
qed

lemma geometry_turtle:
  "map_of (geometry_entries cs cps) ''information.turtle'' =
     Some (bytes_of_string (stream_turtle 512 (unat cs) (unat cps)))"
  by (simp add: geometry_entries_def stream_turtle_def)

lemma single_chunk_turtle:
  "map_of (single_chunk_entries ''aff4:NullCompressor'' stored) ''information.turtle'' =
     Some (bytes_of_string (stream_turtle 512 512 1))"
  by (simp add: single_chunk_entries_def stream_turtle_def chunk_size_const_def)

section \<open>The single-chunk image\<close>

lemma length_padded_chunk [simp]: "length (padded_chunk data) = 512"
  by (simp add: padded_chunk_def chunk_size_const_def)

lemma chunks_bounded_small:
  assumes a: "rd_archive r = archive_of es" and null: "rd_compression r = Null"
    and small: "\<And>n d. (n, d) \<in> set es \<Longrightarrow> length d \<le> unat (rd_chunk_size r)"
  shows "chunks_bounded oc cd r"
  unfolding chunks_bounded_def
proof (intro allI impI)
  fix i c
  assume res: "read_chunk oc cd r i = Inr c"
  have entry: "length d \<le> unat (rd_chunk_size r)"
    if "read_zip_entry_bytes (rd_archive r) name = Inr d" for name d
  proof -
    from that a have "map_of es name = Some d"
      by (auto simp: read_zip_entry_bytes_def by_name_def archive_of_def read_to_end_def
          split: option.splits)
    then show ?thesis using small map_of_SomeD by metis
  qed
  from res null show "length c \<le> unat (rd_chunk_size r)"
    by (auto simp: read_chunk_eq Let_def split: if_splits dest!: entry)
qed

lemma store_chunk_id [simp]: "store_chunk id c = c"
  by (simp add: store_chunk_def)

lemma single_chunk_base:
  "base_of (archive_of (single_chunk_entries cmp stored)) stream_arn_const = zip_base_const"
proof -
  have "za_file_names (archive_of (single_chunk_entries cmp stored)) =
      [''information.turtle'', zip_base_const @ ''/00000000'', zip_base_const @ ''/00000000.index'']"
    by (simp add: archive_of_def single_chunk_entries_def)
  moreover have "find (is_base [''information.turtle'', zip_base_const @ ''/00000000'',
      zip_base_const @ ''/00000000.index''])
      [''aff4%3A%2F%2Fissen-test-stream'', stream_arn_const, zip_base_const] = Some zip_base_const"
    by code_simp
  moreover have "strip_prefix stream_arn_const ''aff4://'' = Some zip_base_const" by code_simp
  moreover have "''aff4%3A%2F%2F'' @ zip_base_const = ''aff4%3A%2F%2Fissen-test-stream''" by code_simp
  ultimately show ?thesis by (simp only: base_of_def Let_def option.case)
qed

lemma single_chunk_held:
  assumes len: "length stored = 512"
  shows "chunks_held (stream_reader (single_chunk_entries cmp stored) 512 512 1) [stored]"
proof -
  let ?es = "single_chunk_entries cmp stored"
  let ?r = "stream_reader ?es 512 512 1"
  have name: "segment_name (rd_zip_base ?r) (word_of_nat 0) = zip_base_const @ ''/00000000''"
  proof -
    have "hex08 0 = ''00000000''" by code_simp
    then show ?thesis by (simp add: stream_reader_def single_chunk_base segment_name_def)
  qed
  have ne: "zip_base_const @ ''/00000000'' \<noteq> ''information.turtle''"
    "zip_base_const @ ''/00000000.index'' \<noteq> ''information.turtle''"
    "zip_base_const @ ''/00000000.index'' \<noteq> zip_base_const @ ''/00000000''"
    by code_simp+
  have e1: "map_of ?es (zip_base_const @ ''/00000000'') = Some stored"
    using ne by (simp add: single_chunk_entries_def)
  have e2: "map_of ?es (zip_base_const @ ''/00000000.index'') = Some (index_entry 0 512)"
    using ne len by (simp add: single_chunk_entries_def)
  have seg: "segment_chunks (rd_chunks_per_segment ?r) [stored] 0 = [stored]"
    by (simp add: segment_chunks_def stream_reader_def)
  have "segment_held (rd_archive ?r) (rd_zip_base ?r) (rd_chunks_per_segment ?r) [stored] 0"
    unfolding segment_held_def seg name
    using read_archive_of [OF e1] read_archive_of [OF e2] len
    by (simp add: packed_index_def stream_reader_def)
  then show ?thesis
    using len by (simp add: bevies_held_def) (simp add: stream_reader_def)
qed

lemma single_chunk_disk:
  assumes len: "length stored = 512"
  defines "r \<equiv> stream_reader (single_chunk_entries ''aff4:NullCompressor'' stored) 512 512 1"
  shows "reader_ok r" and "chunks_bounded oc cd r"
    and "p < 512 \<Longrightarrow> disk_byte oc cd r p = Some (stored ! p)"
proof -
  show "reader_ok r" by (simp add: r_def reader_ok_def stream_reader_def word_less_nat_alt)
  have tl: "length (turtle_prefixes @ image_stream_turtle stream_arn_const chunk_size_const
      chunk_size_const 1 ''aff4:NullCompressor'') \<le> 512"
    by code_simp
  show "chunks_bounded oc cd r"
  proof (rule chunks_bounded_small)
    show "rd_archive r = archive_of (single_chunk_entries ''aff4:NullCompressor'' stored)"
      "rd_compression r = Null"
      by (simp_all add: r_def stream_reader_def)
    show "length d \<le> unat (rd_chunk_size r)"
      if "(n, d) \<in> set (single_chunk_entries ''aff4:NullCompressor'' stored)" for n d
      using that len tl
      by (auto simp: single_chunk_entries_def r_def stream_reader_def bytes_of_string_def)
  qed
  assume p: "p < 512"
  have "stream_byte oc cd r p = Some (concat [stored] ! p)"
  proof (rule written_stream [where enc = id])
    show "chunks_held r (map (store_chunk id) [stored])"
      using single_chunk_held [OF len] by (simp add: r_def)
    show "encodes cd r id" by (simp add: encodes_def r_def stream_reader_def)
  qed (use p len in \<open>simp_all add: r_def stream_reader_def word_less_nat_alt\<close>)
  then show "disk_byte oc cd r p = Some (stored ! p)"
    by (simp add: disk_byte_def locate_in_def r_def stream_reader_def)
qed

end
