(* ===== verification/Vfs.thy ===== *)
theory Vfs
  imports Virtual_Disk
begin

text \<open>
  The positioned-read adapter (\<^verbatim>\<open>core/src/vfs.rs\<close>): an open reader behind a mutex, and
  \<open>read_at\<close>, which seeks and then fills the buffer with repeated reads. The mutex makes calls
  atomic, so an execution with many threads is a sequence of calls. The fill loop is stated over
  any stream; its lemmas are proved in the stream locales and used through their interpretation
  on the reader.
\<close>

section \<open>The adapter\<close>

record aff4_source =
  src_inner :: aff4_reader
  src_len :: u64

datatype vfs_error = VfsIo string io_error

definition aff4_source_new :: "aff4_reader \<Rightarrow> aff4_source" where
  "aff4_source_new r = \<lparr>src_inner = r, src_len = virtual_disk_size r\<rparr>"

text \<open>
  The loop of \<open>read_at\<close>: fill \<open>buf[filled..want]\<close>. The reader and the buffer are returned with
  every outcome, for they keep what the earlier reads did to them.
\<close>

function fill_loop ::
    "('s \<Rightarrow> bytes \<Rightarrow> (nat \<times> bytes \<times> 's) io_result) \<Rightarrow> 's \<Rightarrow> bytes \<Rightarrow> nat \<Rightarrow> nat \<Rightarrow>
     nat io_result \<times> bytes \<times> 's" where
  "fill_loop rd s buf filled want =
     (if filled < want \<and> want \<le> length buf then
        (case rd s (subrange buf filled want) of
           Inl e \<Rightarrow> (Inl e, buf, s)
         | Inr (n, slot, s') \<Rightarrow>
             let buf' = take filled buf @ slot @ drop want buf in
             if n = 0 then (Inr filled, buf', s')
             else fill_loop rd s' buf' (filled + n) want)
      else (Inr filled, buf, s))"
  by pat_completeness auto
termination
  by (relation "measure (\<lambda>(rd, s, buf, filled, want). want - filled)") auto

declare fill_loop.simps [simp del]

definition read_at ::
    "bool \<Rightarrow> codecs \<Rightarrow> aff4_source \<Rightarrow> u64 \<Rightarrow> bytes \<Rightarrow>
     (vfs_error, nat) outcome \<times> bytes \<times> aff4_source" where
  "read_at oc cd src offset buf =
     (let avail = saturating_sub (src_len src) offset in
      if avail = 0 then (Inr 0, buf, src)
      else
        let want = min (length buf) (unat avail) in
        (case aff4_seek oc (src_inner src) (Start offset) of
           Inl e \<Rightarrow> (map_err (VfsIo ''aff4::seek'') (Inl e), buf, src)
         | Inr (_, r) \<Rightarrow>
             (case fill_loop (aff4_read oc cd) r buf 0 want of
                (res, buf', r') \<Rightarrow>
                  (map_err (VfsIo ''aff4::read'') res, buf', src\<lparr>src_inner := r'\<rparr>))))"

section \<open>The fill loop over any stream\<close>

context byte_stream
begin

lemma fill_loop_content:
  assumes "inv s" "filled \<le> want" "want \<le> length buf"
    and "fill_loop rd s buf filled want = (res, buf', s')"
  shows "inv s' \<and> byte_of s' = byte_of s \<and> len_of s' = len_of s \<and> length buf' = length buf \<and>
    take filled buf' = take filled buf \<and> drop want buf' = drop want buf \<and>
    (\<forall>k. res = Inr k \<longrightarrow> filled \<le> k \<and> k \<le> want \<and> pos_of s' = pos_of s + (k - filled) \<and>
       map Some (subrange buf' filled k) = map (byte_of s) [pos_of s..<pos_of s + (k - filled)])"
  using assms
proof (induction "want - filled" arbitrary: s buf filled rule: less_induct)
  case less
  show ?case
  proof (cases "filled < want")
    case False
    with less.prems show ?thesis by (auto simp: fill_loop.simps [of rd s] subrange_def)
  next
    case True
    let ?slot = "subrange buf filled want"
    show ?thesis
    proof (cases "rd s ?slot")
      case (Inl e)
      with True less.prems show ?thesis by (auto simp: fill_loop.simps [of rd s])
    next
      case (Inr x)
      obtain n slot t where x: "x = (n, slot, t)" by (cases x)
      note r = Inr [unfolded x]
      define b where "b = take filled buf @ slot @ drop want buf"
      have slot: "length slot = want - filled" "n \<le> want - filled"
        using rd_length [OF less.prems(1) r] rd_count [OF less.prems(1) r] less.prems True by auto
      have b: "length b = length buf" "take filled b = take filled buf" "drop want b = drop want buf"
        using less.prems True slot by (simp_all add: b_def)
      have bn: "subrange b filled (filled + n) = take n slot"
        using less.prems True slot by (simp add: b_def subrange_def)
      note t = rd_inv [OF less.prems(1) r] rd_frame [OF less.prems(1) r] rd_pos [OF less.prems(1) r]
      show ?thesis
      proof (cases "n = 0")
        case n0: True
        with less.prems True r b t show ?thesis
          by (auto simp: fill_loop.simps [of rd s] Let_def b_def [symmetric] subrange_def)
      next
        case False
        have eq: "fill_loop rd t b (filled + n) want = (res, buf', s')"
          using less.prems True r False by (simp add: fill_loop.simps [of rd s] Let_def b_def)
        have IH: "inv s' \<and> byte_of s' = byte_of t \<and> len_of s' = len_of t \<and> length buf' = length b \<and>
            take (filled + n) buf' = take (filled + n) b \<and> drop want buf' = drop want b \<and>
            (\<forall>k. res = Inr k \<longrightarrow> filled + n \<le> k \<and> k \<le> want \<and>
               pos_of s' = pos_of t + (k - (filled + n)) \<and>
               map Some (subrange buf' (filled + n) k) =
               map (byte_of t) [pos_of t..<pos_of t + (k - (filled + n))])"
          by (rule less.hyps [OF _ t(1) _ _ eq]) (use False slot True b less.prems in auto)
        from IH have ih: "take (filled + n) buf' = take (filled + n) b" by blast
        have tk: "take filled buf' = take filled buf"
          using arg_cong [OF ih, of "take filled"] b(2) by (simp add: min_def)
        have front: "subrange buf' filled (filled + n) = take n slot"
          using arg_cong [OF ih, of "drop filled"] bn by (simp add: subrange_def drop_take)
        have step: "map Some (subrange buf' filled k) =
            map (byte_of s) [pos_of s..<pos_of s + (k - filled)]"
          if k: "filled + n \<le> k"
            and later: "map Some (subrange buf' (filled + n) k) =
              map (byte_of t) [pos_of t..<pos_of t + (k - (filled + n))]" for k
        proof -
          have "subrange buf' filled k = take n slot @ subrange buf' (filled + n) k"
            using subrange_append [of filled "filled + n" k buf'] k front by simp
          moreover have "[pos_of s..<pos_of s + (k - filled)] =
              [pos_of s..<pos_of s + n] @ [pos_of t..<pos_of t + (k - (filled + n))]"
            using k t(3) upt_add_eq_append [of "pos_of s" "pos_of s + n" "k - (filled + n)"] by simp
          ultimately show ?thesis
            using later rd_bytes [OF less.prems(1) r] t(2) by simp
        qed
        show ?thesis using IH t b tk step by (auto simp: t(3))
      qed
    qed
  qed
qed

end

context readable_stream
begin

lemma fill_loop_complete:
  assumes "inv s" "filled \<le> want" "want \<le> length buf"
    and "pos_of s + (want - filled) \<le> len_of s"
    and "\<And>p. pos_of s \<le> p \<Longrightarrow> p < pos_of s + (want - filled) \<Longrightarrow> byte_of s p \<noteq> None"
  shows "\<exists>buf' s'. fill_loop rd s buf filled want = (Inr want, buf', s')"
  using assms
proof (induction "want - filled" arbitrary: s buf filled rule: less_induct)
  case less
  show ?case
  proof (cases "filled < want")
    case False
    with less.prems show ?thesis by (auto simp: fill_loop.simps [of rd s])
  next
    case True
    let ?slot = "subrange buf filled want"
    have ne: "?slot \<noteq> []"
      using True less.prems(3) length_subrange [of buf filled want] by (auto simp del: length_subrange)
    have "byte_of s (pos_of s) \<noteq> None" "pos_of s < len_of s"
      using less.prems(4,5) True by auto
    then obtain n slot t where r: "rd s ?slot = Inr (n, slot, t)" and n: "0 < n"
      using rd_progress [OF less.prems(1) ne] by blast
    have slot: "length slot = want - filled" "n \<le> want - filled"
      using rd_length [OF less.prems(1) r] rd_count [OF less.prems(1) r] less.prems True by auto
    note t = rd_inv [OF less.prems(1) r] rd_frame [OF less.prems(1) r] rd_pos [OF less.prems(1) r]
    have "\<exists>buf' s'. fill_loop rd t (take filled buf @ slot @ drop want buf) (filled + n) want =
        (Inr want, buf', s')"
      by (rule less.hyps) (use n slot True less.prems t in auto)
    with True r n less.prems show ?thesis
      by (simp add: fill_loop.simps [of rd s] Let_def)
  qed
qed

end

section \<open>Positioned reads of the disk\<close>

text \<open>An adapter made of an opened reader keeps the reader's size as its length.\<close>

definition source_ok :: "bool \<Rightarrow> codecs \<Rightarrow> aff4_source \<Rightarrow> bool" where
  "source_ok oc cd src \<longleftrightarrow> reader_ok (src_inner src) \<and> chunks_bounded oc cd (src_inner src) \<and>
     src_len src = rd_virtual_size (src_inner src)"

text \<open>The number of bytes a call asks for: what the buffer holds and the disk still has.\<close>

definition wanted :: "aff4_source \<Rightarrow> u64 \<Rightarrow> bytes \<Rightarrow> nat" where
  "wanted src off buf = min (length buf) (unat (src_len src) - unat off)"

lemma read_at_unfold:
  "read_at oc cd src off buf =
     (if unat (src_len src) \<le> unat off then (Inr 0, buf, src)
      else if 2 ^ 63 \<le> unat off
      then (Inl (Err (VfsIo ''aff4::seek'' seek_error)), buf, src)
      else
        (case fill_loop (aff4_read oc cd) ((src_inner src)\<lparr>rd_pos := off\<rparr>) buf 0 (wanted src off buf) of
           (res, buf', r') \<Rightarrow>
             (map_err (VfsIo ''aff4::read'') res, buf', src\<lparr>src_inner := r'\<rparr>)))"
  by (auto simp: read_at_def Let_def aff4_seek_start wanted_def unat_saturating_sub
      word_unat_eq_iff split: prod.split)

lemma read_at_content:
  assumes ok: "source_ok oc cd src" and res: "read_at oc cd src off buf = (Inr k, buf', src')"
  shows "k \<le> wanted src off buf \<and> length buf' = length buf \<and>
    drop (wanted src off buf) buf' = drop (wanted src off buf) buf \<and>
    map Some (take k buf') = map (disk_byte oc cd (src_inner src)) [unat off..<unat off + k] \<and>
    source_ok oc cd src'"
proof -
  let ?w = "wanted src off buf"
  consider "unat (src_len src) \<le> unat off"
    | "\<not> unat (src_len src) \<le> unat off" "2 ^ 63 \<le> unat off"
    | "\<not> unat (src_len src) \<le> unat off" "\<not> 2 ^ 63 \<le> unat off"
    by blast
  then show ?thesis
  proof cases
    case 1
    with res ok show ?thesis by (auto simp: read_at_unfold wanted_def)
  next
    case 2
    with res show ?thesis by (simp add: read_at_unfold)
  next
    case 3
    obtain lres b r' where
      loop: "fill_loop (aff4_read oc cd) ((src_inner src)\<lparr>rd_pos := off\<rparr>) buf 0 ?w = (lres, b, r')"
      by (metis prod_cases3)
    with res 3 have k: "lres = Inr k" "buf' = b" "src' = src\<lparr>src_inner := r'\<rparr>"
      by (simp_all add: read_at_unfold)
    have inv: "reader_ok ((src_inner src)\<lparr>rd_pos := off\<rparr>) \<and>
        chunks_bounded oc cd ((src_inner src)\<lparr>rd_pos := off\<rparr>)"
      using ok by (simp add: source_ok_def)
    have "?w \<le> length buf" by (simp add: wanted_def)
    from disk.fill_loop_content [OF inv _ this loop] k ok show ?thesis
      by (auto simp: source_ok_def subrange_def word_unat_eq_iff)
  qed
qed

lemma read_at_complete:
  assumes ok: "source_ok oc cd src" and off: "unat off < 2 ^ 63"
    and bytes: "\<And>p. unat off \<le> p \<Longrightarrow> p < unat off + wanted src off buf \<Longrightarrow>
      disk_byte oc cd (src_inner src) p \<noteq> None"
  shows "fst (read_at oc cd src off buf) = Inr (wanted src off buf)"
proof (cases "unat (src_len src) \<le> unat off")
  case True
  then show ?thesis by (simp add: read_at_unfold wanted_def)
next
  case False
  let ?w = "wanted src off buf" and ?r = "(src_inner src)\<lparr>rd_pos := off\<rparr>"
  have w: "?w \<le> length buf" "unat off + ?w \<le> unat (src_len src)"
    using False by (auto simp: wanted_def)
  have inv: "reader_ok ?r \<and> chunks_bounded oc cd ?r" using ok by (simp add: source_ok_def)
  have "\<exists>b r'. fill_loop (aff4_read oc cd) ?r buf 0 ?w = (Inr ?w, b, r')"
    by (rule disk.fill_loop_complete) (use inv w ok bytes in \<open>auto simp: source_ok_def\<close>)
  with False off show ?thesis by (auto simp: read_at_unfold)
qed

end
