(* ===== verification/Sessions.thy ===== *)
theory Sessions
  imports Vfs Reader_Facts
begin

text \<open>
  Sequences of operations. A session is the reader under any sequence of reads and seeks by one
  owner; a run of calls is the positioned-read adapter under any interleaving of its threads'
  calls. In both, the image never changes, so what a step delivers depends on its own position
  only.
\<close>

section \<open>Any read, on any map\<close>

text \<open>The shape of a successful read, with nothing assumed of the map.\<close>

definition read_shape :: "aff4_reader \<Rightarrow> bytes \<Rightarrow> nat \<Rightarrow> bytes \<Rightarrow> aff4_reader \<Rightarrow> bool" where
  "read_shape r buf n buf' r' \<longleftrightarrow>
     n \<le> length buf \<and> length buf' = length buf \<and> drop n buf' = drop n buf \<and>
     r' = r\<lparr>rd_pos := rd_pos r + word_of_nat n\<rparr> \<and>
     unat (rd_pos r') = unat (rd_pos r) + n \<and>
     (0 < n \<longrightarrow> unat (rd_pos r') \<le> unat (rd_virtual_size r))"

lemma read_shape_zero: "read_shape r buf 0 buf r"
  by (simp add: read_shape_def rd_pos_update_same)

lemma read_shape_deliver:
  assumes d: "advance oc r buf data = Inr (n, buf', r')"
    and len: "length data \<le> length buf" "unat (rd_pos r) + length data \<le> unat (rd_virtual_size r)"
  shows "read_shape r buf n buf' r'"
  using advance_eq(1) [OF len(2), of oc buf] advance_eq(2) [OF len(2)] d len
  by (auto simp: read_shape_def)

lemma aff4_read_shape:
  assumes res: "aff4_read oc cd r buf = Inr (n, buf', r')"
  shows "read_shape r buf n buf' r'"
proof (cases "buf = [] \<or> rd_virtual_size r \<le> rd_pos r")
  case True
  with res have "n = 0" "buf' = buf" "r' = r" by (auto simp: aff4_read_eq)
  then show ?thesis by (simp add: read_shape_zero)
next
  case False
  then have lt: "unat (rd_pos r) < unat (rd_virtual_size r)" by (simp add: word_le_nat_alt)
  have rem: "unat (rd_virtual_size r - rd_pos r) = unat (rd_virtual_size r) - unat (rd_pos r)"
    using lt by (simp add: unat_sub word_le_nat_alt)
  let ?to = "min (length buf) (unat (rd_virtual_size r) - unat (rd_pos r))"
  have fin: "read_shape r buf n buf' r'"
    if "advance oc r buf data = Inr (n, buf', r')" "length data \<le> ?to" for data
    using that lt by (intro read_shape_deliver [OF that(1)]) auto
  from res False obtain g where g: "region_at oc r = Inr g"
    by (auto simp: aff4_read_eq Let_def)
  show ?thesis
  proof (cases "rr_kind g")
    case Unknown
    with res False g show ?thesis
      by (intro fin [of "replicate (min ?to (unat (rr_bytes g))) 0"])
        (auto simp: aff4_read_eq Let_def rem)
  next
    case (Fill b)
    with res False g show ?thesis
      by (intro fin [of "replicate (min ?to (unat (rr_bytes g))) b"])
        (auto simp: aff4_read_eq Let_def rem)
  next
    case (Tile t)
    with res False g obtain data where
      "tile_bytes oc t (rr_target_offset g) (min ?to (unat (rr_bytes g))) = Inr data"
      and d: "advance oc r buf data = Inr (n, buf', r')"
      by (auto simp: aff4_read_eq Let_def rem)
    then have "length data \<le> ?to" by (auto simp: tile_bytes_def dest!: traverse_length)
    with d show ?thesis by (rule fin)
  next
    case ImageStream
    let ?off = "unat (rr_target_offset g mod rd_chunk_size r)"
    from res False g ImageStream have cs: "rd_chunk_size r \<noteq> 0"
      by (auto simp: aff4_read_eq Let_def)
    with res False g ImageStream obtain chunk where
      chunk: "read_chunk oc cd r (rr_target_offset g div rd_chunk_size r) = Inr chunk"
      by (auto simp: aff4_read_eq Let_def)
    define k where "k = min ?to (min (length chunk - ?off) (unat (rr_bytes g)))"
    show ?thesis
    proof (cases "k = 0")
      case k0: True
      with res False g ImageStream cs chunk show ?thesis
        by (simp add: aff4_read_eq Let_def rem k_def [symmetric] read_shape_zero)
    next
      case k0: False
      with res False g ImageStream cs chunk
      have "advance oc r buf (subrange chunk ?off (?off + k)) = Inr (n, buf', r')"
        by (simp add: aff4_read_eq Let_def rem k_def [symmetric])
      then show ?thesis by (rule fin) (auto simp: k_def)
    qed
  qed
qed

section \<open>Sessions of one owner\<close>

text \<open>What a step of the owner shows: the bytes a read returned and where, or a new position.\<close>

datatype event = Got nat bytes | Moved nat | Failed

inductive session_step :: "bool \<Rightarrow> codecs \<Rightarrow> aff4_reader \<Rightarrow> event \<Rightarrow> aff4_reader \<Rightarrow> bool"
  for oc :: bool and cd :: codecs where
  step_read: "aff4_read oc cd r buf = Inr (n, buf', r') \<Longrightarrow>
    session_step oc cd r (Got (unat (rd_pos r)) (take n buf')) r'"
| step_seek: "aff4_seek oc r whence = Inr (p, r') \<Longrightarrow> session_step oc cd r (Moved (unat p)) r'"
| step_read_error: "aff4_read oc cd r buf = Inl (Err e) \<Longrightarrow> session_step oc cd r Failed r"
| step_seek_error: "aff4_seek oc r whence = Inl (Err e) \<Longrightarrow> session_step oc cd r Failed r"

inductive session :: "bool \<Rightarrow> codecs \<Rightarrow> aff4_reader \<Rightarrow> event list \<Rightarrow> aff4_reader \<Rightarrow> bool"
  for oc :: bool and cd :: codecs where
  session_done: "session oc cd r [] r"
| session_more: "session_step oc cd r e r' \<Longrightarrow> session oc cd r' es r'' \<Longrightarrow>
    session oc cd r (e # es) r''"

inductive_cases step_GotE: "session_step oc cd r (Got p data) r'"
inductive_cases session_consE: "session oc cd r (e # es) r'"
inductive_simps session_Nil [simp]: "session oc cd r [] r'"

definition pos_in_range :: "aff4_reader \<Rightarrow> bool" where
  "pos_in_range r \<longleftrightarrow> unat (rd_pos r) < 2 ^ 63 \<or> rd_pos r \<le> rd_virtual_size r"

lemma same_image_refl [simp]: "same_image r r"
  unfolding same_image_def by (intro exI [of _ "rd_pos r"]) (simp add: rd_pos_update_same)

lemma same_image_trans: "same_image a b \<Longrightarrow> same_image b c \<Longrightarrow> same_image a c"
  by (auto simp: same_image_def)

lemma step_same_image: "session_step oc cd r e r' \<Longrightarrow> same_image r r'"
proof (induction rule: session_step.cases)
  case (step_read r1 buf n buf' r1')
  then have "read_shape r1 buf n buf' r1'" by (simp add: aff4_read_shape)
  with step_read show ?case unfolding read_shape_def same_image_def by blast
next
  case (step_seek r1 whence p r1')
  then show ?case using aff4_seek_Inr(1) [of oc r1 whence p r1'] by (auto simp: same_image_def)
qed auto

lemma step_pos_in_range:
  "session_step oc cd r e r' \<Longrightarrow> pos_in_range r \<Longrightarrow> pos_in_range r'"
proof (induction rule: session_step.cases)
  case (step_read r1 buf n buf' r1')
  then have sh: "read_shape r1 buf n buf' r1'" by (simp add: aff4_read_shape)
  show ?case
  proof (cases n)
    case 0
    with sh step_read show ?thesis by (simp add: read_shape_def rd_pos_update_same)
  next
    case (Suc k)
    with sh have "unat (rd_pos r1') \<le> unat (rd_virtual_size r1)" "rd_virtual_size r1' = rd_virtual_size r1"
      by (auto simp: read_shape_def)
    with step_read show ?thesis by (simp add: pos_in_range_def word_le_nat_alt)
  qed
next
  case (step_seek r1 whence p r1')
  then show ?case using aff4_seek_Inr [of oc r1 whence p r1'] by (simp add: pos_in_range_def)
qed auto

lemma same_image_facts:
  assumes "same_image r r'"
  shows "disk_byte oc cd r' = disk_byte oc cd r" "reader_ok r' = reader_ok r"
    "reader_wf r' = reader_wf r" "chunks_bounded oc cd r' = chunks_bounded oc cd r"
    "rd_virtual_size r' = rd_virtual_size r"
  using assms by (auto simp: same_image_def)

lemma session_same_image: "session oc cd r es r' \<Longrightarrow> same_image r r'"
  by (induction rule: session.induct) (auto intro: same_image_trans step_same_image)

lemma session_pos_in_range: "session oc cd r es r' \<Longrightarrow> pos_in_range r \<Longrightarrow> pos_in_range r'"
  by (induction rule: session.induct) (auto intro: step_pos_in_range)

text \<open>Everything a session ever reads is the content of the image it started with.\<close>

lemma session_content:
  "session oc cd r es r' \<Longrightarrow> reader_ok r \<Longrightarrow> chunks_bounded oc cd r \<Longrightarrow> Got p data \<in> set es \<Longrightarrow>
   map Some data = map (disk_byte oc cd r) [p..<p + length data]"
proof (induction rule: session.induct)
  case (session_done r)
  then show ?case by simp
next
  case (session_more r e r' es r'')
  note same = same_image_facts [OF step_same_image [OF session_more.hyps(1)]]
  show ?case
  proof (cases "e = Got p data")
    case True
    with session_more.hyps(1) obtain buf n buf' where
      res: "aff4_read oc cd r buf = Inr (n, buf', r')" and p: "p = unat (rd_pos r)"
      and data: "data = take n buf'"
      by (auto elim: step_GotE)
    from aff4_read_shape [OF res] data have "length data = n" by (auto simp: read_shape_def)
    with disk.rd_bytes [OF _ res] session_more.prems p data show ?thesis by simp
  next
    case False
    then have "Got p data \<in> set es" using session_more.prems by auto
    with session_more.IH session_more.prems same show ?thesis by simp
  qed
qed

section \<open>Calls of the adapter\<close>

lemma fill_loop_same_image:
  "fill_loop (aff4_read oc cd) r buf filled want = (res, buf', r') \<Longrightarrow> same_image r r'"
proof (induction "want - filled" arbitrary: r buf filled rule: less_induct)
  case less
  show ?case
  proof (cases "filled < want \<and> want \<le> length buf")
    case False
    with less.prems show ?thesis
      by (subst (asm) fill_loop.simps) (simp only: if_False prod.inject, simp)
  next
    case True
    show ?thesis
    proof (cases "aff4_read oc cd r (subrange buf filled want)")
      case (Inl e)
      with less.prems True show ?thesis by (subst (asm) fill_loop.simps) simp
    next
      case (Inr x)
      obtain n slot t where x: "x = (n, slot, t)" by (cases x)
      note r = Inr [unfolded x]
      have t: "same_image r t"
        using aff4_read_shape [OF r] by (auto simp: read_shape_def same_image_def)
      show ?thesis
      proof (cases "n = 0")
        case n0: True
        with less.prems True r t show ?thesis by (subst (asm) fill_loop.simps) (simp add: Let_def)
      next
        case False
        with less.prems True r have
          "fill_loop (aff4_read oc cd) t (take filled buf @ slot @ drop want buf) (filled + n) want =
            (res, buf', r')"
          by (subst (asm) fill_loop.simps) (simp add: Let_def)
        then have "same_image t r'" by (rule less.hyps [rotated]) (use False True in auto)
        with t show ?thesis by (rule same_image_trans)
      qed
    qed
  qed
qed

definition same_source :: "aff4_source \<Rightarrow> aff4_source \<Rightarrow> bool" where
  "same_source s s' \<longleftrightarrow> same_image (src_inner s) (src_inner s') \<and> src_len s' = src_len s"

lemma read_at_same_source: "read_at oc cd src off buf = (res, buf', src') \<Longrightarrow> same_source src src'"
  by (auto simp: read_at_def Let_def same_source_def aff4_seek_start
      dest!: fill_loop_same_image split: if_splits prod.splits)
    (auto simp: same_image_def)

text \<open>A call answers the same whatever position the calls before it left behind.\<close>

lemma read_at_position:
  assumes "same_source src src'"
  shows "fst (read_at oc cd src' off buf) = fst (read_at oc cd src off buf)"
    and "fst (snd (read_at oc cd src' off buf)) = fst (snd (read_at oc cd src off buf))"
proof -
  obtain p where p: "src_inner src' = (src_inner src)\<lparr>rd_pos := p\<rparr>" "src_len src' = src_len src"
    using assms by (auto simp: same_source_def same_image_def)
  show "fst (read_at oc cd src' off buf) = fst (read_at oc cd src off buf)"
    and "fst (snd (read_at oc cd src' off buf)) = fst (snd (read_at oc cd src off buf))"
    by (simp_all add: read_at_def Let_def aff4_seek_start p split: prod.split)
qed

text \<open>A sequence of calls, each with the answer and the buffer it returns.\<close>

fun run_calls ::
    "bool \<Rightarrow> codecs \<Rightarrow> aff4_source \<Rightarrow> (u64 \<times> bytes) list \<Rightarrow>
     ((vfs_error, nat) outcome \<times> bytes) list \<times> aff4_source" where
  "run_calls oc cd src [] = ([], src)"
| "run_calls oc cd src ((off, buf) # calls) =
     (case read_at oc cd src off buf of
        (res, buf', src') \<Rightarrow>
          (case run_calls oc cd src' calls of (rs, src'') \<Rightarrow> ((res, buf') # rs, src'')))"

definition answer ::
    "bool \<Rightarrow> codecs \<Rightarrow> aff4_source \<Rightarrow> u64 \<times> bytes \<Rightarrow> (vfs_error, nat) outcome \<times> bytes" where
  "answer oc cd src call =
     (case read_at oc cd src (fst call) (snd call) of (res, buf', _) \<Rightarrow> (res, buf'))"

lemma answer_same_source: "same_source src src' \<Longrightarrow> answer oc cd src' = answer oc cd src"
  using read_at_position [of src src' oc cd]
  by (auto simp: answer_def fun_eq_iff split: prod.split) (metis fst_conv snd_conv)+

lemma run_calls_answers: "fst (run_calls oc cd src calls) = map (answer oc cd src) calls"
proof (induction calls arbitrary: src)
  case Nil
  then show ?case by simp
next
  case (Cons c calls)
  obtain off buf where c: "c = (off, buf)" by (cases c)
  obtain res buf' src' where r: "read_at oc cd src off buf = (res, buf', src')"
    by (cases "read_at oc cd src off buf")
  have "answer oc cd src' = answer oc cd src"
    by (rule answer_same_source [OF read_at_same_source [OF r]])
  with Cons.IH [of src'] have "fst (run_calls oc cd src' calls) = map (answer oc cd src) calls"
    by simp
  moreover have "answer oc cd src c = (res, buf')" by (simp add: answer_def c r)
  ultimately show ?case by (simp add: c r split: prod.split) force
qed

end
