(* ===== verification/Examples.thy ===== *)
theory Examples
  imports Fixture_Facts Sessions
begin

text \<open>
  A small concrete reader: one chunk of sixteen bytes, mapped to the first eight positions from
  its byte 4 on, a gap of four, an unreadable region of eight, and a gap to the end. The
  witnesses of the disk properties run on it.
\<close>

definition demo_codecs :: codecs where
  "demo_codecs = \<lparr>zlib_decode = Inr, snappy_decode = Inr, lz4_decode = Inr\<rparr>"

definition demo_chunk :: bytes where
  "demo_chunk = [1, 2, 3, 4, 5, 6, 7, 8, 9, 10, 11, 12, 13, 14, 15, 16]"

definition demo_entries :: "(string \<times> bytes) list" where
  "demo_entries = [(''s/00000000'', demo_chunk), (''s/00000000.index'', index_entry 0 16)]"

definition demo_map :: loaded_map where
  "demo_map =
     \<lparr>lm_entries =
        [\<lparr>me_map_offset = 0, me_length = 8, me_target_offset = 4, me_target_id = 0\<rparr>,
         \<lparr>me_map_offset = 12, me_length = 8, me_target_offset = 0, me_target_id = 1\<rparr>],
      lm_targets = [ImageStream, Tile UnreadableTile],
      lm_gap_default = Fill 255\<rparr>"

definition demo_reader :: aff4_reader where
  "demo_reader =
     \<lparr>rd_archive = archive_of demo_entries, rd_zip_base = ''s'',
      rd_virtual_size = 24, rd_image_stream_size = 16, rd_chunk_size = 16,
      rd_chunks_per_segment = 1, rd_compression = Null, rd_image_hashes = [],
      rd_pos = 0, rd_loaded_map = Some demo_map\<rparr>"

lemma demo_map_ok: "map_ok demo_map"
  by (simp add: map_ok_def demo_map_def entry_ok_def)

lemma demo_reader_ok: "reader_ok demo_reader"
  using demo_map_ok by (simp add: reader_ok_def demo_reader_def)

lemma demo_chunks_bounded: "chunks_bounded oc cd demo_reader"
  by (rule chunks_bounded_small [of _ demo_entries])
    (auto simp: demo_reader_def demo_entries_def demo_chunk_def)

lemma demo_held: "chunks_held demo_reader [demo_chunk]"
proof -
  have name: "segment_name ''s'' (word_of_nat 0) = ''s/00000000''" by code_simp
  have seg: "segment_chunks 1 [demo_chunk] 0 = [demo_chunk]" by (simp add: segment_chunks_def)
  have e: "map_of demo_entries ''s/00000000'' = Some demo_chunk"
    "map_of demo_entries ''s/00000000.index'' = Some (index_entry 0 16)"
    by (simp_all add: demo_entries_def)
  have "segment_held (archive_of demo_entries) ''s'' 1 [demo_chunk] 0"
    unfolding segment_held_def seg name
    using e [THEN read_archive_of] by (simp add: packed_index_def demo_chunk_def)
  then show ?thesis
    by (simp add: bevies_held_def demo_reader_def) (simp add: demo_chunk_def)
qed

lemma demo_chunk_read: "read_chunk oc cd demo_reader 0 = Inr demo_chunk"
  using read_chunk_held [OF demo_held, of 0 oc cd]
  by (simp add: chunk_of_def demo_reader_def) (simp add: demo_chunk_def)

lemma demo_region:
  "region_at oc demo_reader = Inr \<lparr>rr_kind = ImageStream, rr_target_offset = 4, rr_bytes = 8\<rparr>"
proof -
  have "covers (hd (lm_entries demo_map)) (unat (0 :: u64))" by (simp add: covers_def demo_map_def)
  from resolve_covered [OF demo_map_ok _ this, of oc 24] show ?thesis
    by (simp add: region_at_def demo_reader_def) (simp add: demo_map_def kind_of_def target_of_def get_at_def)
qed

lemma demo_fields [simp]:
  "rd_virtual_size demo_reader = 24" "rd_pos demo_reader = 0" "rd_chunk_size demo_reader = 16"
  "rd_chunks_per_segment demo_reader = 1" "rd_image_stream_size demo_reader = 16"
  "rd_loaded_map demo_reader = Some demo_map"
  by (simp_all add: demo_reader_def)

lemma demo_read:
  "aff4_read oc cd demo_reader [0, 0, 0] = Inr (3, [5, 6, 7], demo_reader\<lparr>rd_pos := 3\<rparr>)"
  by (simp add: aff4_read_eq demo_region demo_chunk_read Let_def advance_def plain_add_def
      demo_chunk_def subrange_def)

lemma demo_byte_0: "disk_byte oc cd demo_reader 0 = Some 5"
proof -
  have "find (\<lambda>e. covers e 0) (lm_entries demo_map) = Some (hd (lm_entries demo_map))"
    by (simp add: demo_map_def covers_def)
  then have "locate demo_map 0 = InStream 4"
    by (simp add: locate_def) (simp add: demo_map_def kind_of_def target_of_def get_at_def)
  then show ?thesis
    by (simp add: disk_byte_def locate_in_def stream_byte_def demo_chunk_read get_at_def demo_chunk_def)
qed

end
