(* ===== verification/Map_Properties.thy ===== *)
theory Map_Properties
  imports Examples "HOL-Library.Multiset"
begin

text \<open>
  The properties of the map component and of the bevy index: resolution against its
  specification, the binary search, parsing, tiles, unreadable regions, and the two behaviours
  of malformed maps.
\<close>

text \<open>
  C6. Inside the address space of a well-formed map, \<open>resolve\<close> returns a region that is not
  empty, and every position of the region reads where the specification \<open>locate\<close> says: the
  entry that covers the position, at the position's offset in it, or the gap default.
\<close>

theorem resolve_locates:
  assumes "map_ok lm" and "unat p < unat vs"
  shows "\<exists>r. resolve oc lm p vs = (Inr r :: resolved_region io_result) \<and> 0 < unat (rr_bytes r) \<and>
    (\<forall>i < unat (rr_bytes r). unat p + i < unat vs \<longrightarrow>
       locate lm (unat p + i) = loc_of (rr_kind r) (unat (rr_target_offset r) + i) \<and>
       unat (rr_target_offset r) + i < 2 ^ 64)"
  using amap.lookup_total [OF assms, of oc] amap.lookup_nonempty [OF assms, of oc]
    amap.lookup_at [OF assms, of oc]
  by blast

lemma resolve_locates_witness:
  "\<exists>r. resolve True demo_map 2 24 = (Inr r :: resolved_region io_result) \<and> 0 < unat (rr_bytes r) \<and>
    (\<forall>i < unat (rr_bytes r). unat (2 :: u64) + i < unat (24 :: u64) \<longrightarrow>
       locate demo_map (unat (2 :: u64) + i) = loc_of (rr_kind r) (unat (rr_target_offset r) + i) \<and>
       unat (rr_target_offset r) + i < 2 ^ 64)"
  by (rule resolve_locates [OF demo_map_ok]) simp

text \<open>
  C25. A position no entry covers resolves to the gap default, and the gap region ends exactly at
  the next entry or, after the last entry, at the end of the virtual disk: no position of it is
  covered, and it cannot be longer.
\<close>

theorem resolve_gap:
  assumes "map_ok lm" and "unat p < unat vs"
    and "\<And>e. e \<in> set (lm_entries lm) \<Longrightarrow> \<not> covers e (unat p)"
    and "\<And>e. e \<in> set (lm_entries lm) \<Longrightarrow> unat (me_map_offset e) < unat vs"
  shows "\<exists>r. resolve oc lm p vs = (Inr r :: resolved_region io_result) \<and>
    rr_kind r = lm_gap_default lm \<and>
    (\<forall>i < unat (rr_bytes r). \<forall>e \<in> set (lm_entries lm). \<not> covers e (unat p + i)) \<and>
    (unat p + unat (rr_bytes r) = unat vs \<or>
     (\<exists>e \<in> set (lm_entries lm). unat p + unat (rr_bytes r) = unat (me_map_offset e)))"
proof -
  let ?k = "split_index lm p" and ?es = "lm_entries lm"
  let ?g = "gap_region lm ?k p vs"
  have "\<not> (?k > 0 \<and> covers (?es ! (?k - 1)) (unat p))"
    using assms(3) split_index_le [of lm p] by auto
  then have res: "resolve oc lm p vs = (Inr ?g :: resolved_region io_result)"
    by (auto simp: resolve_unfold [OF assms(1)] Let_def)
  have "unat p + unat (rr_bytes ?g) = unat vs \<or>
      (\<exists>e \<in> set ?es. unat p + unat (rr_bytes ?g) = unat (me_map_offset e))"
  proof (cases "?k < length ?es")
    case True
    then have lt: "p < me_map_offset (?es ! ?k)" by (intro after_split [OF assms(1)]) simp_all
    have "unat p + unat (rr_bytes ?g) = unat (me_map_offset (?es ! ?k))"
      using True lt by (simp add: gap_region_def get_at_def Let_def max_def word_le_nat_alt
          unat_saturating_sub word_less_nat_alt) linarith
    with True show ?thesis by auto
  next
    case False
    then have "unat p + unat (rr_bytes ?g) = unat vs"
      using assms(2) by (simp add: gap_region_def get_at_def Let_def max_def word_le_nat_alt
          unat_saturating_sub) linarith
    then show ?thesis ..
  qed
  moreover have "rr_kind ?g = lm_gap_default lm" by (simp add: gap_region_def Let_def)
  ultimately show ?thesis
    using res gap_not_covered [OF assms(1,3,2)] by blast
qed

lemma resolve_gap_witness:
  "\<exists>r. resolve True demo_map 9 24 = (Inr r :: resolved_region io_result) \<and>
    rr_kind r = lm_gap_default demo_map \<and>
    (\<forall>i < unat (rr_bytes r). \<forall>e \<in> set (lm_entries demo_map). \<not> covers e (unat (9 :: u64) + i)) \<and>
    (unat (9 :: u64) + unat (rr_bytes r) = unat (24 :: u64) \<or>
     (\<exists>e \<in> set (lm_entries demo_map). unat (9 :: u64) + unat (rr_bytes r) = unat (me_map_offset e)))"
  by (rule resolve_gap [OF demo_map_ok]) (auto simp: demo_map_def covers_def)

text \<open>
  \<open>partition_point\<close>, the halving search of the standard library, counts on sorted entries the
  entries that start at or before the position.
\<close>

lemma partition_point_counts:
  assumes "sorted (map me_map_offset es)"
  shows "partition_point (\<lambda>e. me_map_offset e \<le> p) es =
    length (filter (\<lambda>e. me_map_offset e \<le> p) es)"
proof -
  have "takeWhile (\<lambda>e. me_map_offset e \<le> p) es = filter (\<lambda>e. me_map_offset e \<le> p) es"
    using assms
  proof (induction es)
    case (Cons e es)
    have "filter (\<lambda>e. me_map_offset e \<le> p) es = []" if "\<not> me_map_offset e \<le> p"
      using Cons.prems that by (force simp: filter_empty_conv)
    with Cons show ?case by auto
  qed simp
  then show ?thesis by (simp add: partition_point_sorted [OF assms])
qed

lemma partition_point_counts_witness:
  "partition_point (\<lambda>e. me_map_offset e \<le> 12) (lm_entries demo_map) =
    length (filter (\<lambda>e. me_map_offset e \<le> 12) (lm_entries demo_map))"
  by (rule partition_point_counts) (simp add: demo_map_def)

text \<open>
  C23. Parsing a \<open>/map\<close> file that holds encoded entries (and less than one entry of trailing
  bytes): the entries come back sorted by map offset, the same entries as a multiset without
  the zero-length ones, and entries of the same offset keep their order in the file.
\<close>

theorem parse_map_entries_decodes:
  fixes es :: "map_entry list"
  assumes "safe_read_law sr" and "length rest < 28"
  defines "parsed \<equiv> parse_map_entries sr (concat (map encode_map_entry es) @ rest)"
  shows "sorted (map me_map_offset parsed) \<and>
    mset parsed = mset (filter (\<lambda>e. 0 < me_length e) es) \<and>
    (\<forall>k. filter (\<lambda>e. me_map_offset e = k) parsed =
       filter (\<lambda>e. me_map_offset e = k \<and> 0 < me_length e) es)"
  unfolding parsed_def parse_encoded_entries [OF assms(1,2)]
  by (simp add: sort_key_stable conj_commute)

lemma parse_map_entries_decodes_witness:
  "mset (parse_map_entries safe_read_impl
      (concat (map encode_map_entry (rev (lm_entries demo_map))) @ [1, 2])) =
    mset (filter (\<lambda>e. 0 < me_length e) (rev (lm_entries demo_map)))"
  using parse_map_entries_decodes [OF safe_read_impl_law, of "[1, 2]" "rev (lm_entries demo_map)"]
  by simp

text \<open>
  A read of a symbolic tile gives the bytes of the seed repeated from each one-megabyte
  boundary on, so the tile restarts there even though its length is no multiple of the seed's.
\<close>

lemma tile_read:
  assumes "unat t0 + n \<le> 2 ^ 64"
  shows "tile_bytes oc t t0 n =
    Inr (map (\<lambda>i. tile_seed t ! ((unat t0 + i) mod 1048576 mod length (tile_seed t))) [0..<n])"
proof -
  have "tile_bytes oc t t0 n = Inr (map (\<lambda>i. tile_byte t (unat t0 + i)) [0..<n])"
    by (rule tile_bytes_eq) (use assms in linarith)
  then show ?thesis by (simp add: tile_byte_def Let_def)
qed

lemma tile_read_witness:
  "tile_bytes True UnreadableTile 1048575 2 =
    Inr (map (\<lambda>i. tile_seed UnreadableTile !
      ((unat (1048575 :: u64) + i) mod 1048576 mod length (tile_seed UnreadableTile))) [0..<2])"
  by (rule tile_read) simp

text \<open>
  C22. The unreadable regions of a well-formed map (entries in order, none overlapping the next, no
  end past 64 bits) are complete and exact: a virtual position lies in a reported region if and
  only if the map places it in the unreadable-data tile.
\<close>

theorem unreadable_regions_exact:
  assumes "map_ok lm"
  shows "(\<exists>(off, n) \<in> set (unreadable_regions lm). unat off \<le> p \<and> p < unat off + unat n) \<longleftrightarrow>
    (\<exists>q. locate lm p = InTile UnreadableTile q)"
proof
  assume "\<exists>(off, n) \<in> set (unreadable_regions lm). unat off \<le> p \<and> p < unat off + unat n"
  then obtain e where e: "e \<in> set (lm_entries lm)" "target_of lm e = Some (Tile UnreadableTile)"
    and c: "covers e p"
    by (auto simp: unreadable_regions_def covers_def)
  then show "\<exists>q. locate lm p = InTile UnreadableTile q"
    using locate_covered [OF assms e(1) c] by (simp add: kind_of_def)
next
  assume "\<exists>q. locate lm p = InTile UnreadableTile q"
  then obtain q where q: "locate lm p = InTile UnreadableTile q" ..
  show "\<exists>(off, n) \<in> set (unreadable_regions lm). unat off \<le> p \<and> p < unat off + unat n"
  proof (cases "find (\<lambda>e. covers e p) (lm_entries lm)")
    case None
    with q assms show ?thesis by (auto simp: locate_def map_ok_def split: target_kind.splits)
  next
    case (Some e)
    then have e: "e \<in> set (lm_entries lm)" "covers e p" by (auto simp: find_Some_iff)
    have "loc_of (kind_of lm e) k = InTile UnreadableTile q \<Longrightarrow>
        target_of lm e = Some (Tile UnreadableTile)" for k
      by (cases "kind_of lm e") (auto simp: kind_of_def split: option.splits)
    with q Some have "target_of lm e = Some (Tile UnreadableTile)" by (auto simp: locate_def)
    with e show ?thesis by (force simp: unreadable_regions_def covers_def)
  qed
qed

lemma unreadable_regions_exact_witness:
  "(\<exists>(off, n) \<in> set (unreadable_regions demo_map). unat off \<le> 13 \<and> 13 < unat off + unat n) \<longleftrightarrow>
    (\<exists>q. locate demo_map 13 = InTile UnreadableTile q)"
  by (rule unreadable_regions_exact [OF demo_map_ok])

lemma split_index_at:
  assumes "lm_entries lm = es1 @ e # es2" and "sorted (map me_map_offset (lm_entries lm))"
    and "me_map_offset e \<le> p" and "\<And>x. x \<in> set es2 \<Longrightarrow> p < me_map_offset x"
  shows "partition_point (\<lambda>x. me_map_offset x \<le> p) (lm_entries lm) = length es1 + 1"
proof (rule partition_point_eq)
  fix i assume i: "i < length (lm_entries lm)"
  show "me_map_offset (lm_entries lm ! i) \<le> p \<longleftrightarrow> i < length es1 + 1"
  proof (cases "i < length es1 + 1")
    case True
    have "length es1 < length (lm_entries lm)" using assms(1) by simp
    with True have "me_map_offset (lm_entries lm ! i) \<le> me_map_offset (lm_entries lm ! length es1)"
      using assms(2) by (simp add: sorted_iff_nth_mono)
    with True show ?thesis using assms(1,3) by simp
  next
    case False
    then have "lm_entries lm ! i \<in> set es2"
      using i assms(1) by (auto simp: nth_append nth_Cons')
    then show ?thesis using False assms(4) by (auto simp: not_le)
  qed
qed (use assms(1) in simp)

text \<open>
  C37. Only the last entry that starts at or before a position is consulted: when the position is
  past the end of that entry it resolves to the gap, even where an earlier, longer entry of an
  overlapping map covers it.
\<close>

theorem resolve_shadowed:
  assumes "lm_entries lm = es1 @ e # es2" and "sorted (map me_map_offset (lm_entries lm))"
    and "me_map_offset e \<le> p" and "\<And>x. x \<in> set es2 \<Longrightarrow> p < me_map_offset x"
    and "unat (me_map_offset e) + unat (me_length e) \<le> unat p"
  shows "resolve oc lm p vs = Inr (gap_region lm (length es1 + 1) p vs)"
proof -
  have "unat p < 2 ^ 64" using unat_bound [of p] by simp
  then have fits: "unat (me_map_offset e) + unat (me_length e) < 2 ^ 64" using assms(5) by linarith
  then have "\<not> p < me_map_offset e + me_length e"
    using assms(5) by (simp add: word_less_nat_alt unat_add_small)
  moreover have "lm_entries lm ! length es1 = e" using assms(1) by simp
  ultimately show ?thesis
    using fits by (simp add: resolve_eq split_index_at [OF assms(1-4)] Let_def)
qed

definition overlapping_map :: loaded_map where
  "overlapping_map =
     \<lparr>lm_entries =
        [\<lparr>me_map_offset = 0, me_length = 100, me_target_offset = 0, me_target_id = 0\<rparr>,
         \<lparr>me_map_offset = 10, me_length = 10, me_target_offset = 200, me_target_id = 0\<rparr>],
      lm_targets = [ImageStream],
      lm_gap_default = Fill 0\<rparr>"

lemma resolve_shadowed_witness:
  "covers (hd (lm_entries overlapping_map)) 50 \<and>
   resolve True overlapping_map 50 100 = Inr (gap_region overlapping_map (1 + 1) 50 100)"
  using resolve_shadowed [of overlapping_map "[hd (lm_entries overlapping_map)]"
      "lm_entries overlapping_map ! 1" "[]" 50 True 100]
  by (simp add: overlapping_map_def covers_def)




lemma hex02_facts:
  "length (hex02 b) = 2" "list_all is_ascii_hexdigit (hex02 b)" "hex_value 0 (hex02 b) = unat b"
  "CHR ''#'' \<notin> set (hex02 b)"
proof -
  have d: "unat b div 16 < 16" "unat b mod 16 < 16"
    using unat_bound [of b] by (auto simp: less_mult_imp_div_less)
  show "length (hex02 b) = 2" by (simp add: hex02_two_digits)
  show h: "list_all is_ascii_hexdigit (hex02 b)"
    using d by (simp add: hex02_two_digits is_ascii_hexdigit_def)
  show "hex_value 0 (hex02 b) = unat b"
    using d by (simp add: hex02_two_digits)
  have "\<not> is_ascii_hexdigit (CHR ''#'')" by code_simp
  with h show "CHR ''#'' \<notin> set (hex02 b)" by (auto simp: list_all_iff)
qed

text \<open>
  A symbolic stream IRI that ends in \<open>SymbolicStream\<close> and two hexadecimal digits, with or
  without a \<open>#\<close> between, names the byte those digits write.
\<close>

lemma symbolic_stream_names_byte:
  assumes "find_str (pre @ ''SymbolicStream'') ''SymbolicStream'' = Some (length pre)"
    and "sep = [] \<or> sep = ''#''"
  shows "symbolic_stream_byte (pre @ ''SymbolicStream'' @ sep @ hex02 b) = Some b"
proof -
  let ?P = "''SymbolicStream''" and ?rest = "sep @ hex02 b"
  have "length ?rest < length ?P" using assms(2) hex02_facts(1) [of b] by auto
  then have "\<not> contains ?rest ?P" by (auto simp: contains_iff dest!: arg_cong [where f = length])
  then have "split_str (pre @ ?P @ ?rest) ?P = [pre, ?rest]"
    by (subst split_str_piece [OF assms(1)]) (simp_all add: split_str_None)
  moreover have "(case strip_prefix ?rest ''#'' of Some h \<Rightarrow> h | None \<Rightarrow> ?rest) = hex02 b"
  proof (cases "sep = []")
    case True
    have "\<not> starts_with (hex02 b) ''#''" using hex02_facts(4) [of b] by (auto simp: starts_with_iff)
    with True show ?thesis by (simp add: strip_prefix_def)
  qed (use assms(2) in \<open>simp add: strip_prefix_def\<close>)
  ultimately show ?thesis
    using hex02_facts [of b] by (simp add: symbolic_stream_byte_def get_at_def Let_def)
qed

lemma symbolic_stream_names_byte_witness:
  "symbolic_stream_byte (''http://aff4.org/Schema#'' @ ''SymbolicStream'' @ [] @ hex02 0xFF) = Some 0xFF"
  by (rule symbolic_stream_names_byte) code_simp+

text \<open>
  C24. Decoding a bevy index: an index written by \<open>index_entry\<close> decodes, at each of its entries, to
  the range of the offset and length that were written, refused when the end exceeds 64 bits.
\<close>

theorem chunk_bounds_decodes:
  assumes "i < length es" and "12 * length es < 2 ^ 64"
    and "es ! i = (off, len)"
  shows "chunk_bounds_from_index oc (concat (map (\<lambda>(off, len). index_entry off len) es))
      (word_of_nat i) =
    (if unat off + unat len < 2 ^ 64 then Inr (off, off + ucast len)
     else Inl (bad_format ''bevy chunk bounds overflow''))"
proof (cases "unat off + unat len < 2 ^ 64")
  case True
  then show ?thesis using bevy.bounds_entry [OF assms] by simp
next
  case False
  let ?enc = "\<lambda>(off, len). index_entry off len"
  let ?index = "concat (map ?enc es)"
  have len12: "length (?enc x) = 12" for x by (cases x) simp
  have li: "length ?index = 12 * length es" by (rule length_concat_fixed) (rule len12)
  have ui: "unat (word_of_nat i :: u64) = i" using assms(1,2) by simp
  have d: "take 12 (drop (12 * i) ?index) = index_entry off len"
    using concat_fixed_drop [of es ?enc 12 i, OF len12 assms(1)] assms(3) by simp
  have t8: "take 8 (drop (12 * i) ?index) = u64_to_le off"
    using arg_cong [OF d, of "take 8"] by (simp add: index_entry_def)
  have t4: "take 4 (drop 8 (drop (12 * i) ?index)) = u32_to_le len"
    using arg_cong [OF d, of "drop 8"] by (simp add: index_entry_def drop_take)
  show ?thesis
    by (subst chunk_bounds_eq)
      (use assms(1,2) li ui t8 t4 False in \<open>auto simp: Let_def simp del: drop_drop\<close>)
qed

lemma chunk_bounds_decodes_witness:
  "chunk_bounds_from_index True (concat (map (\<lambda>(off, len). index_entry off len) [(0, 512), (512, 100)]))
      (word_of_nat 1) =
    (if unat (512 :: u64) + unat (100 :: u32) < 2 ^ 64 then Inr (512, 512 + ucast (100 :: u32))
     else Inl (bad_format ''bevy chunk bounds overflow''))"
  by (rule chunk_bounds_decodes) simp_all

end
