(* ===== verification/Forensic.thy ===== *)
theory Forensic
  imports Reader
begin

text \<open>
  The integrity audit (\<^verbatim>\<open>forensic/src/lib.rs\<close>): the anomalies and their published codes,
  the incremental hashers, the single pass over the image content that drives them, and the
  comparison with the stored digests. The digest crates are the fields of \<open>digests\<close>, each a
  start state, an update and a finalisation; the severities, the category and the conversion of
  an anomaly to a \<^verbatim>\<open>Finding\<close> belong to the external report crate and are parameters.
\<close>

section \<open>Anomalies\<close>

datatype aff4_anomaly =
    HashMismatch (hm_algorithm: string) (hm_stored: string) (hm_computed: string)
  | HashUnreadable (hu_offset: u64) (hu_length: u64)

record 'sev severities =
  sev_high :: 'sev
  sev_medium :: 'sev

fun anomaly_severity :: "'sev severities \<Rightarrow> aff4_anomaly \<Rightarrow> 'sev option" where
  "anomaly_severity sv (HashMismatch a s c) = Some (sev_high sv)"
| "anomaly_severity sv (HashUnreadable off n) = Some (sev_medium sv)"

fun anomaly_code :: "aff4_anomaly \<Rightarrow> string" where
  "anomaly_code (HashMismatch a s c) = ''AFF4-HASH-MISMATCH''"
| "anomaly_code (HashUnreadable off n) = ''AFF4-HASH-UNREADABLE''"

definition anomaly_category :: "'cat \<Rightarrow> aff4_anomaly \<Rightarrow> 'cat" where
  "anomaly_category integrity a = integrity"

fun anomaly_note :: "aff4_anomaly \<Rightarrow> string" where
  "anomaly_note (HashMismatch a s c) =
     ''stored '' @ a @ '' aff4:hash ('' @ s @ '') does not match the digest recomputed '' @
     ''over the ImageStream content ('' @ c @ '') '' @ [CHR 0xE2, CHR 0x80, CHR 0x94] @
     '' consistent with tampering or media '' @ ''corruption''"
| "anomaly_note (HashUnreadable off n) =
     dec (unat n) @ '' bytes at virtual offset '' @ dec (unat off) @ '' are marked '' @
     ''aff4:UnreadableData; those bytes could not be acquired, so whole-disk '' @
     ''integrity cannot be fully established over that region''"

section \<open>Hashers\<close>

record 'd digest =
  dg_new :: 'd
  dg_update :: "'d \<Rightarrow> bytes \<Rightarrow> 'd"
  dg_finalize :: "'d \<Rightarrow> bytes"

record 'd digests =
  dg_md5 :: "'d digest"
  dg_sha1 :: "'d digest"
  dg_sha256 :: "'d digest"
  dg_sha512 :: "'d digest"
  dg_blake2b :: "'d digest"

datatype 'd hasher = Md5 'd | Sha1 'd | Sha256 'd | Sha512 'd | Blake2b 'd

definition for_algorithm :: "'d digests \<Rightarrow> string \<Rightarrow> 'd hasher option" where
  "for_algorithm ds alg =
     (let a = to_ascii_uppercase alg in
      if a = ''MD5'' then Some (Md5 (dg_new (dg_md5 ds)))
      else if a = ''SHA1'' then Some (Sha1 (dg_new (dg_sha1 ds)))
      else if a = ''SHA256'' then Some (Sha256 (dg_new (dg_sha256 ds)))
      else if a = ''SHA512'' then Some (Sha512 (dg_new (dg_sha512 ds)))
      else if a = ''BLAKE2B'' then Some (Blake2b (dg_new (dg_blake2b ds)))
      else None)"

fun hasher_update :: "'d digests \<Rightarrow> 'd hasher \<Rightarrow> bytes \<Rightarrow> 'd hasher" where
  "hasher_update ds (Md5 h) data = Md5 (dg_update (dg_md5 ds) h data)"
| "hasher_update ds (Sha1 h) data = Sha1 (dg_update (dg_sha1 ds) h data)"
| "hasher_update ds (Sha256 h) data = Sha256 (dg_update (dg_sha256 ds) h data)"
| "hasher_update ds (Sha512 h) data = Sha512 (dg_update (dg_sha512 ds) h data)"
| "hasher_update ds (Blake2b h) data = Blake2b (dg_update (dg_blake2b ds) h data)"

definition to_hex :: "bytes \<Rightarrow> string" where
  "to_hex bs = concat (map hex02 bs)"

fun finalize_hex :: "'d digests \<Rightarrow> 'd hasher \<Rightarrow> string" where
  "finalize_hex ds (Md5 h) = to_hex (dg_finalize (dg_md5 ds) h)"
| "finalize_hex ds (Sha1 h) = to_hex (dg_finalize (dg_sha1 ds) h)"
| "finalize_hex ds (Sha256 h) = to_hex (dg_finalize (dg_sha256 ds) h)"
| "finalize_hex ds (Sha512 h) = to_hex (dg_finalize (dg_sha512 ds) h)"
| "finalize_hex ds (Blake2b h) = to_hex (dg_finalize (dg_blake2b ds) h)"

section \<open>The audit\<close>

type_synonym 'd hash_job = "stored_hash \<times> 'd hasher"

definition hash_jobs :: "'d digests \<Rightarrow> stored_hash list \<Rightarrow> 'd hash_job list" where
  "hash_jobs ds stored =
     List.map_filter (\<lambda>s. map_option (Pair s) (for_algorithm ds (algorithm s))) stored"

definition update_jobs :: "'d digests \<Rightarrow> 'd hash_job list \<Rightarrow> bytes \<Rightarrow> 'd hash_job list" where
  "update_jobs ds jobs chunk = map (\<lambda>(s, h). (s, hasher_update ds h chunk)) jobs"

definition check_job :: "'d digests \<Rightarrow> 'd hash_job \<Rightarrow> aff4_anomaly option" where
  "check_job ds job =
     (case job of (stored, hasher) \<Rightarrow>
        let computed = finalize_hex ds hasher in
        if computed \<noteq> hex stored
        then Some (HashMismatch (algorithm stored) (hex stored) computed) else None)"

definition verify_image_hashes ::
    "bool \<Rightarrow> codecs \<Rightarrow> 'd digests \<Rightarrow> aff4_reader \<Rightarrow> aff4_anomaly list aff4_result" where
  "verify_image_hashes oc cd ds r =
     (let anomalies = map (\<lambda>(off, n). HashUnreadable off n) (reader_unreadable_regions r);
          jobs = hash_jobs ds (stored_image_hashes r) in
      if jobs = [] then Inr anomalies
      else
        (case read_image_stream_content oc cd r (update_jobs ds) jobs of
           (jobs', res) \<Rightarrow>
             and_then res (\<lambda>_. Inr (anomalies @ List.map_filter (check_job ds) jobs'))))"

record finding_source =
  fs_analyzer :: string
  fs_scope :: string
  fs_version :: "string option"

definition audit_source :: finding_source where
  "audit_source =
     \<lparr>fs_analyzer = ''aff4-forensic'', fs_scope = ''ImageStream'', fs_version = Some ''0.1.2''\<rparr>"

definition audit_image ::
    "bool \<Rightarrow> codecs \<Rightarrow> 'd digests \<Rightarrow> (finding_source \<Rightarrow> aff4_anomaly \<Rightarrow> 'f) \<Rightarrow>
     file_system \<Rightarrow> zip_opener \<Rightarrow> safe_read \<Rightarrow> string \<Rightarrow> 'f list aff4_result" where
  "audit_image oc cd ds to_finding fs zo sr path =
     and_then (open_path fs zo sr path) (\<lambda>reader.
     and_then (verify_image_hashes oc cd ds reader) (\<lambda>anomalies.
       Inr (map (to_finding audit_source) anomalies)))"

end
