(* ===== verification/Forensic_Facts.thy ===== *)
theory Forensic_Facts
  imports Forensic Image_Content
begin

text \<open>
  What the audit reports: with streaming digests, exactly the recognised stored hashes that
  differ from the digest of the image content, after the unreadable regions of the map.
\<close>

section \<open>Streaming digests\<close>

text \<open>The documented law of an incremental digest: pieces hash like the whole they join to.\<close>

definition digest_law :: "'d digest \<Rightarrow> (bytes \<Rightarrow> bytes) \<Rightarrow> bool" where
  "digest_law dg f \<longleftrightarrow>
     (\<forall>ps. dg_finalize dg (foldl (dg_update dg) (dg_new dg) ps) = f (concat ps))"

definition digests_law :: "'d digests \<Rightarrow> (string \<Rightarrow> bytes \<Rightarrow> bytes) \<Rightarrow> bool" where
  "digests_law ds H \<longleftrightarrow>
     digest_law (dg_md5 ds) (H ''MD5'') \<and> digest_law (dg_sha1 ds) (H ''SHA1'') \<and>
     digest_law (dg_sha256 ds) (H ''SHA256'') \<and> digest_law (dg_sha512 ds) (H ''SHA512'') \<and>
     digest_law (dg_blake2b ds) (H ''BLAKE2B'')"

definition recognised :: "stored_hash \<Rightarrow> bool" where
  "recognised s \<longleftrightarrow>
     to_ascii_uppercase (algorithm s) \<in> {''MD5'', ''SHA1'', ''SHA256'', ''SHA512'', ''BLAKE2B''}"

lemma for_algorithm_recognised: "for_algorithm ds (algorithm s) = None \<longleftrightarrow> \<not> recognised s"
  by (auto simp: for_algorithm_def recognised_def Let_def)

lemma hasher_update_folds:
  "foldl (hasher_update ds) (Md5 h) ps = Md5 (foldl (dg_update (dg_md5 ds)) h ps)"
  "foldl (hasher_update ds) (Sha1 h) ps = Sha1 (foldl (dg_update (dg_sha1 ds)) h ps)"
  "foldl (hasher_update ds) (Sha256 h) ps = Sha256 (foldl (dg_update (dg_sha256 ds)) h ps)"
  "foldl (hasher_update ds) (Sha512 h) ps = Sha512 (foldl (dg_update (dg_sha512 ds)) h ps)"
  "foldl (hasher_update ds) (Blake2b h) ps = Blake2b (foldl (dg_update (dg_blake2b ds)) h ps)"
  by (induction ps arbitrary: h) simp_all

lemma finalize_for_algorithm:
  assumes "digests_law ds H" and "for_algorithm ds alg = Some h"
  shows "finalize_hex ds (foldl (hasher_update ds) h ps) =
    to_hex (H (to_ascii_uppercase alg) (concat ps))"
  using assms
  by (auto simp: for_algorithm_def digests_law_def digest_law_def Let_def hasher_update_folds
      split: if_splits)

section \<open>The hasher interface\<close>

text \<open>
  What the audit needs of its hashers: one that was started for an algorithm and fed pieces
  finishes as the digest of what the pieces join to.
\<close>

locale incremental_hash =
  fixes start :: "'d \<Rightarrow> 'a \<Rightarrow> 'h option"
    and feed :: "'d \<Rightarrow> 'h \<Rightarrow> bytes \<Rightarrow> 'h"
    and finish :: "'d \<Rightarrow> 'h \<Rightarrow> 'o"
    and hash :: "'a \<Rightarrow> bytes \<Rightarrow> 'o"
    and ok :: "'d \<Rightarrow> bool"
  assumes finish_pieces:
    "ok ds \<Longrightarrow> start ds a = Some h \<Longrightarrow> finish ds (foldl (feed ds) h ps) = hash a (concat ps)"
begin

lemma feed_jobs:
  "foldl (\<lambda>jobs p. map (\<lambda>(k, h). (k, feed ds h p)) jobs) jobs ps =
     map (\<lambda>(k, h). (k, foldl (feed ds) h ps)) jobs"
  by (induction ps arbitrary: jobs) (simp_all add: case_prod_unfold)

text \<open>Many hashers in one pass: each key whose algorithm is known sees the digest of the whole.\<close>

lemma jobs_report:
  assumes "ok ds"
  shows "List.map_filter (\<lambda>(k, h). g k (finish ds h))
      (foldl (\<lambda>jobs p. map (\<lambda>(k, h). (k, feed ds h p)) jobs)
        (List.map_filter (\<lambda>k. map_option (Pair k) (start ds (alg k))) ks) ps) =
    List.map_filter
      (\<lambda>k. if start ds (alg k) = None then None else g k (hash (alg k) (concat ps))) ks"
  unfolding feed_jobs
  by (induction ks) (auto simp: List.map_filter_simps finish_pieces [OF assms] split: option.splits)

end

interpretation hashers: incremental_hash for_algorithm hasher_update finalize_hex
    "\<lambda>alg content. to_hex (H (to_ascii_uppercase alg) content)" "\<lambda>ds. digests_law ds H" for H
  by unfold_locales (rule finalize_for_algorithm)

section \<open>The report\<close>

definition mismatch :: "(string \<Rightarrow> bytes \<Rightarrow> bytes) \<Rightarrow> bytes \<Rightarrow> stored_hash \<Rightarrow> aff4_anomaly option" where
  "mismatch H content s =
     (let computed = to_hex (H (to_ascii_uppercase (algorithm s)) content) in
      if recognised s \<and> computed \<noteq> hex s
      then Some (HashMismatch (algorithm s) (hex s) computed) else None)"

lemma check_jobs:
  assumes "digests_law ds H"
  shows "List.map_filter (check_job ds) (foldl (update_jobs ds) (hash_jobs ds stored) ps) =
    List.map_filter (mismatch H (concat ps)) stored"
proof -
  let ?g = "\<lambda>s computed. if computed \<noteq> hex s
    then Some (HashMismatch (algorithm s) (hex s) computed) else None"
  have "check_job ds = (\<lambda>(s, h). ?g s (finalize_hex ds h))"
    by (rule ext) (simp add: check_job_def Let_def split: prod.split)
  moreover have "mismatch H c = (\<lambda>s. if for_algorithm ds (algorithm s) = None then None
      else ?g s (to_hex (H (to_ascii_uppercase (algorithm s)) c)))" for c
    by (rule ext) (simp add: mismatch_def for_algorithm_recognised Let_def)
  ultimately show ?thesis
    using hashers.jobs_report [OF assms, of ?g algorithm stored ps]
    by (simp add: hash_jobs_def update_jobs_def [abs_def])
qed

definition unreadable_report :: "aff4_reader \<Rightarrow> aff4_anomaly list" where
  "unreadable_report r = map (\<lambda>(off, n). HashUnreadable off n) (reader_unreadable_regions r)"

lemma hash_jobs_Nil: "hash_jobs ds stored = [] \<longleftrightarrow> (\<forall>s \<in> set stored. \<not> recognised s)"
proof (induction stored)
  case (Cons s stored)
  then show ?case
    using for_algorithm_recognised [of ds s]
    by (auto simp: hash_jobs_def List.map_filter_simps split: option.splits)
qed (simp add: hash_jobs_def List.map_filter_simps)

lemma no_mismatch: "\<forall>s \<in> set stored. \<not> recognised s \<Longrightarrow> List.map_filter (mismatch H c) stored = []"
  by (induction stored) (auto simp: mismatch_def List.map_filter_simps)

lemma verify_report:
  assumes law: "digests_law ds H" and "0 < rd_chunk_size r" and "chunks_full oc cd r"
  shows "verify_image_hashes oc cd ds r =
    Inr (unreadable_report r @
      List.map_filter (mismatch H (image_content oc cd r)) (rd_image_hashes r))"
proof (cases "hash_jobs ds (rd_image_hashes r) = []")
  case True
  then show ?thesis
    using no_mismatch [of "rd_image_hashes r"]
    by (simp add: verify_image_hashes_def stored_image_hashes_def unreadable_report_def hash_jobs_Nil)
next
  case False
  have "0 < rd_chunk_size r \<and> chunks_full oc cd r" using assms(2,3) by blast
  then obtain jobs where
    "read_image_stream_content oc cd r (update_jobs ds) (hash_jobs ds (rd_image_hashes r)) =
      (jobs, Inr ())"
    and "List.map_filter (check_job ds) jobs =
      List.map_filter (mismatch H (image_content oc cd r)) (rd_image_hashes r)"
    using check_jobs [OF law] by (rule image.stream_result)
  with False show ?thesis
    by (simp add: verify_image_hashes_def stored_image_hashes_def unreadable_report_def Let_def)
qed

text \<open>The audit stops at the first chunk it cannot read, and reports nothing.\<close>

lemma content_loop_fault:
  assumes "\<And>i. i < k \<Longrightarrow> \<exists>c. f (idxs ! i) = Inr c" and "k < length idxs" and "f (idxs ! k) = Inl e"
  shows "\<exists>e s'. content_loop f oc T sink idxs produced s = (s', Inl e)"
  using assms
proof (induction idxs arbitrary: k produced s)
  case Nil
  then show ?case by simp
next
  case (Cons i idxs)
  show ?case
  proof (cases k)
    case 0
    with Cons.prems show ?thesis by simp
  next
    case (Suc j)
    then obtain c where c: "f i = Inr c" using Cons.prems(1) [of 0] by auto
    have IH: "\<exists>e s'. content_loop f oc T sink idxs p t = (s', Inl e)" for p t
    proof (rule Cons.IH [of j])
      show "\<exists>c. f (idxs ! m) = Inr c" if "m < j" for m using Cons.prems(1) [of "Suc m"] that Suc by simp
    qed (use Cons.prems Suc in auto)
    show ?thesis using c IH by (auto simp: Let_def split: sum.split)
  qed
qed

end
