(* ===== verification/Meta_Properties.thy ===== *)
theory Meta_Properties
  imports Fixture_Facts Forensic_Facts
begin

text \<open>
  The properties of the metadata parser: the predicate look-ups on texts of tokens, the declared
  hashes, hash terms, hexadecimal values, and the whole turtle of the fixtures.
\<close>

section \<open>Looking up predicates\<close>

text \<open>
  A predicate followed by a number, plain or quoted with a datatype, in a text of
  blank-separated tokens: \<open>extract_pred_u64\<close> returns the number after the first occurrence of
  the predicate, and refuses it when it does not fit 64 bits.
\<close>

lemma extract_pred_u64_reads:
  assumes "list_all token (pre @ p # v # post)" and "p \<notin> set pre"
    and "v = dec n \<or> (\<exists>s. v = CHR 0x22 # dec n @ CHR 0x22 # s)"
  shows "extract_pred_u64 (join_with '' '' (pre @ p # v # post)) p =
    (if n < 2 ^ 64 then Inr (word_of_nat n)
     else Inl (bad_format (''bad integer after '' @ p @ '': '' @ dec n)))"
proof -
  have "list_all (\<lambda>w. w = [] \<or> token w) (pre @ p # v # post)"
    using assms(1) by (auto simp: list_all_iff)
  moreover have "filter (\<lambda>w. w \<noteq> []) (pre @ p # v # post) = pre @ p # v # post"
    using assms(1) by (intro filter_True) (auto simp: list_all_iff token_def)
  ultimately have ts: "split_whitespace (join_with '' '' (pre @ p # v # post)) = pre @ p # v # post"
    by (simp only: split_whitespace_words)
  have "leading_digits v = dec n"
  proof (cases "v = dec n")
    case False
    then obtain s where v: "v = CHR 0x22 # dec n @ CHR 0x22 # s" using assms(3) by blast
    have q: "\<not> is_ascii_digit (CHR 0x22)" by code_simp
    have "dropWhile (\<lambda>c. c = CHR 0x22) (dec n @ CHR 0x22 # s) = dec n @ CHR 0x22 # s"
      using dec_no_char [OF q, of n] by (cases "dec n") auto
    moreover have "takeWhile is_ascii_digit (dec n @ CHR 0x22 # s) = dec n"
      using dec_digits [of n] q by (subst takeWhile_append2) (auto simp: list_all_iff)
    ultimately show ?thesis by (simp add: v leading_digits_def trim_start_matches_def)
  qed simp
  then show ?thesis
    by (simp add: extract_pred_u64_def ts find_window [OF assms(2)] parse_u64_dec)
qed

lemma extract_pred_u64_reads_witness:
  "extract_pred_u64 (join_with '' '' ([''<a>''] @ ''aff4:size'' # (CHR 0x22 # dec 42 @ CHR 0x22 # ''^^xsd:long'') # []))
     ''aff4:size'' =
    (if (42 :: nat) < 2 ^ 64 then Inr (word_of_nat 42)
     else Inl (bad_format (''bad integer after '' @ ''aff4:size'' @ '': '' @ dec 42)))"
proof (rule extract_pred_u64_reads)
  show "list_all token ([''<a>''] @ ''aff4:size'' # (CHR 0x22 # dec 42 @ CHR 0x22 # ''^^xsd:long'') # [])"
    by code_simp
qed auto

section \<open>Hashes\<close>

text \<open>
  C36. The declared hashes of a block, read by two nested index loops, are those of the run of
  commas and hash terms that follows each \<open>aff4:hash\<close> token, in the order of the block;
  hash terms anywhere else (after \<open>aff4:imageStreamHash\<close>, say) are not among them.
\<close>

theorem parse_image_hashes_runs:
  "parse_image_hashes block =
     Inr (let ts = split_whitespace block in
      concat (map (\<lambda>k. if ts ! k = ''aff4:hash''
                       then List.map_filter parse_hash_term
                              (takeWhile (\<lambda>t. t = '','' \<or> parse_hash_term t \<noteq> None) (drop (k + 1) ts))
                       else []) [0..<length ts]))"
  unfolding parse_image_hashes_eq declared_hashes_def hashes_from_def value_run_def value_token_def Let_def by (rule refl)

lemma parse_image_hashes_runs_witness:
  "parse_image_hashes (''<s> aff4:hash '' @ [CHR 0x22] @ ''0A'' @ [CHR 0x22] @ ''^^aff4:MD5, aff4:size 1'') =
    Inr [\<lparr>algorithm = ''MD5'', hex = ''0a''\<rparr>]"
  unfolding parse_image_hashes_runs by code_simp

lemma to_hex_lower: "to_ascii_lowercase (to_hex d) = to_hex d"
proof -
  have low: "\<not> is_ascii_upper (digit_char k)" if "k < 16" for k
    using that by (auto simp: is_ascii_upper_def ascii_digit_char)
  have "to_ascii_lowercase (hex02 b) = hex02 b" for b
  proof -
    have "unat b div 16 < 16" "unat b mod 16 < 16"
      using unat_bound [of b] by (auto simp: less_mult_imp_div_less)
    then show ?thesis using low by (simp add: hex02_two_digits to_ascii_lowercase_def)
  qed
  then show ?thesis
    by (simp add: to_hex_def to_ascii_lowercase_def map_concat comp_def)
qed

lemma to_hex_hexdigits: "list_all is_ascii_hexdigit (to_hex d)"
proof -
  have "list_all is_ascii_hexdigit (hex02 b)" for b
  proof -
    have "unat b div 16 < 16" "unat b mod 16 < 16"
      using unat_bound [of b] by (auto simp: less_mult_imp_div_less)
    then show ?thesis by (simp add: hex02_two_digits is_ascii_hexdigit_def)
  qed
  then show ?thesis by (auto simp: to_hex_def list_all_iff)
qed

text \<open>
  A digest rendered as the writers render it, lower-case hexadecimal in a typed literal with
  or without trailing punctuation, parses to the stored hash with exactly the text the audit
  computes for that digest.
\<close>

lemma parse_hash_term_of_digest:
  assumes "d \<noteq> []" and "alg \<noteq> []" and "is_ascii_alphanumeric (last alg)"
    and "list_all (\<lambda>c. \<not> is_ascii_alphanumeric c) trailer"
  shows "parse_hash_term (CHR 0x22 # to_hex d @ CHR 0x22 # ''^^aff4:'' @ alg @ trailer) =
    Some \<lparr>algorithm = alg, hex = to_hex d\<rparr>"
proof -
  have "to_hex d \<noteq> []" using assms(1) by (cases d) (auto simp: to_hex_def hex02_two_digits)
  from parse_hash_term_render [OF this to_hex_hexdigits assms(2-4)] show ?thesis
    by (simp add: to_hex_lower)
qed

lemma parse_hash_term_of_digest_witness:
  "parse_hash_term (CHR 0x22 # to_hex [0xD5, 0x0A] @ CHR 0x22 # ''^^aff4:'' @ ''MD5'' @ '','') =
    Some \<lparr>algorithm = ''MD5'', hex = to_hex [0xD5, 0x0A]\<rparr>"
  by (rule parse_hash_term_of_digest) (simp, simp, code_simp, code_simp)

lemma hex_pairs_None: "even (length s) \<Longrightarrow> \<not> list_all is_ascii_hexdigit s \<Longrightarrow> hex_pairs s = None"
proof (induction s rule: hex_pairs.induct)
  case (1 a b s)
  then show ?case by (auto simp: is_ascii_hexdigit_def split: option.splits)
qed auto

text \<open>
  Hexadecimal values: decoding the lower-case rendering of bytes gives the bytes back, and a
  text of odd length, or with a character that is no hexadecimal digit, is refused.
\<close>

lemma hex_decode_inverts:
  "hex_decode (to_hex bs) = Inr (Some bs) \<and>
   (\<not> (even (length s) \<and> list_all is_ascii_hexdigit s) \<longrightarrow> hex_decode s = Inr None)"
  using hex_decode_render [of bs] hex_pairs_None [of s]
  by (auto simp: to_hex_def hex_bytes_def odd_iff_mod_2_eq_one)

lemma hex_decode_inverts_witness:
  "hex_decode (to_hex [0xDE, 0xAD]) = Inr (Some [0xDE, 0xAD]) \<and> hex_decode ''0g'' = Inr None"
proof -
  have "\<not> (even (length ''0g'') \<and> list_all is_ascii_hexdigit ''0g'')" by code_simp
  with hex_decode_inverts [of "[0xDE, 0xAD]" "''0g''"] show ?thesis by blast
qed

section \<open>Whole turtles\<close>

text \<open>
  The image built by \<open>test_aff4_with_geometry\<close> opens exactly when both numbers of its
  geometry are positive, for every geometry; the reader then has that geometry.
\<close>

lemma geometry_fixture_opens:
  assumes "zo (test_aff4_with_geometry zip_pack cs cps) = Inr (archive_of (geometry_entries cs cps))"
  shows "case open_reader zo sr (test_aff4_with_geometry zip_pack cs cps) of
      Inr r \<Rightarrow> 0 < cs \<and> 0 < cps \<and> rd_chunk_size r = cs \<and> rd_chunks_per_segment r = cps \<and>
        rd_virtual_size r = 512 \<and> rd_pos r = 0
    | Inl f \<Rightarrow> (cs = 0 \<or> cps = 0) \<and> (\<exists>m. f = bad_format m)"
proof -
  have z: "unat x = 0 \<longleftrightarrow> x = 0" for x :: u64 by (simp add: unat_eq_zero)
  have "open_reader zo sr (test_aff4_with_geometry zip_pack cs cps) =
    (if unat cs = 0 then Inl (bad_format ''aff4:chunkSize must be > 0'')
     else if unat cps = 0 then Inl (bad_format ''aff4:chunksInSegment must be > 0'')
     else Inr (stream_reader (geometry_entries cs cps) 512 (unat cs) (unat cps)))"
    by (rule open_stream_archive) (rule assms, rule geometry_turtle, simp_all)
  then show ?thesis by (simp add: z stream_reader_def word_gt_0)
qed

lemma geometry_fixture_opens_witness:
  "case open_reader (\<lambda>_. Inr (archive_of (geometry_entries 4096 2))) safe_read_impl
        (test_aff4_with_geometry (\<lambda>_. []) 4096 2) of
      Inr r \<Rightarrow> (0 :: u64) < 4096 \<and> (0 :: u64) < 2 \<and> rd_chunk_size r = 4096 \<and>
        rd_chunks_per_segment r = 2 \<and> rd_virtual_size r = 512 \<and> rd_pos r = 0
    | Inl f \<Rightarrow> ((4096 :: u64) = 0 \<or> (2 :: u64) = 0) \<and> (\<exists>m. f = bad_format m)"
  by (rule geometry_fixture_opens) (rule refl)

text \<open>
  The codec is looked for in the whole block, the stream's name included: a stream without
  compression under the name \<^verbatim>\<open>aff4://snappy-1\<close> is read as a Snappy stream.
\<close>

lemma compression_from_the_name:
  "detect_compression
     ''<aff4://snappy-1> rdf:type aff4:ImageStream   aff4:compressionMethod aff4:NullCompressor'' = Snappy"
  by code_simp

end
