(* ===== verification/Reader_Properties.thy ===== *)
theory Reader_Properties
  imports Examples
begin

text \<open>
  The properties of the disk reader: opening, reading and seeking against the byte function of
  the virtual disk, chunks, the content stream, sessions, and the panics.
\<close>

section \<open>Reading and seeking\<close>

text \<open>
  C1. A successful \<open>read\<close> implements the specification of the disk, provided the map is well-formed
  (entries in order, none overlapping the next, no end past 64 bits) and no chunk decodes to more
  than the chunk size; opening checks neither. Then the \<open>n\<close> bytes it returns are the content of the
  \<open>n\<close> virtual positions from the current one on, through the map, the bevies, the fills and the
  tiles; the rest of the buffer is untouched, the position advances by \<open>n\<close>, and nothing else of the
  reader changes.
\<close>

theorem read_refines_disk:
  assumes "reader_ok r" and "chunks_bounded oc cd r"
    and "aff4_read oc cd r buf = Inr (n, buf', r')"
  shows "n \<le> length buf \<and> length buf' = length buf \<and>
    map Some (take n buf') = map (disk_byte oc cd r) [unat (rd_pos r)..<unat (rd_pos r) + n] \<and>
    drop n buf' = drop n buf \<and> r' = r\<lparr>rd_pos := rd_pos r'\<rparr> \<and>
    unat (rd_pos r') = unat (rd_pos r) + n \<and>
    (0 < n \<longrightarrow> unat (rd_pos r') \<le> unat (rd_virtual_size r))"
  using disk.rd_bytes [OF conjI [OF assms(1,2)] assms(3)] aff4_read_shape [OF assms(3)]
  by (auto simp: read_shape_def)

lemma read_refines_disk_witness:
  "map Some (take 3 [5, 6, 7]) = map (disk_byte True demo_codecs demo_reader) [0..<0 + 3]"
  using read_refines_disk [OF demo_reader_ok demo_chunks_bounded demo_read, of True demo_codecs]
  by simp

text \<open>
  Reading never stalls: where the disk has a byte at the current position and the buffer has
  room, \<open>read\<close> succeeds and returns at least one byte.
\<close>

lemma read_progresses:
  assumes "reader_ok r" and "buf \<noteq> []" and "unat (rd_pos r) < unat (rd_virtual_size r)"
    and "disk_byte oc cd r (unat (rd_pos r)) \<noteq> None"
  shows "\<exists>n buf' r'. aff4_read oc cd r buf = Inr (n, buf', r') \<and> 0 < n"
  by (rule aff4_read_progress [OF assms])

lemma read_progresses_witness:
  "\<exists>n buf' r'. aff4_read True demo_codecs demo_reader [0] = Inr (n, buf', r') \<and> 0 < n"
  by (rule read_progresses [OF demo_reader_ok]) (simp_all add: demo_byte_0)

text \<open>
  A read that returns 0 means the end: where the current position holds a byte of the image,
  \<open>read\<close> returns 0 exactly into an empty buffer and at or after the virtual size.
\<close>

lemma read_zero_iff:
  assumes "reader_ok r" and "disk_byte oc cd r (unat (rd_pos r)) \<noteq> None"
  shows "(\<exists>buf' r'. aff4_read oc cd r buf = Inr (0, buf', r')) \<longleftrightarrow>
    buf = [] \<or> unat (rd_virtual_size r) \<le> unat (rd_pos r)"
proof
  assume "\<exists>buf' r'. aff4_read oc cd r buf = Inr (0, buf', r')"
  then obtain b0 r0 where zero: "aff4_read oc cd r buf = Inr (0, b0, r0)" by blast
  show "buf = [] \<or> unat (rd_virtual_size r) \<le> unat (rd_pos r)"
  proof (rule ccontr)
    assume "\<not> (buf = [] \<or> unat (rd_virtual_size r) \<le> unat (rd_pos r))"
    then have "buf \<noteq> []" "unat (rd_pos r) < unat (rd_virtual_size r)" by simp_all
    from aff4_read_progress [OF assms(1) this assms(2)] zero show False by auto
  qed
next
  assume "buf = [] \<or> unat (rd_virtual_size r) \<le> unat (rd_pos r)"
  then show "\<exists>buf' r'. aff4_read oc cd r buf = Inr (0, buf', r')"
    by (auto simp: aff4_read_eq word_le_nat_alt)
qed

lemma read_zero_iff_witness:
  "(\<exists>buf' r'. aff4_read True demo_codecs demo_reader [0] = Inr (0, buf', r')) \<longleftrightarrow>
    [0 :: u8] = [] \<or> unat (rd_virtual_size demo_reader) \<le> unat (rd_pos demo_reader)"
  by (rule read_zero_iff [OF demo_reader_ok]) (simp add: demo_byte_0)

text \<open>
  C14. \<open>seek\<close> on a disk whose virtual size and current position are below $2^{63}$ (opening does
  not bound the declared size): the requested position (from the start, the end or the current
  position) is taken exactly when it lies in $[0, 2^{63})$, otherwise it is refused with
  \<open>InvalidInput\<close>; only a relative request beyond $2^{63}$ panics, and only in a build with overflow
  checks.
\<close>

theorem seek_positions:
  assumes "unat (rd_virtual_size r) < 2 ^ 63" and "unat (rd_pos r) < 2 ^ 63"
  shows "aff4_seek oc r whence =
    (let t = seek_request r whence in
     if t < 0 then Inl (Err seek_error)
     else if t < 2 ^ 63 then Inr (word_of_int t, r\<lparr>rd_pos := word_of_int t\<rparr>)
     else if oc \<and> (\<forall>n. whence \<noteq> Start n) then Inl (Panic ArithmeticOverflow)
     else Inl (Err seek_error))"
  by (rule aff4_seek_eq [OF assms])

lemma seek_positions_witness:
  "aff4_seek True demo_reader (End (word_of_int (- 30))) = Inl (Err seek_error)"
proof -
  have "sint (word_of_int (- 30) :: u64) = - 30" by (rule sint_of_int_small) simp_all
  then have "seek_request demo_reader (End (word_of_int (- 30))) = - 6" by simp
  with seek_positions [of demo_reader True "End (word_of_int (- 30))"] show ?thesis
    by simp
qed

text \<open>
  Beyond those bounds: opening takes any declared size, and a seek from the end of a disk of more
  than $2^{63}$ bytes panics with overflow checks even for a position in range.
\<close>

lemma seek_from_end_of_huge_disk:
  assumes "rd_virtual_size r = 0x8000000000000005"
  shows "aff4_seek True r (End (- 10)) = Inl (Panic ArithmeticOverflow)"
    and "aff4_seek oc r (End (- 1)) = Inl (Err seek_error)"
  using assms by (simp_all add: aff4_seek_def plain_add_i64_def seek_error_def)

text \<open>
  A chunk that decodes to more than the chunk size is not cut there: a read returns its surplus
  bytes as the content of the next chunk's positions.
\<close>

lemma oversized_chunk_spills:
  assumes "rd_loaded_map r = None" and "rd_pos r = 0" and "0 < rd_chunk_size r"
    and "read_chunk oc cd r 0 = Inr chunk" and "chunk \<noteq> []"
    and "length buf = length chunk" and "length chunk \<le> unat (rd_virtual_size r)"
  shows "aff4_read oc cd r buf =
    Inr (length chunk, chunk, r\<lparr>rd_pos := word_of_nat (length chunk)\<rparr>)"
proof -
  have "unat (rd_virtual_size r) < 2 ^ 64" using unat_bound [of "rd_virtual_size r"] by simp
  then have l: "length chunk < 2 ^ 64" using assms(7) by linarith
  have "buf \<noteq> []" "rd_virtual_size r \<noteq> 0" using assms(5-7) by auto
  moreover have "plain_add oc 0 (word_of_nat (length chunk)) = (Inr (word_of_nat (length chunk)) :: u64 io_result)"
    using l by (subst plain_add_small) simp_all
  moreover have "unat (- 1 :: u64) = 2 ^ 64 - 1" by (simp add: unsigned_minus_1_eq_mask mask_eq_exp_minus_1)
  ultimately show ?thesis
    using assms l by (simp add: aff4_read_eq region_at_def advance_def Let_def subrange_def)
qed

text \<open>
  C8. A session on a reader with a well-formed map (in order, not overlapping, within 64 bits) and
  no chunk that decodes to more than the chunk size: after any sequence of reads, seeks and
  failures the reader differs from the first one in its position only, and everything the session
  has read is the content of the image at the positions it was read at.
\<close>

theorem session_reads_image:
  assumes "session oc cd r es r'" and "reader_ok r" and "chunks_bounded oc cd r"
  shows "same_image r r' \<and>
    (\<forall>p data. Got p data \<in> set es \<longrightarrow>
       map Some data = map (disk_byte oc cd r) [p..<p + length data])"
  using session_same_image [OF assms(1)] session_content [OF assms] by blast

lemma session_reads_image_witness:
  "\<exists>r'. session True demo_codecs demo_reader [Got 0 [5, 6, 7]] r' \<and> same_image demo_reader r' \<and>
    map Some [5, 6, 7] = map (disk_byte True demo_codecs demo_reader) [0..<3]"
proof -
  have "session_step True demo_codecs demo_reader (Got (unat (rd_pos demo_reader)) (take 3 [5, 6, 7]))
      (demo_reader\<lparr>rd_pos := 3\<rparr>)"
    by (rule step_read [OF demo_read])
  then have s: "session True demo_codecs demo_reader [Got 0 [5, 6, 7]] (demo_reader\<lparr>rd_pos := 3\<rparr>)"
    by (intro session_more [OF _ session_done]) simp
  from session_reads_image [OF s demo_reader_ok demo_chunks_bounded] s show ?thesis
    by (intro exI [of _ "demo_reader\<lparr>rd_pos := 3\<rparr>"]) (auto simp: numeral_3_eq_3)
qed

text \<open>
  C27. The position stays meaningful: from an opened reader on, through any session, it is below
  $2^{63}$ or within the virtual size.
\<close>

theorem session_position:
  assumes "open_reader zo sr backing = Inr r" and "session oc cd r es r'"
  shows "(unat (rd_pos r') < 2 ^ 63 \<or> rd_pos r' \<le> rd_virtual_size r') \<and> reader_wf r'"
proof -
  have wf: "reader_wf r" "rd_pos r = 0" using open_reader_wf [OF assms(1)] by auto
  then have "pos_in_range r" by (simp add: pos_in_range_def)
  from session_pos_in_range [OF assms(2) this] have "pos_in_range r'" .
  moreover have "reader_wf r'"
    using same_image_facts(3) [OF session_same_image [OF assms(2)]] wf(1) by simp
  ultimately show ?thesis by (simp add: pos_in_range_def)
qed

lemma fixture_opens:
  "open_reader (\<lambda>_. Inr (archive_of (single_chunk_entries ''aff4:NullCompressor'' stored))) sr b =
     Inr (stream_reader (single_chunk_entries ''aff4:NullCompressor'' stored) 512 512 1)"
proof -
  have "open_reader (\<lambda>_. Inr (archive_of (single_chunk_entries ''aff4:NullCompressor'' stored))) sr b =
    (if 512 = (0 :: nat) then Inl (bad_format ''aff4:chunkSize must be > 0'')
     else if 1 = (0 :: nat) then Inl (bad_format ''aff4:chunksInSegment must be > 0'')
     else Inr (stream_reader (single_chunk_entries ''aff4:NullCompressor'' stored) 512 512 1))"
    by (rule open_stream_archive) (rule refl, rule single_chunk_turtle, simp_all)
  then show ?thesis by simp
qed

lemma session_position_witness:
  "\<exists>r. (unat (rd_pos r) < 2 ^ 63 \<or> rd_pos r \<le> rd_virtual_size r) \<and> reader_wf r"
  using session_position [OF fixture_opens session_done, of "replicate 512 7"] by blast

end
