(* ===== verification/Image_Properties.thy ===== *)
theory Image_Properties
  imports Examples
begin

text \<open>
  The properties of whole images: what opening establishes, chunks and their names, the content
  stream, positioned reads, images written by the reference writer and by the fixture builder,
  and the absence of panics.
\<close>

section \<open>Opening\<close>

lemma fixture_opens_reader:
  assumes "zo b = Inr (archive_of (single_chunk_entries ''aff4:NullCompressor'' stored))"
  shows "open_reader zo sr b =
    Inr (stream_reader (single_chunk_entries ''aff4:NullCompressor'' stored) 512 512 1)"
proof -
  have "open_reader zo sr b =
    (if 512 = (0 :: nat) then Inl (bad_format ''aff4:chunkSize must be > 0'')
     else if 1 = (0 :: nat) then Inl (bad_format ''aff4:chunksInSegment must be > 0'')
     else Inr (stream_reader (single_chunk_entries ''aff4:NullCompressor'' stored) 512 512 1))"
    by (rule open_stream_archive) (rule assms, rule single_chunk_turtle, simp_all)
  then show ?thesis by simp
qed

text \<open>
  C26. Whatever the container says, an opened reader has positive chunk geometry and starts at
  position 0; if it has a map, the entries are sorted by map offset, none is empty, and gaps read
  as zeros or as 0xFF.
\<close>

theorem open_establishes:
  assumes "open_reader zo sr backing = Inr r"
  shows "0 < rd_chunk_size r \<and> 0 < rd_chunks_per_segment r \<and> rd_pos r = 0 \<and>
    (\<forall>lm. rd_loaded_map r = Some lm \<longrightarrow>
       sorted (map me_map_offset (lm_entries lm)) \<and>
       (\<forall>e \<in> set (lm_entries lm). 0 < me_length e) \<and>
       (lm_gap_default lm = Fill 0 \<or> lm_gap_default lm = Fill 0xFF))"
  using open_reader_wf [OF assms] by (auto simp: reader_wf_def list_all_iff)

lemma open_establishes_witness: "\<exists>r :: aff4_reader. 0 < rd_chunk_size r \<and> rd_pos r = 0"
  using open_establishes [OF fixture_opens_reader [of "\<lambda>_. Inr (archive_of
      (single_chunk_entries ''aff4:NullCompressor'' (replicate 512 1)))", OF refl]]
  by blast

section \<open>Chunks\<close>



lemma chunk_bounds_short:
  assumes "12 * unat k + 12 < 2 ^ 64" and "length index < 12 * unat k + 12"
  shows "chunk_bounds_from_index oc index k =
    Inl (bad_format (''bevy index too small for chunk '' @ dec (unat k)))"
proof -
  have base: "unat (k * 12) = 12 * unat k" using assms(1) by (subst unat_mult_small) simp_all
  have top: "unat (k * 12 + 12) = 12 * unat k + 12"
    using assms(1) base by (subst unat_add_small) simp_all
  have cm: "checked_mul k 12 = Some (k * 12)" using assms(1) by (simp add: checked_mul_def)
  have pa: "plain_add oc (k * 12) 12 = (Inr (k * 12 + 12) :: u64 aff4_result)"
    using assms(1) base by (intro plain_add_small) simp
  have gr: "get_range index (unat (k * 12)) (unat (k * 12 + 12)) = None"
    unfolding base top using assms(2) by (simp add: get_range_def)
  show ?thesis by (simp add: chunk_bounds_from_index_eq cm pa gr)
qed

text \<open>
  Chunks beyond the index are refused: in an index file with no room for the entry of the
  chunk, \<open>read_chunk\<close> fails with \<open>BadFormat\<close>, and so it does when the range runs past the bevy.
\<close>

lemma read_chunk_refuses:
  assumes "rd_chunks_per_segment r \<noteq> 0" and "12 * unat (rd_chunks_per_segment r) < 2 ^ 64"
    and "read_zip_entry_bytes (rd_archive r)
      (segment_name (rd_zip_base r) (i div rd_chunks_per_segment r) @ ''.index'') = Inr index"
  shows "(length index < 12 * unat (i mod rd_chunks_per_segment r) + 12 \<longrightarrow>
      is_bad_format (read_chunk oc cd r i)) \<and>
    (\<forall>a b bevy. chunk_bounds_from_index oc index (i mod rd_chunks_per_segment r) = Inr (a, b) \<and> a \<noteq> b \<and>
      read_zip_entry_bytes (rd_archive r)
        (segment_name (rd_zip_base r) (i div rd_chunks_per_segment r)) = Inr bevy \<and>
      length bevy < unat b \<longrightarrow> is_bad_format (read_chunk oc cd r i))"
proof -
  have "unat (i mod rd_chunks_per_segment r) < unat (rd_chunks_per_segment r)"
    using assms(1) by (simp add: unat_mod word_gt_0 word_less_nat_alt unat_gt_0)
  then have "12 * unat (i mod rd_chunks_per_segment r) + 12 < 2 ^ 64" using assms(2) by simp
  note short = chunk_bounds_short [OF this]
  show ?thesis
    using assms(1,3) by (auto simp: read_chunk_eq Let_def short bounds_error_def)
qed

lemma read_chunk_refuses_witness:
  "is_bad_format (read_chunk True demo_codecs
     (demo_reader\<lparr>rd_archive := archive_of [(''s/00000000.index'', [])]\<rparr>) 0)"
proof -
  have name: "segment_name ''s'' 0 @ ''.index'' = ''s/00000000.index''" by code_simp
  have "read_zip_entry_bytes (archive_of [(''s/00000000.index'', [])]) (segment_name ''s'' 0 @ ''.index'') =
      Inr []"
    unfolding name by (rule read_archive_of) simp
  with read_chunk_refuses [of "demo_reader\<lparr>rd_archive := archive_of [(''s/00000000.index'', [])]\<rparr>" 0 "[]"
      True demo_codecs]
  show ?thesis by (simp add: demo_reader_def)
qed

text \<open>
  The names of the segments of a stream are pairwise different, and none is the name of an
  index file, so no chunk is read from another chunk's segment.
\<close>

lemma segment_names_distinct:
  "(segment_name zb i = segment_name zb j \<longleftrightarrow> i = j) \<and>
   segment_name zb i \<noteq> segment_name zb j @ ''.index''"
proof
  show "segment_name zb i = segment_name zb j \<longleftrightarrow> i = j" by (simp add: segment_name_def)
  show "segment_name zb i \<noteq> segment_name zb j @ ''.index''"
  proof
    assume "segment_name zb i = segment_name zb j @ ''.index''"
    then have "CHR ''.'' \<in> set (hex08 i)" by (simp add: segment_name_def)
    moreover have "is_ascii_hexdigit c" if "c \<in> set (hex08 i)" for c
      using that hex_nat_digits [of c "unat i"]
      by (auto simp: hex08_def pad_left_def is_ascii_hexdigit_def to_digit16_def)
    moreover have "\<not> is_ascii_hexdigit (CHR ''.'')" by code_simp
    ultimately show False by blast
  qed
qed

text \<open>
  The directory of a stream in the archive: the URL-encoded IRI, the literal IRI and the bare
  path are tried in this order, the first that some entry lies under is taken, and the bare path
  when none does; so a stream with any segment in the archive is found under a name that has one.
\<close>

lemma detect_zip_base_finds:
  assumes "arn = ''aff4://'' @ path"
  shows "base_of a arn =
    (let under = (\<lambda>c. \<exists>t. c @ CHR ''/'' # t \<in> set (za_file_names a)) in
     if under (''aff4%3A%2F%2F'' @ path) then ''aff4%3A%2F%2F'' @ path
     else if under arn then arn else path)"
proof -
  have sp: "strip_prefix arn ''aff4://'' = Some path" using assms by simp
  show ?thesis
    unfolding base_of_def Let_def sp option.case find.simps is_base_iff
    by (simp only: option.case split: if_split) simp
qed

lemma detect_zip_base_finds_witness:
  "base_of (archive_of [(''e/00000000'', [])]) ''aff4://e'' =
    (let under = (\<lambda>c. \<exists>t. c @ CHR ''/'' # t \<in> set (za_file_names (archive_of [(''e/00000000'', [])]))) in
     if under (''aff4%3A%2F%2F'' @ ''e'') then ''aff4%3A%2F%2F'' @ ''e''
     else if under ''aff4://e'' then ''aff4://e'' else ''e'')"
  by (rule detect_zip_base_finds) simp

text \<open>
  A declared chunk size above the largest allocation is not refused at opening: reading a
  chunk that was stored as nothing then panics in the allocation of its zeros.
\<close>

lemma oversized_sparse_chunk_panics:
  assumes "bevies_held (rd_archive r) (rd_zip_base r) (rd_chunks_per_segment r) stored"
    and "i < length stored" and "stored ! i = []" and "isize_max < unat (rd_chunk_size r)"
  shows "read_chunk oc cd r (word_of_nat i) = Inl (Panic CapacityOverflow)"
  using assms(3,4) by (simp add: read_chunk_held [OF assms(1,2)] chunk_of_def with_capacity_def)

lemma oversized_sparse_chunk_panics_witness:
  "read_chunk True demo_codecs (demo_reader\<lparr>rd_chunk_size := 0xFFFFFFFFFFFFFFFF,
     rd_archive := archive_of [(''s/00000000'', []), (''s/00000000.index'', index_entry 0 0)]\<rparr>)
     (word_of_nat 0) = Inl (Panic CapacityOverflow)"
proof (rule oversized_sparse_chunk_panics [of _ "[[]]"])
  let ?a = "archive_of [(''s/00000000'', []), (''s/00000000.index'', index_entry 0 0)]"
  have name: "segment_name ''s'' (word_of_nat 0) = ''s/00000000''" by code_simp
  have seg: "segment_chunks 1 [[]] 0 = [[]]" by (simp add: segment_chunks_def)
  have "segment_held ?a ''s'' 1 [[]] 0"
    unfolding segment_held_def seg name
    using read_archive_of [of "[(''s/00000000'', []), (''s/00000000.index'', index_entry 0 0)]"]
    by (simp add: packed_index_def)
  then show "bevies_held
      (rd_archive (demo_reader\<lparr>rd_chunk_size := 0xFFFFFFFFFFFFFFFF, rd_archive := ?a\<rparr>))
      (rd_zip_base (demo_reader\<lparr>rd_chunk_size := 0xFFFFFFFFFFFFFFFF, rd_archive := ?a\<rparr>))
      (rd_chunks_per_segment (demo_reader\<lparr>rd_chunk_size := 0xFFFFFFFFFFFFFFFF, rd_archive := ?a\<rparr>))
      [[]]"
    by (simp add: bevies_held_def) (simp add: demo_reader_def)
qed (simp_all add: isize_max_def)

section \<open>The content stream\<close>

text \<open>
  When every chunk the stream size needs can be read in full, streaming the content calls the
  sink with pieces that, joined, are exactly the bytes of the image stream, no more than its
  declared size, in order, whatever the sink; the number of chunks is the size divided by the
  chunk size, rounded up.
\<close>

lemma content_is_stream:
  assumes "0 < rd_chunk_size r" and "chunks_full oc cd r"
  shows "\<exists>ps. (\<forall>sink (s :: 's). read_image_stream_content oc cd r sink s = (foldl sink s ps, Inr ())) \<and>
    map Some (concat ps) = map (stream_byte oc cd r) [0..<unat (rd_image_stream_size r)]"
proof -
  obtain ps where "\<And>sink (s :: 's). read_image_stream_content oc cd r sink s = (foldl sink s ps, Inr ())"
    and "map Some (concat ps) = map (stream_byte oc cd r) [0..<unat (rd_image_stream_size r)]"
    using content_complete [OF assms] by blast
  then show ?thesis by blast
qed

lemma demo_full: "chunks_full oc cd demo_reader"
proof -
  have "chunk_count demo_reader = 1" by (simp add: chunk_count_def div_ceil_def)
  then show ?thesis by (simp add: chunks_full_def demo_chunk_read) (simp add: demo_chunk_def)
qed

lemma content_is_stream_witness:
  "\<exists>ps. fst (read_image_stream_content True demo_codecs demo_reader (\<lambda>acc p. acc @ p) []) = concat ps"
proof -
  obtain ps where "read_image_stream_content True demo_codecs demo_reader (\<lambda>acc p. acc @ p) [] =
      (foldl (\<lambda>acc p. acc @ p) [] ps, Inr ())"
    using content_is_stream [where 's = bytes, of demo_reader True demo_codecs, OF _ demo_full] by auto
  moreover have "foldl (\<lambda>acc p. acc @ p) acc ps = acc @ concat ps" for acc :: bytes
    by (induction ps arbitrary: acc) auto
  ultimately show ?thesis by (metis append_Nil fst_conv)
qed

section \<open>Positioned reads\<close>

text \<open>
  C9. On a source with a well-formed map (in order, not overlapping, within 64 bits) and no chunk
  that decodes to more than the chunk size, a positioned read that returns \<open>k\<close> has put the content
  of the \<open>k\<close> positions from the offset on at the front of the buffer, never past the end of the
  disk, and has kept the buffer's length; the source stays such a source.
\<close>

theorem read_at_reads_disk:
  assumes "source_ok oc cd src" and "read_at oc cd src off buf = (Inr k, buf', src')"
  shows "k \<le> min (length buf) (unat (src_len src) - unat off) \<and> length buf' = length buf \<and>
    map Some (take k buf') = map (disk_byte oc cd (src_inner src)) [unat off..<unat off + k] \<and>
    source_ok oc cd src' \<and> src_len src' = src_len src"
  using read_at_content [OF assms] read_at_same_source [OF assms(2)]
  by (simp add: wanted_def same_source_def)

lemma demo_source_ok: "source_ok oc cd (aff4_source_new demo_reader)"
  by (simp add: source_ok_def aff4_source_new_def virtual_disk_size_def demo_reader_ok
      demo_chunks_bounded)

lemma read_at_reads_disk_witness:
  "\<exists>k buf' src'. read_at True demo_codecs (aff4_source_new demo_reader) 0 [0] = (Inr k, buf', src') \<and>
    map Some (take k buf') = map (disk_byte True demo_codecs demo_reader) [0..<k]"
proof -
  have "fst (read_at True demo_codecs (aff4_source_new demo_reader) 0 [0]) =
      Inr (wanted (aff4_source_new demo_reader) 0 [0])"
  proof (rule read_at_complete [OF demo_source_ok])
    fix p assume "unat (0 :: u64) \<le> p" "p < unat (0 :: u64) + wanted (aff4_source_new demo_reader) 0 [0]"
    then have "p = 0" by (simp add: wanted_def)
    then show "disk_byte True demo_codecs (src_inner (aff4_source_new demo_reader)) p \<noteq> None"
      by (simp add: aff4_source_new_def demo_byte_0)
  qed simp
  then obtain buf' src' where
    r: "read_at True demo_codecs (aff4_source_new demo_reader) 0 [0] =
      (Inr (wanted (aff4_source_new demo_reader) 0 [0]), buf', src')"
    by (metis prod_cases3 fst_conv)
  from read_at_reads_disk [OF demo_source_ok r] r show ?thesis
    by (auto simp: aff4_source_new_def)
qed

text \<open>
  C2. A positioned read is never short without reason: on a source with a well-formed map (in order,
  not overlapping, within 64 bits) and no chunk that decodes to more than the chunk size, at an
  offset below $2^{63}$ and where all the positions asked for hold bytes, it fills everything the
  buffer and the disk allow, across map entries, chunks, segments and gaps.
\<close>

theorem read_at_fills:
  assumes "source_ok oc cd src" and "unat off < 2 ^ 63"
    and "\<And>p. unat off \<le> p \<Longrightarrow> p < unat off + min (length buf) (unat (src_len src) - unat off) \<Longrightarrow>
      disk_byte oc cd (src_inner src) p \<noteq> None"
  shows "fst (read_at oc cd src off buf) = Inr (min (length buf) (unat (src_len src) - unat off))"
  using read_at_complete [OF assms(1,2)] assms(3) by (simp add: wanted_def)

lemma read_at_fills_witness:
  "fst (read_at True demo_codecs (aff4_source_new demo_reader) 0 [0]) = Inr (min 1 (24 - 0))"
proof -
  have "fst (read_at True demo_codecs (aff4_source_new demo_reader) 0 [0]) =
    Inr (min (length [0 :: u8]) (unat (src_len (aff4_source_new demo_reader)) - unat (0 :: u64)))"
  proof (rule read_at_fills [OF demo_source_ok])
    fix p assume "p < unat (0 :: u64) + min (length [0 :: u8])
        (unat (src_len (aff4_source_new demo_reader)) - unat (0 :: u64))"
    then have "p = 0" by simp
    then show "disk_byte True demo_codecs (src_inner (aff4_source_new demo_reader)) p \<noteq> None"
      by (simp add: aff4_source_new_def demo_byte_0)
  qed simp
  then show ?thesis by (simp add: aff4_source_new_def virtual_disk_size_def)
qed

text \<open>
  C13. Calls from any number of threads, one after the other under the lock in whatever order:
  each gets the result and the buffer it would get alone on the source as it was at first.
\<close>

theorem calls_are_independent:
  "fst (run_calls oc cd src calls) =
     map (\<lambda>(off, buf). case read_at oc cd src off buf of (res, buf', _) \<Rightarrow> (res, buf')) calls"
  by (simp add: run_calls_answers answer_def case_prod_unfold)

section \<open>Written images\<close>

lemma read_at_whole:
  fixes buf :: bytes
  assumes ok: "source_ok oc cd src" and off: "unat off < 2 ^ 63"
    and bytes: "\<And>p. p < unat (src_len src) \<Longrightarrow> disk_byte oc cd (src_inner src) p = Some (content ! p)"
    and len: "unat (src_len src) \<le> length content"
  defines "k \<equiv> min (length buf) (unat (src_len src) - unat off)"
  shows "fst (read_at oc cd src off buf) = Inr k"
    and "take k (fst (snd (read_at oc cd src off buf))) = take k (drop (unat off) content)"
proof -
  have in_disk: "p < unat (src_len src)" if "unat off \<le> p" "p < unat off + k" for p
    using that by (simp add: k_def)
  have "fst (read_at oc cd src off buf) = Inr (wanted src off buf)"
  proof (rule read_at_complete [OF ok off])
    fix p assume "unat off \<le> p" "p < unat off + wanted src off buf"
    then show "disk_byte oc cd (src_inner src) p \<noteq> None"
      using bytes in_disk by (simp add: wanted_def k_def)
  qed
  then show f: "fst (read_at oc cd src off buf) = Inr k" by (simp add: wanted_def k_def)
  obtain res buf' src' where r: "read_at oc cd src off buf = (res, buf', src')"
    by (metis prod_cases3)
  with f have "read_at oc cd src off buf = (Inr k, buf', src')" by simp
  from read_at_content [OF ok this]
  have c: "map Some (take k buf') = map (disk_byte oc cd (src_inner src)) [unat off..<unat off + k]"
    by blast
  also have "\<dots> = map Some (take k (drop (unat off) content))"
  proof (cases "k = 0")
    case False
    then have "unat off + k \<le> length content" using len by (auto simp: k_def)
    then show ?thesis using bytes in_disk by (intro nth_equalityI) auto
  qed simp
  finally have "take k buf' = take k (drop (unat off) content)"
    by (simp add: inj_map_eq_map)
  with r show "take k (fst (snd (read_at oc cd src off buf))) = take k (drop (unat off) content)"
    by simp
qed

text \<open>
  C3. Round trip of an image without a map: full chunks written by the reference writer (encoded by a
  codec the reader undoes when that is shorter, verbatim otherwise) into bevies read back as
  written, at every offset below $2^{63}$ and for every buffer, when no chunk decodes to more than
  the chunk size.
\<close>

theorem written_image_reads_back:
  fixes buf :: bytes
  assumes "bevies_held (rd_archive r) (rd_zip_base r) (rd_chunks_per_segment r)
      (map (store_chunk enc) chunks)"
    and "encodes cd r enc" and "0 < rd_chunk_size r"
    and "list_all (\<lambda>c. length c = unat (rd_chunk_size r)) chunks"
    and "rd_loaded_map r = None" and "chunks_bounded oc cd r"
    and "unat (rd_virtual_size r) \<le> length (concat chunks)" and "unat off < 2 ^ 63"
  defines "k \<equiv> min (length buf) (unat (rd_virtual_size r) - unat off)"
  shows "fst (read_at oc cd (aff4_source_new r) off buf) = Inr k \<and>
    take k (fst (snd (read_at oc cd (aff4_source_new r) off buf))) =
      take k (drop (unat off) (concat chunks))"
proof -
  have "reader_ok r" using assms(1,3,5) by (simp add: reader_ok_def bevies_held_def)
  then have ok: "source_ok oc cd (aff4_source_new r)"
    using assms(6) by (simp add: source_ok_def aff4_source_new_def virtual_disk_size_def)
  have "disk_byte oc cd r p = Some (concat chunks ! p)" if "p < unat (rd_virtual_size r)" for p
    using written_stream [OF assms(1-4), of p oc] that assms(5,7)
    by (simp add: disk_byte_def locate_in_def)
  with read_at_whole [OF ok assms(8), of "concat chunks" buf] assms(7) show ?thesis
    by (simp add: aff4_source_new_def virtual_disk_size_def k_def)
qed

lemma written_image_reads_back_witness:
  "take 2 (fst (snd (read_at True demo_codecs (aff4_source_new (demo_reader
      \<lparr>rd_loaded_map := None, rd_virtual_size := 16\<rparr>)) 3 [0, 0]))) = [4, 5]"
proof -
  let ?r = "demo_reader\<lparr>rd_loaded_map := None, rd_virtual_size := 16\<rparr>"
  have "rd_compression demo_reader = Null" by (simp add: demo_reader_def)
  then have enc: "encodes demo_codecs ?r id" by (simp add: encodes_def)
  have bounded: "chunks_bounded True demo_codecs ?r"
    by (rule chunks_bounded_small [of _ demo_entries])
      (auto simp: demo_reader_def demo_entries_def demo_chunk_def)
  have held: "bevies_held (rd_archive ?r) (rd_zip_base ?r) (rd_chunks_per_segment ?r)
      (map (store_chunk id) [demo_chunk])"
    using demo_held by simp
  have "length demo_chunk = 16" by (simp add: demo_chunk_def)
  with written_image_reads_back [OF held enc, of True 3 "[0, 0]"] bounded
  have "take (Suc (Suc 0)) (fst (snd (read_at True demo_codecs (aff4_source_new ?r) 3 [0, 0]))) = [4, 5]"
    by (simp add: demo_chunk_def)
  then show ?thesis by (simp only: numeral_2_eq_2)
qed

text \<open>
  The single-chunk fixture, for every data: its bytes open, and every positioned read of the
  opened image gives the data back, cut or padded with zeros to 512 bytes.
\<close>

lemma fixture_reads_back:
  assumes "zo (test_aff4 zip_pack data) =
      Inr (archive_of (single_chunk_entries ''aff4:NullCompressor'' (padded_chunk data)))"
  shows "\<exists>r. open_reader zo sr (test_aff4 zip_pack data) = Inr r \<and>
    (\<forall>off buf k. unat off < 2 ^ 63 \<longrightarrow> k = min (length buf) (512 - unat off) \<longrightarrow>
       fst (read_at oc cd (aff4_source_new r) off buf) = Inr k \<and>
       take k (fst (snd (read_at oc cd (aff4_source_new r) off buf))) =
         take k (drop (unat off) (take 512 data @ replicate (512 - length data) 0)))"
proof -
  define r where
    "r = stream_reader (single_chunk_entries ''aff4:NullCompressor'' (padded_chunk data)) 512 512 1"
  note disk = single_chunk_disk [OF length_padded_chunk [of data], folded r_def]
  have ok: "source_ok oc cd (aff4_source_new r)"
    using disk(1,2) by (simp add: source_ok_def aff4_source_new_def virtual_disk_size_def)
  have len: "unat (src_len (aff4_source_new r)) = 512"
    by (simp add: aff4_source_new_def virtual_disk_size_def r_def stream_reader_def)
  have bytes: "disk_byte oc cd (src_inner (aff4_source_new r)) p = Some (padded_chunk data ! p)"
    if "p < unat (src_len (aff4_source_new r))" for p
    using disk(3) that len by (simp add: aff4_source_new_def)
  have lenp: "unat (src_len (aff4_source_new r)) \<le> length (padded_chunk data)" by (simp add: len)
  have pad: "padded_chunk data = take 512 data @ replicate (512 - length data) 0"
    by (simp add: padded_chunk_def chunk_size_const_def)
  have "fst (read_at oc cd (aff4_source_new r) off buf) = Inr k \<and>
      take k (fst (snd (read_at oc cd (aff4_source_new r) off buf))) =
        take k (drop (unat off) (padded_chunk data))"
    if "unat off < 2 ^ 63" "k = min (length buf) (512 - unat off)" for off buf k
    using read_at_whole [OF ok that(1) bytes lenp, of buf] that(2) by (simp only: len simp_thms)
  moreover have "open_reader zo sr (test_aff4 zip_pack data) = Inr r"
    unfolding r_def by (rule fixture_opens_reader) (rule assms)
  ultimately show ?thesis unfolding pad by blast
qed

lemma fixture_reads_back_witness:
  "\<exists>r. open_reader (\<lambda>_. Inr (archive_of (single_chunk_entries ''aff4:NullCompressor'' (padded_chunk [7, 8]))))
      safe_read_impl (test_aff4 (\<lambda>_. []) [7, 8]) = Inr r \<and>
    fst (read_at True demo_codecs (aff4_source_new r) 1 [0, 0]) = Inr 2 \<and>
    take 2 (fst (snd (read_at True demo_codecs (aff4_source_new r) 1 [0, 0]))) = [8, 0]"
proof -
  let ?zo = "\<lambda>_ :: bytes. Inr (archive_of (single_chunk_entries ''aff4:NullCompressor'' (padded_chunk [7, 8])))"
  have "?zo (test_aff4 (\<lambda>_. []) [7, 8]) = (Inr (archive_of
      (single_chunk_entries ''aff4:NullCompressor'' (padded_chunk [7, 8]))) :: string + zip_archive)"
    by (rule refl)
  from fixture_reads_back [of ?zo "\<lambda>_. []" "[7, 8]", OF this, of safe_read_impl True demo_codecs]
  obtain r where o: "open_reader ?zo safe_read_impl (test_aff4 (\<lambda>_. []) [7, 8]) = Inr r"
    and rd: "\<And>off buf k. unat off < 2 ^ 63 \<Longrightarrow> k = min (length buf) (512 - unat off) \<Longrightarrow>
       fst (read_at True demo_codecs (aff4_source_new r) off buf) = Inr k \<and>
       take k (fst (snd (read_at True demo_codecs (aff4_source_new r) off buf))) =
         take k (drop (unat off) (take 512 [7, 8] @ replicate (512 - length [7 :: u8, 8]) 0))"
    by blast
  have "fst (read_at True demo_codecs (aff4_source_new r) 1 [0, 0]) = Inr 2 \<and>
      take 2 (fst (snd (read_at True demo_codecs (aff4_source_new r) 1 [0, 0]))) =
        take 2 (drop (unat (1 :: u64)) (take 512 [7, 8] @ replicate (512 - length [7 :: u8, 8]) 0))"
    by (rule rd) simp_all
  moreover have "take 2 (drop (unat (1 :: u64)) (take 512 [7, 8] @ replicate (512 - length [7 :: u8, 8]) 0)) = [8, 0 :: u8]"
    by (simp add: numeral_2_eq_2)
  ultimately show ?thesis using o by auto
qed

end
