(* ===== verification/Logical.thy ===== *)
theory Logical
  imports Reader Meta_Facts
begin

text \<open>
  AFF4-Logical containers (\<^verbatim>\<open>core/src/logical.rs\<close>): the entries of a container of files, the
  resolution of a file's IRI to a ZIP entry, opening, and reading a file. An opened container is
  the archive and the resolved entries.
\<close>

section \<open>Data\<close>

record logical_entry =
  le_segment :: string
  le_original_file_name :: string
  le_size :: u64
  le_hashes :: "stored_hash list"
  le_last_written :: "string option"

record logical_container =
  lc_archive :: zip_archive
  lc_files :: "logical_entry list"

text \<open>\<^verbatim>\<open>{:?}\<close> of a container: the number of its files.\<close>

definition debug_container :: "logical_container \<Rightarrow> string" where
  "debug_container c = ''LogicalContainer { files: '' @ dec (length (lc_files c)) @ '', .. }''"

section \<open>Resolving a segment\<close>

text \<open>\<^verbatim>\<open>Iterator::max_by_key\<close>: of several elements with the largest key, the last.\<close>

fun max_by_key :: "('a \<Rightarrow> nat) \<Rightarrow> 'a list \<Rightarrow> 'a option" where
  "max_by_key key [] = None"
| "max_by_key key (x # xs) =
     Some (foldl (\<lambda>best y. if key y < key best then best else y) x xs)"

definition urlencode_arn :: "string \<Rightarrow> string" where
  "urlencode_arn arn =
     (let stripped = (case strip_prefix arn ''aff4://'' of Some r \<Rightarrow> r | None \<Rightarrow> arn) in
      ''aff4%3A%2F%2F'' @ stripped)"

text \<open>The path of the IRI, from the first slash behind the authority on.\<close>

definition arn_tail :: "string \<Rightarrow> string aff4_result" where
  "arn_tail arn =
     (let after_scheme = (case strip_prefix arn ''aff4://'' of Some r \<Rightarrow> r | None \<Rightarrow> arn) in
      (case find_str after_scheme ''/'' of
         Some i \<Rightarrow> str_slice after_scheme i (length after_scheme)
       | None \<Rightarrow> Inr after_scheme))"

definition segment_candidates :: "string \<Rightarrow> string \<Rightarrow> string list" where
  "segment_candidates tail arn =
     [tail, trim_start_matches (\<lambda>c. c = CHR ''/'') tail, urlencode_arn arn]"

definition suffix_match :: "string \<Rightarrow> string \<Rightarrow> bool" where
  "suffix_match tail n \<longleftrightarrow> \<not> ends_with n ''/'' \<and>
     ends_with n (trim_start_matches (\<lambda>c. c = CHR ''/'') tail)"

definition resolve_segment :: "string list \<Rightarrow> string \<Rightarrow> string option aff4_result" where
  "resolve_segment names arn =
     and_then (arn_tail arn) (\<lambda>tail.
       Inr (case find (\<lambda>c. list_ex (\<lambda>n. n = c) names) (segment_candidates tail arn) of
              Some c \<Rightarrow> Some c
            | None \<Rightarrow> max_by_key length (filter (suffix_match tail) names)))"

text \<open>The cut at a slash is on a character boundary, so the tail and the segment are values.\<close>

definition path_tail :: "string \<Rightarrow> string" where
  "path_tail arn =
     (let after_scheme = (case strip_prefix arn ''aff4://'' of Some r \<Rightarrow> r | None \<Rightarrow> arn) in
      (case find_str after_scheme ''/'' of
         Some i \<Rightarrow> drop i after_scheme
       | None \<Rightarrow> after_scheme))"

lemma arn_tail_eq [simp]: "arn_tail arn = Inr (path_tail arn)"
proof -
  have "str_slice s i (length s) = (Inr (drop i s) :: string aff4_result)" if f: "find_str s ''/'' = Some i" for s i
  proof -
    have "i < length s" using find_str_SomeD [OF f] by simp
    moreover have "s ! i = CHR ''/''"
      using find_str_SomeD [OF f] by (auto simp: starts_with_iff nth_via_drop)
    ultimately show ?thesis by (simp add: boundary_before subrange_def)
  qed
  then show ?thesis by (simp add: arn_tail_def path_tail_def Let_def split: option.split)
qed

definition matching_segment :: "string list \<Rightarrow> string \<Rightarrow> string option" where
  "matching_segment names arn =
     (case find (\<lambda>c. list_ex (\<lambda>n. n = c) names) (segment_candidates (path_tail arn) arn) of
        Some c \<Rightarrow> Some c
      | None \<Rightarrow> max_by_key length (filter (suffix_match (path_tail arn)) names))"

lemma resolve_segment_eq [simp]: "resolve_segment names arn = Inr (matching_segment names arn)"
  by (simp add: resolve_segment_def matching_segment_def)

section \<open>Opening and reading\<close>

text \<open>Messages are UTF-8: the dash of the refusal below is its three bytes.\<close>

definition resolve_file :: "string list \<Rightarrow> logical_file_meta \<Rightarrow> logical_entry aff4_result" where
  "resolve_file names p =
     and_then (resolve_segment names (lf_arn p)) (\<lambda>found.
     and_then (ok_or (BadFormat (''FileImage '' @ lf_arn p @ '' has no matching ZIP segment'')) found)
       (\<lambda>segment. Inr
          \<lparr>le_segment = segment,
           le_original_file_name = lf_original_file_name p,
           le_size = lf_size p,
           le_hashes = lf_hashes p,
           le_last_written = lf_last_written p\<rparr>))"

definition logical_open_reader :: "zip_opener \<Rightarrow> bytes \<Rightarrow> logical_container aff4_result" where
  "logical_open_reader zo backing =
     and_then (zip_archive_new zo backing) (\<lambda>archive.
     and_then (information_turtle archive) (\<lambda>turtle.
     and_then (parse_logical_files turtle) (\<lambda>parsed.
       if parsed = []
       then Inl (bad_format
         (''no aff4:FileImage entries found '' @ [CHR 0xE2, CHR 0x80, CHR 0x94] @
          '' not an AFF4-Logical container''))
       else
         and_then (traverse (resolve_file (za_file_names archive)) parsed) (\<lambda>files.
           Inr \<lparr>lc_archive = archive, lc_files = files\<rparr>))))"

definition logical_open :: "file_system \<Rightarrow> zip_opener \<Rightarrow> string \<Rightarrow> logical_container aff4_result" where
  "logical_open fs zo path = and_then (open_file fs path) (logical_open_reader zo)"

definition files :: "logical_container \<Rightarrow> logical_entry list" where
  "files c = lc_files c"

definition read_file :: "logical_container \<Rightarrow> logical_entry \<Rightarrow> bytes aff4_result" where
  "read_file c e = and_then (by_name (lc_archive c) (le_segment e)) read_to_end"

section \<open>The longest entry\<close>

lemma foldl_max_in: "foldl (\<lambda>best y. if key y < key best then best else y) x xs \<in> set (x # xs)"
  by (induction xs arbitrary: x) force+

lemma foldl_max_ge:
  "y \<in> set (x # xs) \<Longrightarrow>
   (key y :: nat) \<le> key (foldl (\<lambda>best y. if key y < key best then best else y) x xs)"
proof (induction xs arbitrary: x y)
  case Nil
  then show ?case by simp
next
  case (Cons z zs)
  let ?b = "if key z < key x then x else z"
  have "key ?b \<le> key (foldl (\<lambda>best y. if key y < key best then best else y) ?b zs)"
    by (rule Cons.IH) simp
  moreover have "key x \<le> key ?b" "key z \<le> key ?b" by auto
  moreover have "key y \<le> key (foldl (\<lambda>best y. if key y < key best then best else y) ?b zs)"
    if "y \<in> set zs" using that by (intro Cons.IH) simp
  ultimately show ?case using Cons.prems by (fastforce simp del: foldl_Cons simp: foldl_Cons)
qed

lemma max_by_key_None [simp]: "max_by_key key xs = None \<longleftrightarrow> xs = []"
  by (cases xs) auto

lemma max_by_key_SomeD:
  "max_by_key key xs = Some m \<Longrightarrow> m \<in> set xs \<and> (\<forall>y \<in> set xs. key y \<le> key m)"
proof (cases xs)
  case (Cons x ys)
  moreover assume "max_by_key key xs = Some m"
  ultimately have m: "m = foldl (\<lambda>best y. if key y < key best then best else y) x ys" by simp
  show ?thesis unfolding m Cons using foldl_max_in [of key x ys] foldl_max_ge [of _ x ys key] by blast
qed simp

section \<open>What resolution finds\<close>

lemma find_candidate_None:
  "find (\<lambda>c. list_ex (\<lambda>n. n = c) names) cs = None \<longleftrightarrow> set cs \<inter> set names = {}"
  by (auto simp: find_None_iff list_ex_iff)

lemma matching_segment_cases:
  "matching_segment names arn = Some s \<Longrightarrow>
     s \<in> set names \<and>
     (s \<in> set (segment_candidates (path_tail arn) arn) \<or>
      set (segment_candidates (path_tail arn) arn) \<inter> set names = {} \<and> suffix_match (path_tail arn) s \<and>
      (\<forall>n \<in> set names. suffix_match (path_tail arn) n \<longrightarrow> length n \<le> length s))"
proof (cases "find (\<lambda>c. list_ex (\<lambda>n. n = c) names) (segment_candidates (path_tail arn) arn)")
  case (Some c)
  assume "matching_segment names arn = Some s"
  with Some have "find (\<lambda>c. list_ex (\<lambda>n. n = c) names) (segment_candidates (path_tail arn) arn) = Some s"
    by (simp add: matching_segment_def)
  then have "list_ex (\<lambda>n. n = s) names" "s \<in> set (segment_candidates (path_tail arn) arn)"
    by (auto simp: find_Some_iff)
  then show ?thesis by (auto simp: list_ex_iff)
next
  case None
  moreover assume "matching_segment names arn = Some s"
  ultimately have "max_by_key length (filter (suffix_match (path_tail arn)) names) = Some s"
    by (simp add: matching_segment_def)
  from max_by_key_SomeD [OF this] None show ?thesis by (auto simp: find_candidate_None)
qed

lemma matching_segment_None:
  "matching_segment names arn = None \<longleftrightarrow>
     set (segment_candidates (path_tail arn) arn) \<inter> set names = {} \<and> (\<forall>n \<in> set names. \<not> suffix_match (path_tail arn) n)"
  by (auto simp: matching_segment_def find_candidate_None [symmetric] filter_empty_conv
      split: option.splits)

text \<open>An entry stored under the path tail itself is the one found, whatever else the archive has.\<close>

lemma matching_segment_verbatim:
  "path_tail arn \<in> set names \<Longrightarrow> matching_segment names arn = Some (path_tail arn)"
  by (simp add: matching_segment_def segment_candidates_def list_ex_iff)

lemma matching_segment_stripped:
  "path_tail arn \<notin> set names \<Longrightarrow>
   trim_start_matches (\<lambda>c. c = CHR ''/'') (path_tail arn) \<in> set names \<Longrightarrow>
   matching_segment names arn = Some (trim_start_matches (\<lambda>c. c = CHR ''/'') (path_tail arn))"
  by (auto simp: matching_segment_def segment_candidates_def list_ex_iff)

lemma resolve_file_okD:
  "resolve_file names p = Inr e \<Longrightarrow>
     matching_segment names (lf_arn p) = Some (le_segment e) \<and>
     le_original_file_name e = lf_original_file_name p \<and> le_size e = lf_size p \<and>
     le_hashes e = lf_hashes p \<and> le_last_written e = lf_last_written p"
  by (auto simp: resolve_file_def)

section \<open>What opening guarantees\<close>

lemma logical_open_readerD:
  assumes "logical_open_reader zo backing = Inr c"
  obtains turtle parsed where "zip_archive_new zo backing = Inr (lc_archive c)"
    and "information_turtle (lc_archive c) = Inr turtle"
    and "parse_logical_files turtle = Inr parsed" and "parsed \<noteq> []"
    and "list_all2 (\<lambda>p e. resolve_file (za_file_names (lc_archive c)) p = Inr e) parsed (lc_files c)"
  using assms by (auto simp: logical_open_reader_def traverse_Inr_iff split: if_splits)

lemma no_panic_logical_open_reader [simp]: "no_panic (logical_open_reader zo backing)"
  by (auto simp: logical_open_reader_def zip_archive_new_def resolve_file_def
      intro!: no_panic_traverse no_panic_parse_logical_files dest: information_turtle_str_ok
      split: sum.split)

lemma no_panic_read_file [simp]: "no_panic (read_file c e)"
  by (auto simp: read_file_def)

end
