(* ===== verification/Crypto.thy ===== *)
theory Crypto
  imports Logical Bevy_Index
begin

text \<open>
  Encrypted containers (\<^verbatim>\<open>core/src/crypto.rs\<close>): key derivation, the two nested loops that
  decrypt the chunks of the segments in order, and the logical reader over the decrypted volume.
  PBKDF2, the RFC 3394 unwrap and AES-XTS are external crates; they are the fields of
  \<open>ciphers\<close>. \<open>xts_sector\<close> returns \<open>None\<close> where the external routine asserts, which its
  documentation states for a sector shorter than one AES block.
\<close>

section \<open>Parameters\<close>

text \<open>
  \<open>aes_kw_unwrap\<close> gives the unwrapped bytes; the call writes them to the front of the zeroed
  array \<^verbatim>\<open>vek: [u8; 32]\<close>, whose length cannot change.
\<close>

record ciphers =
  pbkdf2_sha256 :: "bytes \<Rightarrow> bytes \<Rightarrow> u32 \<Rightarrow> bytes"
  aes_kw_unwrap :: "bytes \<Rightarrow> bytes \<Rightarrow> bytes option"
  xts_sector :: "bytes \<Rightarrow> bytes \<Rightarrow> nat \<Rightarrow> bytes \<Rightarrow> bytes option"

section \<open>Key derivation\<close>

definition wrong_password :: aff4_error where
  "wrong_password = Encrypted ''wrong password (key-unwrap integrity check failed)''"

definition into_array :: "nat \<Rightarrow> bytes \<Rightarrow> bytes" where
  "into_array n k = take n (k @ replicate n 0)"

definition derive_vek :: "ciphers \<Rightarrow> string \<Rightarrow> encrypted_meta \<Rightarrow> bytes aff4_result" where
  "derive_vek ci password meta =
     (if em_key_size meta \<noteq> 32
      then Inl (Err (Encrypted
        (''unsupported keySizeInBytes '' @ dec (unat (em_key_size meta)) @
         '' (only 32-byte AES-128-XTS keys are supported)'')))
      else
        let kek = pbkdf2_sha256 ci (bytes_of_string password) (em_salt meta) (em_iterations meta) in
        and_then (ok_or wrong_password (aes_kw_unwrap ci kek (em_wrapped_key meta))) (\<lambda>k.
          Inr (into_array 32 k)))"

lemma into_array_id [simp]: "length k = n \<Longrightarrow> into_array n k = k"
  by (simp add: into_array_def)

lemma length_into_array [simp]: "length (into_array n k) = n"
  by (simp add: into_array_def)

lemma derive_vek_length: "derive_vek ci password meta = Inr vek \<Longrightarrow> length vek = 32"
  by (auto simp: derive_vek_def Let_def split: if_splits)

definition aes128_key :: "string \<Rightarrow> bytes \<Rightarrow> bytes aff4_result" where
  "aes128_key what k = (if length k = 16 then Inr k else Inl (bad_format what))"

section \<open>The chunks of a segment\<close>

definition read_entry :: "zip_archive \<Rightarrow> string \<Rightarrow> bytes aff4_result" where
  "read_entry archive name = and_then (by_name archive name) read_to_end"

definition encrypted_chunk_id :: "u64 \<Rightarrow> u64 \<Rightarrow> u64 \<Rightarrow> u64 option" where
  "encrypted_chunk_id cps segment k =
     Option.bind (checked_mul segment cps) (\<lambda>b. checked_add b k)"

definition xts_decrypt :: "(nat \<Rightarrow> bytes \<Rightarrow> bytes option) \<Rightarrow> nat \<Rightarrow> bytes \<Rightarrow> bytes aff4_result" where
  "xts_decrypt xts tweak sector =
     (case xts tweak sector of
        None \<Rightarrow> Inl (Panic (CalleePanic ''xts-mode: data too short''))
      | Some p \<Rightarrow> Inr p)"

fun decrypt_chunks ::
    "bool \<Rightarrow> (nat \<Rightarrow> bytes \<Rightarrow> bytes option) \<Rightarrow> u64 \<Rightarrow> u64 \<Rightarrow> bytes \<Rightarrow> bytes \<Rightarrow> u64 \<Rightarrow>
     u64 list \<Rightarrow> u64 \<Rightarrow> bytes \<Rightarrow> (u64 \<times> bytes) aff4_result" where
  "decrypt_chunks oc xts cps sz index bevy segment [] produced out = Inr (produced, out)"
| "decrypt_chunks oc xts cps sz index bevy segment (k # ks) produced out =
     (if sz \<le> produced then Inr (produced, out)
      else
        and_then (chunk_bounds_from_index oc index k) (\<lambda>(start, stop).
          if length bevy < unat stop
          then Inl (bounds_error ''encrypted chunk'' start stop (length bevy))
          else
            and_then (slice_of bevy (unat start) (unat stop)) (\<lambda>stored.
            and_then (ok_or (BadFormat ''encrypted chunk index overflow'')
                        (encrypted_chunk_id cps segment k)) (\<lambda>chunk_id.
            and_then (xts_decrypt xts (unat chunk_id) stored) (\<lambda>sector.
            and_then (plain_sub oc sz produced) (\<lambda>remaining.
              let n = min (length sector) (unat remaining) in
              and_then (slice_of sector 0 n) (\<lambda>part.
              and_then (plain_add oc produced (word_of_nat n)) (\<lambda>produced'.
                decrypt_chunks oc xts cps sz index bevy segment ks produced'
                  (out @ part)))))))))"

declare decrypt_chunks.simps(2) [simp del]

text \<open>Both slices are inside, by the check of the end and by the minimum.\<close>

lemma decrypt_chunks_Cons [simp]:
  "decrypt_chunks oc xts cps sz index bevy segment (k # ks) produced out =
     (if sz \<le> produced then Inr (produced, out)
      else
        and_then (chunk_bounds_from_index oc index k) (\<lambda>(start, stop).
          if length bevy < unat stop
          then Inl (bounds_error ''encrypted chunk'' start stop (length bevy))
          else
            and_then (ok_or (BadFormat ''encrypted chunk index overflow'')
                        (encrypted_chunk_id cps segment k)) (\<lambda>chunk_id.
            and_then (xts_decrypt xts (unat chunk_id) (subrange bevy (unat start) (unat stop)))
              (\<lambda>sector.
            and_then (plain_sub oc sz produced) (\<lambda>remaining.
              let n = min (length sector) (unat remaining) in
              and_then (plain_add oc produced (word_of_nat n)) (\<lambda>produced'.
                decrypt_chunks oc xts cps sz index bevy segment ks produced'
                  (out @ take n sector)))))))"
proof -
  have front: "slice_of xs 0 (min (length xs) n) = (Inr (take (min (length xs) n) xs) :: bytes aff4_result)"
    for xs :: bytes and n by (simp add: subrange_def)
  have part: "slice_of bevy (unat a) (unat b) = (Inr (subrange bevy (unat a) (unat b)) :: bytes aff4_result)"
    if "chunk_bounds_from_index oc index k = Inr (a, b)" "\<not> length bevy < unat b" for a b
    using that chunk_bounds_okD(1) [of oc index k a b] by (simp add: word_le_nat_alt)
  show ?thesis
    unfolding decrypt_chunks.simps(2) Let_def front and_then_simps
    by (intro if_cong and_then_cong refl, unfold split_paired_all prod.case, intro if_cong refl)
      (simp only: part and_then_simps not_False_eq_True)
qed

definition decrypt_segment ::
    "bool \<Rightarrow> (nat \<Rightarrow> bytes \<Rightarrow> bytes option) \<Rightarrow> zip_archive \<Rightarrow> string \<Rightarrow> u64 \<Rightarrow> u64 \<Rightarrow>
     u64 \<Rightarrow> u64 \<Rightarrow> bytes \<Rightarrow> (u64 \<times> bytes) aff4_result" where
  "decrypt_segment oc xts archive zip_base cps sz segment produced out =
     (let name = segment_name zip_base segment in
      and_then (read_entry archive (name @ ''.index'')) (\<lambda>index.
      and_then (read_entry archive name) (\<lambda>bevy.
        let chunks_in_segment = length index div 12 in
        if chunks_in_segment = 0
        then Inl (bad_format ''encrypted segment has an empty chunk index'')
        else decrypt_chunks oc xts cps sz index bevy segment
               (map word_of_nat [0..<chunks_in_segment]) produced out)))"

section \<open>The segments\<close>

text \<open>The outer loop; the segment number grows below $2^{64}$, so the loop ends.\<close>

lemma checked_add_grows: "checked_add a 1 = Some b \<Longrightarrow> 2 ^ 64 - unat b < 2 ^ 64 - unat a"
  using unat_bound [of a] by (auto simp: checked_add_Some unat_add_small)

function decrypt_loop ::
    "(u64 \<Rightarrow> u64 \<Rightarrow> bytes \<Rightarrow> (u64 \<times> bytes) aff4_result) \<Rightarrow> u64 \<Rightarrow> u64 \<Rightarrow> u64 \<Rightarrow> bytes \<Rightarrow>
     bytes aff4_result" where
  "decrypt_loop step sz segment produced out =
     (if produced < sz then
        (case step segment produced out of
           Inl e \<Rightarrow> Inl e
         | Inr (produced', out') \<Rightarrow>
             (case checked_add segment 1 of
                None \<Rightarrow> Inl (bad_format ''encrypted segment index overflow'')
              | Some next_segment \<Rightarrow> decrypt_loop step sz next_segment produced' out'))
      else Inr out)"
  by pat_completeness auto
termination
  by (relation "measure (\<lambda>(step, sz, segment, produced, out). 2 ^ 64 - unat segment)")
    (auto dest: checked_add_grows)

declare decrypt_loop.simps [simp del]

definition decrypt_reader ::
    "bool \<Rightarrow> ciphers \<Rightarrow> zip_opener \<Rightarrow> bytes \<Rightarrow> string \<Rightarrow> bytes aff4_result" where
  "decrypt_reader oc ci zo backing password =
     and_then (zip_archive_new zo backing) (\<lambda>archive.
     and_then (information_turtle archive) (\<lambda>turtle.
     and_then (parse_encrypted_meta turtle) (\<lambda>meta.
     and_then (derive_vek ci password meta) (\<lambda>vek.
     and_then (slice_of vek 0 16) (\<lambda>key_1.
     and_then (aes128_key ''XTS key1 length'' key_1) (\<lambda>cipher_1.
     and_then (slice_of vek 16 32) (\<lambda>key_2.
     and_then (aes128_key ''XTS key2 length'' key_2) (\<lambda>cipher_2.
     and_then (detect_zip_base archive (em_stream_arn meta)) (\<lambda>zip_base.
     and_then (with_capacity (em_size meta)) (\<lambda>_.
         decrypt_loop
           (decrypt_segment oc (xts_sector ci cipher_1 cipher_2) archive zip_base
              (em_chunks_per_segment meta) (em_size meta))
           (em_size meta) 0 0 []))))))))))"

lemma decrypt_reader_eq:
  "decrypt_reader oc ci zo backing password =
     and_then (zip_archive_new zo backing) (\<lambda>archive.
     and_then (information_turtle archive) (\<lambda>turtle.
     and_then (parse_encrypted_meta turtle) (\<lambda>meta.
     and_then (derive_vek ci password meta) (\<lambda>vek.
     and_then (aes128_key ''XTS key1 length'' (subrange vek 0 16)) (\<lambda>cipher_1.
     and_then (aes128_key ''XTS key2 length'' (subrange vek 16 32)) (\<lambda>cipher_2.
     and_then (with_capacity (em_size meta)) (\<lambda>_.
         decrypt_loop
           (decrypt_segment oc (xts_sector ci cipher_1 cipher_2) archive
              (base_of archive (em_stream_arn meta))
              (em_chunks_per_segment meta) (em_size meta))
           (em_size meta) 0 0 [])))))))"
  unfolding decrypt_reader_def
  by (rule and_then_cong [OF refl])+ (drule derive_vek_length, simp)

definition decrypt_encrypted_stream ::
    "bool \<Rightarrow> ciphers \<Rightarrow> file_system \<Rightarrow> zip_opener \<Rightarrow> string \<Rightarrow> string \<Rightarrow> bytes aff4_result" where
  "decrypt_encrypted_stream oc ci fs zo path password =
     and_then (open_file fs path) (\<lambda>backing. decrypt_reader oc ci zo backing password)"

text \<open>\<open>LogicalContainer::open_encrypted\<close>: decrypt, then open the plaintext as a container.\<close>

definition open_encrypted ::
    "bool \<Rightarrow> ciphers \<Rightarrow> file_system \<Rightarrow> zip_opener \<Rightarrow> string \<Rightarrow> string \<Rightarrow>
     logical_container aff4_result" where
  "open_encrypted oc ci fs zo path password =
     and_then (decrypt_encrypted_stream oc ci fs zo path password) (logical_open_reader zo)"

section \<open>The bytes produced\<close>

text \<open>Through both loops, \<open>produced\<close> is the length of the output and never exceeds the size.\<close>

definition produced_ok :: "u64 \<Rightarrow> u64 \<Rightarrow> bytes \<Rightarrow> bool" where
  "produced_ok sz produced out \<longleftrightarrow> length out = unat produced \<and> produced \<le> sz"

lemma produced_step:
  assumes ok: "produced_ok sz produced out" and lt: "\<not> sz \<le> produced"
    and n: "n \<le> unat (sz - produced)"
  shows "plain_add oc produced (word_of_nat n) = Inr (produced + word_of_nat n)"
    and "unat (produced + word_of_nat n) = unat produced + n"
    and "length xs = n \<Longrightarrow> produced_ok sz (produced + word_of_nat n) (out @ xs)"
proof -
  have le: "unat produced + n \<le> unat sz"
    using n lt by (simp add: unat_sub word_le_nat_alt)
  have "unat sz < 2 ^ 64" using unat_bound [of sz] by simp
  with le have fits: "unat produced + n < 2 ^ 64" by linarith
  then have u: "unat (word_of_nat n :: u64) = n" by simp
  show "plain_add oc produced (word_of_nat n) = Inr (produced + word_of_nat n)"
    using fits u by simp
  show un: "unat (produced + word_of_nat n) = unat produced + n"
    using fits u by (subst unat_add_small) auto
  show "length xs = n \<Longrightarrow> produced_ok sz (produced + word_of_nat n) (out @ xs)"
    using ok le un by (simp add: produced_ok_def word_le_nat_alt)
qed

lemma decrypt_chunks_ok:
  "produced_ok sz produced out \<Longrightarrow>
   decrypt_chunks oc xts cps sz index bevy segment ks produced out = Inr (produced', out') \<Longrightarrow>
   produced_ok sz produced' out'"
proof (induction ks arbitrary: produced out)
  case Nil
  then show ?case by simp
next
  case (Cons k ks)
  show ?case
  proof (cases "sz \<le> produced")
    case True
    with Cons.prems show ?thesis by simp
  next
    case False
    then have le: "produced \<le> sz" by simp
    from Cons.prems(2) False le obtain sector where
      rec: "decrypt_chunks oc xts cps sz index bevy segment ks
          (produced + word_of_nat (min (length sector) (unat (sz - produced))))
          (out @ take (min (length sector) (unat (sz - produced))) sector) = Inr (produced', out')"
      by (auto simp: Let_def split: if_splits dest!: plain_add_Inr)
    show ?thesis
      by (rule Cons.IH [OF produced_step(3) [OF Cons.prems(1) False] rec]) simp_all
  qed
qed

lemma decrypt_segment_ok:
  "produced_ok sz produced out \<Longrightarrow>
   decrypt_segment oc xts archive zb cps sz segment produced out = Inr (produced', out') \<Longrightarrow>
   produced_ok sz produced' out'"
  by (auto simp: decrypt_segment_def Let_def dest: decrypt_chunks_ok split: if_splits)

lemma decrypt_loop_length:
  "produced_ok sz produced out \<Longrightarrow>
   (\<And>seg p u p' u'. produced_ok sz p u \<Longrightarrow> step seg p u = Inr (p', u') \<Longrightarrow> produced_ok sz p' u') \<Longrightarrow>
   decrypt_loop step sz segment produced out = Inr res \<Longrightarrow> length res = unat sz"
proof (induction step sz segment produced out rule: decrypt_loop.induct)
  case (1 step sz segment produced out)
  show ?case
  proof (cases "produced < sz")
    case False
    with "1.prems"(1) have "produced = sz" "length out = unat produced"
      by (auto simp: produced_ok_def)
    with "1.prems"(3) [unfolded decrypt_loop.simps [of step sz segment produced out]] False
    show ?thesis by simp
  next
    case True
    note res = "1.prems"(3) [unfolded decrypt_loop.simps [of step sz segment produced out]
        if_P [OF True]]
    then obtain p u where s: "step segment produced out = Inr (p, u)"
      by (cases "step segment produced out") auto
    note res = res [unfolded s sum.case prod.case]
    then obtain nxt where n: "checked_add segment 1 = Some nxt"
      by (cases "checked_add segment 1") auto
    note rec = res [unfolded n option.case]
    show ?thesis
      by (rule "1.IH" [OF True s refl n "1.prems"(2) [OF "1.prems"(1) s] "1.prems"(2) rec])
  qed
qed

lemma produced_ok_start [simp]: "produced_ok sz 0 []"
  by (simp add: produced_ok_def)

end
