(* ===== verification/Crypto_Facts.thy ===== *)
theory Crypto_Facts
  imports Crypto Bevy_Layout Meta_Facts Reader_Facts
begin

text \<open>
  What decryption does: the output has the declared size, a failed unwrap is the only way a key
  is refused, the panics it can have, and decryption undoes encryption on containers laid out as
  the standard says, across segments.
\<close>

section \<open>Reading a successful run\<close>

lemma decrypt_readerD:
  assumes "decrypt_reader oc ci zo backing password = Inr out"
  obtains archive turtle meta vek where "zip_archive_new zo backing = Inr archive"
    and "information_turtle archive = Inr turtle" and "parse_encrypted_meta turtle = Inr meta"
    and "derive_vek ci password meta = Inr vek"
    and "length out = unat (em_size meta)"
proof -
  from assms obtain archive turtle meta vek where
    a: "zip_archive_new zo backing = Inr archive" "information_turtle archive = Inr turtle"
      "parse_encrypted_meta turtle = Inr meta" "derive_vek ci password meta = Inr vek"
    and loop: "decrypt_loop
           (decrypt_segment oc (xts_sector ci (subrange vek 0 16) (subrange vek 16 32)) archive
              (base_of archive (em_stream_arn meta))
              (em_chunks_per_segment meta) (em_size meta))
           (em_size meta) 0 0 [] = Inr out"
    by (auto simp: decrypt_reader_eq aes128_key_def Let_def split: if_splits)
  from decrypt_loop_length [OF produced_ok_start _ loop] have "length out = unat (em_size meta)"
    using decrypt_segment_ok by blast
  with a show thesis by (rule that)
qed

section \<open>Panics\<close>

text \<open>An outcome whose panics, if any, are in a given set.\<close>

definition panics_in :: "panic_reason set \<Rightarrow> ('e, 'a) outcome \<Rightarrow> bool" where
  "panics_in S m \<longleftrightarrow> (\<forall>p. m = Inl (Panic p) \<longrightarrow> p \<in> S)"

lemma panics_in_no_panic: "no_panic m \<Longrightarrow> panics_in S m"
  by (auto simp: panics_in_def)

lemma panics_in_and_then [intro!]:
  "panics_in S m \<Longrightarrow> (\<And>a. m = Inr a \<Longrightarrow> panics_in S (f a)) \<Longrightarrow> panics_in S (and_then m f)"
  by (auto simp: panics_in_def and_then_eq_Inl)

lemma panics_in_Inr [simp]: "panics_in S (Inr a)"
  by (simp add: panics_in_def)

lemma panics_in_Err [simp]: "panics_in S (Inl (Err e))"
  by (simp add: panics_in_def)

definition xts_panic :: panic_reason where
  "xts_panic = CalleePanic ''xts-mode: data too short''"

lemma panics_in_xts: "xts_panic \<in> S \<Longrightarrow> panics_in S (xts_decrypt xts t d)"
  by (auto simp: panics_in_def xts_decrypt_def xts_panic_def split: option.splits)

lemma panics_in_decrypt_chunks:
  assumes "xts_panic \<in> S"
  shows "produced_ok sz produced out \<Longrightarrow> (\<And>k. k \<in> set ks \<Longrightarrow> \<not> oc \<or> 12 * unat k + 12 < 2 ^ 64) \<Longrightarrow>
    panics_in S (decrypt_chunks oc xts cps sz index bevy segment ks produced out)"
proof (induction ks arbitrary: produced out)
  case Nil
  then show ?case by simp
next
  case (Cons k ks)
  show ?case
  proof (cases "sz \<le> produced")
    case True
    then show ?thesis by simp
  next
    case False
    then have sub: "plain_sub oc sz produced = (Inr (sz - produced) :: u64 aff4_result)" by simp
    have cb: "no_panic (chunk_bounds_from_index oc index k)"
      using Cons.prems(2) by (intro no_panic_chunk_bounds) simp
    have go: "panics_in S (and_then (plain_add oc produced (word_of_nat (min (length sector)
          (unat (sz - produced))))) (\<lambda>produced'. decrypt_chunks oc xts cps sz index bevy segment ks
            produced' (out @ take (min (length sector) (unat (sz - produced))) sector)))" for sector
    proof -
      let ?n = "min (length sector) (unat (sz - produced))"
      have "produced_ok sz (produced + word_of_nat ?n) (out @ take ?n sector)"
        by (rule produced_step(3) [OF Cons.prems(1) False]) simp_all
      then have "panics_in S (decrypt_chunks oc xts cps sz index bevy segment ks
            (produced + word_of_nat ?n) (out @ take ?n sector))"
        using Cons.prems(2) by (intro Cons.IH) auto
      moreover have "plain_add oc produced (word_of_nat ?n) =
          (Inr (produced + word_of_nat ?n) :: u64 aff4_result)"
        by (rule produced_step(1) [OF Cons.prems(1) False]) simp
      ultimately show ?thesis by simp
    qed
    show ?thesis
      using False assms
      by (auto simp: Let_def sub bounds_error_def simp del: and_then_simps
          intro!: panics_in_and_then panics_in_no_panic [OF cb] panics_in_xts go
            panics_in_no_panic [OF no_panic_ok_or] split: prod.split)
        (simp add: Let_def go)?
  qed
qed

text \<open>
  The panics of decryption: an allocation of more than \<^verbatim>\<open>isize::MAX\<close> bytes for the declared
  size, or the assertion of the cipher on a short sector. Index files are taken to be shorter
  than $2^{64}$ bytes.
\<close>

definition entries_fit :: "zip_archive \<Rightarrow> bool" where
  "entries_fit a \<longleftrightarrow> (\<forall>name d. read_entry a name = Inr d \<longrightarrow> length d < 2 ^ 64)"

lemma panics_in_decrypt_segment:
  assumes "xts_panic \<in> S" and ok: "produced_ok sz produced out" and fit: "entries_fit a"
  shows "panics_in S (decrypt_segment oc xts a zb cps sz segment produced out)"
proof -
  have re: "no_panic (read_entry a n)" for n by (auto simp: read_entry_def)
  have dc: "panics_in S (decrypt_chunks oc xts cps sz index bevy segment
        (map word_of_nat [0..<length index div 12]) produced out)"
    if "read_entry a n = Inr index" for n index bevy
  proof (rule panics_in_decrypt_chunks [OF assms(1) ok])
    fix k :: u64 assume k: "k \<in> set (map word_of_nat [0..<length index div 12])"
    have l: "length index < 2 ^ 64" using fit that by (simp add: entries_fit_def)
    from k obtain i where i: "i < length index div 12" "k = word_of_nat i" by auto
    then have le: "12 * i + 12 \<le> length index" by simp
    then have "i < 2 ^ 64" using l by linarith
    then have "unat k = i" unfolding i(2) by (rule unat_of_nat_small)
    then show "\<not> oc \<or> 12 * unat k + 12 < 2 ^ 64" using l le by simp
  qed
  show ?thesis unfolding decrypt_segment_def Let_def
    by (intro panics_in_and_then panics_in_no_panic [OF re]) (auto intro: dc)
qed

lemma panics_in_decrypt_loop:
  "produced_ok sz produced out \<Longrightarrow>
   (\<And>seg p u. produced_ok sz p u \<Longrightarrow> panics_in S (step seg p u)) \<Longrightarrow>
   (\<And>seg p u p' u'. produced_ok sz p u \<Longrightarrow> step seg p u = Inr (p', u') \<Longrightarrow> produced_ok sz p' u') \<Longrightarrow>
   panics_in S (decrypt_loop step sz segment produced out)"
proof (induction step sz segment produced out rule: decrypt_loop.induct)
  case (1 step sz segment produced out)
  show ?case
  proof (cases "produced < sz")
    case False
    then show ?thesis by (subst decrypt_loop.simps) simp
  next
    case True
    show ?thesis
    proof (cases "step segment produced out")
      case (Inl e)
      then show ?thesis
        using True "1.prems"(2) [OF "1.prems"(1), of segment]
        by (subst decrypt_loop.simps) (simp add: panics_in_def)
    next
      case (Inr x)
      obtain p u where x: "x = (p, u)" by (cases x)
      have s: "step segment produced out = Inr (p, u)" using Inr x by simp
      show ?thesis
      proof (cases "checked_add segment 1")
        case None
        with True s show ?thesis by (subst decrypt_loop.simps) simp
      next
        case (Some nxt)
        have "panics_in S (decrypt_loop step sz nxt p u)"
          by (rule "1.IH" [OF True s refl Some "1.prems"(3) [OF "1.prems"(1) s] "1.prems"(2,3)])
        with True s Some show ?thesis by (subst decrypt_loop.simps) simp
      qed
    qed
  qed
qed

lemma panics_in_decrypt_reader:
  assumes fit: "\<And>a. zip_archive_new zo backing = Inr a \<Longrightarrow> entries_fit a"
  shows "panics_in {CapacityOverflow, xts_panic} (decrypt_reader oc ci zo backing password)"
proof -
  have vek: "no_panic (derive_vek ci password meta)" for meta
    by (auto simp: derive_vek_def Let_def)
  have meta: "no_panic (parse_encrypted_meta t)" if "information_turtle a = Inr t" for a t
    using that by (intro no_panic_parse_encrypted_meta information_turtle_str_ok)
  have key: "no_panic (aes128_key what k)" for what k by (simp add: aes128_key_def)
  have cap: "panics_in {CapacityOverflow, xts_panic} (with_capacity n :: unit aff4_result)" for n
    by (simp add: with_capacity_def panics_in_def)
  have loop: "panics_in {CapacityOverflow, xts_panic}
      (decrypt_loop (decrypt_segment oc xts a zb cps sz) sz 0 0 [])"
    if "zip_archive_new zo backing = Inr a" for xts a zb cps sz
    by (rule panics_in_decrypt_loop [OF produced_ok_start])
      (use that fit in \<open>auto intro: panics_in_decrypt_segment dest: decrypt_segment_ok\<close>)
  show ?thesis unfolding decrypt_reader_eq Let_def
    by (intro panics_in_and_then cap loop) (auto intro: panics_in_no_panic vek key meta)
qed

section \<open>Keys\<close>

lemma derive_vek_cases:
  "derive_vek ci password meta =
     (if em_key_size meta \<noteq> 32
      then Inl (Err (Encrypted
        (''unsupported keySizeInBytes '' @ dec (unat (em_key_size meta)) @
         '' (only 32-byte AES-128-XTS keys are supported)'')))
      else case aes_kw_unwrap ci
          (pbkdf2_sha256 ci (bytes_of_string password) (em_salt meta) (em_iterations meta))
          (em_wrapped_key meta) of
        None \<Rightarrow> Inl (Err wrong_password) | Some k \<Rightarrow> Inr (into_array 32 k))"
  by (simp add: derive_vek_def Let_def split: option.split)

lemma decrypt_reader_unfold:
  assumes "zip_archive_new zo backing = Inr archive" "information_turtle archive = Inr turtle"
    and "parse_encrypted_meta turtle = Inr meta"
  shows "decrypt_reader oc ci zo backing password =
     and_then (derive_vek ci password meta) (\<lambda>vek.
     and_then (aes128_key ''XTS key1 length'' (subrange vek 0 16)) (\<lambda>cipher_1.
     and_then (aes128_key ''XTS key2 length'' (subrange vek 16 32)) (\<lambda>cipher_2.
     and_then (with_capacity (em_size meta)) (\<lambda>_.
       decrypt_loop
         (decrypt_segment oc (xts_sector ci cipher_1 cipher_2) archive
            (base_of archive (em_stream_arn meta))
            (em_chunks_per_segment meta) (em_size meta))
         (em_size meta) 0 0 []))))"
  using assms by (simp add: decrypt_reader_eq Let_def)

section \<open>Decryption undoes encryption\<close>

lemma take_append_take:
  "length u \<le> n \<Longrightarrow> take n ((u @ take (n - length u) c) @ d) = take n (u @ c @ d)"
  by (cases "n - length u \<le> length c") (simp_all add: take_append)

text \<open>One segment, from the chunk \<open>j\<close> on, each chunk of which decrypts to a known plaintext.\<close>

lemma decrypt_chunks_plain:
  assumes dec: "\<And>j. j < length ps \<Longrightarrow> \<exists>a b t. chunk_bounds_from_index oc index (word_of_nat j) = Inr (a, b) \<and>
      unat b \<le> length bevy \<and> encrypted_chunk_id cps segment (word_of_nat j) = Some t \<and>
      xts (unat t) (subrange bevy (unat a) (unat b)) = Some (ps ! j)"
  shows "j \<le> length ps \<Longrightarrow> produced_ok sz produced out \<Longrightarrow>
    \<exists>p'. decrypt_chunks oc xts cps sz index bevy segment (map word_of_nat [j..<length ps]) produced out =
      Inr (p', out @ take (unat sz - length out) (concat (drop j ps)))"
proof (induction "length ps - j" arbitrary: j produced out)
  case 0
  then show ?case by simp
next
  case (Suc n)
  then have jl: "j < length ps" by simp
  then have dj: "drop j ps = ps ! j # drop (Suc j) ps" by (simp add: Cons_nth_drop_Suc)
  have up: "[j..<length ps] = j # [Suc j..<length ps]" using jl by (simp add: upt_conv_Cons)
  show ?case
  proof (cases "sz \<le> produced")
    case True
    with Suc.prems(2) have "length out = unat sz" by (auto simp: produced_ok_def)
    with True show ?thesis by (simp add: up)
  next
    case False
    from dec [OF jl] obtain a b t where
      e: "chunk_bounds_from_index oc index (word_of_nat j) = Inr (a, b)" "unat b \<le> length bevy"
        "encrypted_chunk_id cps segment (word_of_nat j) = Some t"
        "xts (unat t) (subrange bevy (unat a) (unat b)) = Some (ps ! j)"
      by blast
    let ?n = "min (length (ps ! j)) (unat (sz - produced))"
    have sub: "plain_sub oc sz produced = (Inr (sz - produced) :: u64 aff4_result)"
      using False by simp
    have pa: "plain_add oc produced (word_of_nat ?n) =
        (Inr (produced + word_of_nat ?n) :: u64 aff4_result)"
      by (rule produced_step(1) [OF Suc.prems(2) False]) simp
    have ok: "produced_ok sz (produced + word_of_nat ?n) (out @ take ?n (ps ! j))"
      by (rule produced_step(3) [OF Suc.prems(2) False]) simp_all
    have rem: "unat (sz - produced) = unat sz - length out"
      using False Suc.prems(2) by (simp add: unat_sub produced_ok_def)
    have n: "n = length ps - Suc j" and sj: "Suc j \<le> length ps" using Suc.hyps(2) jl by linarith+
    from Suc.hyps(1) [OF n sj ok] obtain p' where
      "decrypt_chunks oc xts cps sz index bevy segment (map word_of_nat [Suc j..<length ps])
          (produced + word_of_nat ?n) (out @ take ?n (ps ! j)) =
        Inr (p', (out @ take ?n (ps ! j)) @
          take (unat sz - length (out @ take ?n (ps ! j))) (concat (drop (Suc j) ps)))"
      by blast
    moreover have "(out @ take ?n (ps ! j)) @
          take (unat sz - length (out @ take ?n (ps ! j))) (concat (drop (Suc j) ps)) =
        out @ take (unat sz - length out) (concat (drop j ps))"
      by (simp add: dj rem min_def)
    ultimately show ?thesis
      using False e sub pa by (simp add: up Let_def xts_decrypt_def)
  qed
qed

lemma decrypt_loop_plain:
  fixes cps :: u64 and sz :: u64
  assumes cps: "0 < cps" and len: "length chunks \<le> 2 ^ 63"
    and step: "\<And>k produced out. k * unat cps < length chunks \<Longrightarrow> produced_ok sz produced out \<Longrightarrow>
      \<exists>p'. step (word_of_nat k) produced out =
        Inr (p', out @ take (unat sz - length out) (concat (segment_chunks cps chunks k)))"
    and keep: "\<And>seg p u p' u'. produced_ok sz p u \<Longrightarrow> step seg p u = Inr (p', u') \<Longrightarrow>
      produced_ok sz p' u'"
  shows "produced_ok sz produced out \<Longrightarrow>
    unat sz \<le> length out + length (concat (drop (k * unat cps) chunks)) \<Longrightarrow>
    decrypt_loop step sz (word_of_nat k) produced out =
      Inr (take (unat sz) (out @ concat (drop (k * unat cps) chunks)))"
proof (induction "length chunks - k * unat cps" arbitrary: k produced out rule: less_induct)
  case less
  have cps': "0 < unat cps" using cps by (simp add: word_less_nat_alt)
  show ?case
  proof (cases "produced < sz")
    case False
    with less.prems have "length out = unat sz" by (auto simp: produced_ok_def)
    with False show ?thesis by (subst decrypt_loop.simps) simp
  next
    case True
    then have "length out < unat sz"
      using less.prems(1) by (simp add: produced_ok_def word_less_nat_alt)
    then have kl: "k * unat cps < length chunks" using less.prems(2) by (cases "k * unat cps < length chunks") auto
    let ?seg = "concat (segment_chunks cps chunks k)"
    from step [OF kl less.prems(1)] obtain p' where
      st: "step (word_of_nat k) produced out = Inr (p', out @ take (unat sz - length out) ?seg)"
      by blast
    have ok: "produced_ok sz p' (out @ take (unat sz - length out) ?seg)"
      by (rule keep [OF less.prems(1) st])
    have "k \<le> k * unat cps" using cps' by (cases "unat cps") auto
    then have "k < 2 ^ 63" using kl len by linarith
    then have k: "k + 1 < 2 ^ 64" by simp
    then have nxt: "checked_add (word_of_nat k) 1 = Some (word_of_nat (k + 1))"
      by (simp add: checked_add_def)
    have cut: "?seg @ concat (drop ((k + 1) * unat cps) chunks) = concat (drop (k * unat cps) chunks)"
      unfolding segment_chunks_def concat_append [symmetric]
      by (simp add: add.commute flip: drop_drop)
    let ?u = "out @ take (unat sz - length out) ?seg"
    have "decrypt_loop step sz (word_of_nat (k + 1)) p' ?u =
        Inr (take (unat sz) (?u @ concat (drop ((k + 1) * unat cps) chunks)))"
    proof (rule less.hyps [OF _ ok])
      show "length chunks - (k + 1) * unat cps < length chunks - k * unat cps"
        using kl cps' by (simp add: diff_less_mono2)
      have "length ?seg + length (concat (drop ((k + 1) * unat cps) chunks)) =
          length (concat (drop (k * unat cps) chunks))"
        using arg_cong [OF cut, of length] by simp
      then show "unat sz \<le> length ?u + length (concat (drop ((k + 1) * unat cps) chunks))"
        using less.prems(2) by auto
    qed
    also have "take (unat sz) (?u @ concat (drop ((k + 1) * unat cps) chunks)) =
        take (unat sz) (out @ ?seg @ concat (drop ((k + 1) * unat cps) chunks))"
      by (rule take_append_take) (use \<open>length out < unat sz\<close> in simp)
    also have "out @ ?seg @ concat (drop ((k + 1) * unat cps) chunks) =
        out @ concat (drop (k * unat cps) chunks)"
      by (simp only: cut)
    finally show ?thesis
      unfolding decrypt_loop.simps [of step sz "word_of_nat k" produced out] if_P [OF True] st nxt
        sum.case prod.case option.case .
  qed
qed

text \<open>The chunks of a container encrypted chunk by chunk, chunk \<open>t\<close> under the tweak \<open>t\<close>.\<close>

definition encrypt_all :: "(nat \<Rightarrow> bytes \<Rightarrow> bytes) \<Rightarrow> bytes list \<Rightarrow> bytes list" where
  "encrypt_all enc chunks = map (\<lambda>t. enc t (chunks ! t)) [0..<length chunks]"

lemma length_encrypt_all [simp]: "length (encrypt_all enc chunks) = length chunks"
  by (simp add: encrypt_all_def)

lemma segment_position:
  assumes "0 < (cps :: u64)" and "k * unat cps < length chunks"
    and "j < length (segment_chunks cps chunks k)"
  shows "k * unat cps + j < length chunks" "(k * unat cps + j) div unat cps = k"
    "(k * unat cps + j) mod unat cps = j"
    "segment_chunks cps chunks k ! j = chunks ! (k * unat cps + j)"
  using assms by (auto simp: segment_chunks_def word_less_nat_alt)

lemma encrypted_chunk_id_eq:
  assumes "k * unat cps + j < 2 ^ 64" and "0 < cps"
  shows "\<exists>t. encrypted_chunk_id cps (word_of_nat k) (word_of_nat j) = Some t \<and>
    unat t = k * unat cps + j"
proof -
  have "0 < unat cps" using assms(2) by (simp add: word_less_nat_alt)
  then have "k \<le> k * unat cps" by (cases "unat cps") auto
  then have k: "unat (word_of_nat k :: u64) = k" and j: "unat (word_of_nat j :: u64) = j"
    using assms(1) by (intro unat_of_nat_small; linarith)+
  have m: "unat (word_of_nat k * cps) = k * unat cps"
    using k assms(1) by (subst unat_mult_small) simp_all
  have "unat (word_of_nat k * cps + word_of_nat j) = k * unat cps + j"
    using m j assms(1) by (subst unat_add_small) simp_all
  then show ?thesis
    using k j m assms(1)
    by (simp add: encrypted_chunk_id_def checked_mul_def checked_add_def)
qed

lemma decrypt_segment_plain:
  assumes held: "bevies_held archive zb cps (encrypt_all enc chunks)"
    and inv: "\<And>t. t < length chunks \<Longrightarrow> xts t (enc t (chunks ! t)) = Some (chunks ! t)"
    and k: "k * unat cps < length chunks" and ok: "produced_ok sz produced out"
  shows "\<exists>p'. decrypt_segment oc xts archive zb cps sz (word_of_nat k) produced out =
    Inr (p', out @ take (unat sz - length out) (concat (segment_chunks cps chunks k)))"
proof -
  let ?stored = "encrypt_all enc chunks" and ?ps = "segment_chunks cps chunks k"
  let ?seg = "segment_chunks cps ?stored k"
  have cps: "0 < cps" using held by (simp add: bevies_held_def)
  have cps': "0 < unat cps" using cps by (simp add: word_less_nat_alt)
  have kd: "k * unat cps div unat cps = k" using cps' by simp
  have il: "k * unat cps < length ?stored" using k by simp
  note entries = bevies_held_entries [OF held il, unfolded kd]
  have lseg: "length ?seg = length ?ps" by (simp add: segment_chunks_def)
  have "0 < length ?ps" using k cps' by (simp add: segment_chunks_def)
  have "\<exists>p'. decrypt_chunks oc xts cps sz (packed_index index_entry ?seg) (concat ?seg) (word_of_nat k)
      (map word_of_nat [0..<length ?ps]) produced out =
    Inr (p', out @ take (unat sz - length out) (concat (drop 0 ?ps)))"
  proof (rule decrypt_chunks_plain [OF _ _ ok])
    fix j assume j: "j < length ?ps"
    note pos = segment_position [OF cps k j]
    have i: "k * unat cps + j < length ?stored" using pos(1) by simp
    obtain a b where
      "chunk_bounds_from_index oc (packed_index index_entry ?seg) (word_of_nat j) = Inr (a, b)"
      and "unat b \<le> length (concat ?seg)"
      and "subrange (concat ?seg) (unat a) (unat b) = ?stored ! (k * unat cps + j)"
      by (rule bevies_held_bounds [OF held i, of oc, unfolded pos(2,3)])
    moreover have "?stored ! (k * unat cps + j) = enc (k * unat cps + j) (?ps ! j)"
      using pos by (simp add: encrypt_all_def)
    moreover have "k * unat cps + j < 2 ^ 64"
      using pos(1) held by (simp add: bevies_held_def)
    then obtain t where "encrypted_chunk_id cps (word_of_nat k) (word_of_nat j) = Some t"
      "unat t = k * unat cps + j"
      using encrypted_chunk_id_eq cps by blast
    ultimately show "\<exists>a b t. chunk_bounds_from_index oc (packed_index index_entry ?seg) (word_of_nat j) =
        Inr (a, b) \<and> unat b \<le> length (concat ?seg) \<and>
        encrypted_chunk_id cps (word_of_nat k) (word_of_nat j) = Some t \<and>
        xts (unat t) (subrange (concat ?seg) (unat a) (unat b)) = Some (?ps ! j)"
      using inv [OF pos(1)] pos(4) by auto
  qed simp
  then show ?thesis
    using entries lseg \<open>0 < length ?ps\<close>
    by (simp add: decrypt_segment_def Let_def read_entry_def read_zip_entry_bytes_def [symmetric])
qed

lemma decrypt_written:
  assumes a: "zip_archive_new zo backing = Inr archive" "information_turtle archive = Inr turtle"
      "parse_encrypted_meta turtle = Inr meta"
    and vek: "derive_vek ci password meta = Inr vek" "length vek = 32"
    and size: "unat (em_size meta) \<le> isize_max" "unat (em_size meta) \<le> length (concat chunks)"
    and inv: "\<And>t. t < length chunks \<Longrightarrow>
      xts_sector ci (subrange vek 0 16) (subrange vek 16 32) t (enc t (chunks ! t)) = Some (chunks ! t)"
    and held: "bevies_held archive (base_of archive (em_stream_arn meta))
      (em_chunks_per_segment meta) (encrypt_all enc chunks)"
  shows "decrypt_reader oc ci zo backing password = Inr (take (unat (em_size meta)) (concat chunks))"
proof -
  let ?sz = "em_size meta" and ?cps = "em_chunks_per_segment meta"
  have cps: "0 < ?cps" "length chunks \<le> 2 ^ 63" using held by (simp_all add: bevies_held_def)
  let ?step = "decrypt_segment oc (xts_sector ci (subrange vek 0 16) (subrange vek 16 32)) archive
      (base_of archive (em_stream_arn meta)) ?cps ?sz"
  have step: "\<exists>p'. ?step (word_of_nat k) produced out =
      Inr (p', out @ take (unat ?sz - length out) (concat (segment_chunks ?cps chunks k)))"
    if "k * unat ?cps < length chunks" "produced_ok ?sz produced out" for k produced out
    by (rule decrypt_segment_plain [OF held _ that]) (rule inv)
  have "decrypt_loop ?step ?sz (word_of_nat 0) 0 [] =
      Inr (take (unat ?sz) ([] @ concat (drop (0 * unat ?cps) chunks)))"
  proof (rule decrypt_loop_plain [OF cps step _ produced_ok_start])
    show "produced_ok ?sz p' u'" if "produced_ok ?sz p u" "?step seg p u = Inr (p', u')"
      for seg p u p' u'
      using that by (rule decrypt_segment_ok)
  qed (use size(2) in simp_all)
  moreover have "(with_capacity ?sz :: unit aff4_result) = Inr ()"
    using size(1) by (simp add: with_capacity_def)
  ultimately show ?thesis
    by (simp add: decrypt_reader_unfold [OF a] vek aes128_key_def)
qed

end
