(* ===== verification/Container_Properties.thy ===== *)
theory Container_Properties
  imports Crypto_Facts Examples
begin

text \<open>
  The properties of the containers that are no disk images: AFF4-Logical collections and
  encrypted volumes.
\<close>

section \<open>Logical containers\<close>

text \<open>
  C18. Resolving a file's IRI against the entry names. A result is always an entry of the
  archive: one of the three exact forms of the name (path tail, tail without slashes, the
  URL-encoded IRI) if the archive has any, the tail before the others; otherwise an entry that
  is no directory and ends with the tail, and no such entry is longer. There is no result
  exactly when the archive has neither.
\<close>

theorem resolve_segment_spec:
  "case resolve_segment names arn of
     Inr (Some s) \<Rightarrow> s \<in> set names \<and>
       (path_tail arn \<in> set names \<longrightarrow> s = path_tail arn) \<and>
       (set (segment_candidates (path_tail arn) arn) \<inter> set names \<noteq> {} \<longrightarrow>
          s \<in> set (segment_candidates (path_tail arn) arn)) \<and>
       (set (segment_candidates (path_tail arn) arn) \<inter> set names = {} \<longrightarrow>
          suffix_match (path_tail arn) s \<and>
          (\<forall>n \<in> set names. suffix_match (path_tail arn) n \<longrightarrow> length n \<le> length s))
   | Inr None \<Rightarrow> set (segment_candidates (path_tail arn) arn) \<inter> set names = {} \<and>
       (\<forall>n \<in> set names. \<not> suffix_match (path_tail arn) n)
   | Inl e \<Rightarrow> False"
proof (cases "matching_segment names arn")
  case None
  then show ?thesis by (simp add: matching_segment_None [symmetric])
next
  case (Some s)
  from matching_segment_cases [OF Some] Some matching_segment_verbatim [of arn names] show ?thesis
    by auto
qed

lemma resolve_segment_spec_witness:
  "resolve_segment [''version.txt'', ''dir/'', ''vol/a.txt'', ''x/vol/a.txt''] ''aff4://u/vol/a.txt'' =
     Inr (Some ''vol/a.txt'') \<and> ''vol/a.txt'' \<in> set [''version.txt'', ''dir/'', ''vol/a.txt'', ''x/vol/a.txt'']"
proof -
  have r: "resolve_segment [''version.txt'', ''dir/'', ''vol/a.txt'', ''x/vol/a.txt''] ''aff4://u/vol/a.txt'' =
     Inr (Some ''vol/a.txt'')"
    by code_simp
  with resolve_segment_spec [where names = "[''version.txt'', ''dir/'', ''vol/a.txt'', ''x/vol/a.txt'']"
      and arn = "''aff4://u/vol/a.txt''"]
  show ?thesis by simp
qed

text \<open>
  C19. An opened logical container has at least one file; its files are the \<open>FileImage\<close> nodes of
  the turtle, in order, with their names, sizes, hashes and times, and the segment of every file
  is an entry of the archive, whose content is what \<open>read_file\<close> returns.
\<close>

theorem logical_open_files:
  assumes "logical_open_reader zo backing = Inr c"
  shows "files c \<noteq> [] \<and>
    (\<exists>turtle parsed. information_turtle (lc_archive c) = Inr turtle \<and>
       parse_logical_files turtle = Inr parsed \<and>
       map lf_original_file_name parsed = map le_original_file_name (files c) \<and>
       map lf_size parsed = map le_size (files c) \<and>
       map lf_hashes parsed = map le_hashes (files c) \<and>
       map lf_last_written parsed = map le_last_written (files c)) \<and>
    (\<forall>e \<in> set (files c). le_segment e \<in> set (za_file_names (lc_archive c)) \<and>
       read_file c e = read_zip_entry_bytes (lc_archive c) (le_segment e))"
proof -
  from logical_open_readerD [OF assms] obtain turtle parsed where
    t: "information_turtle (lc_archive c) = Inr turtle" "parse_logical_files turtle = Inr parsed"
    and ne: "parsed \<noteq> []"
    and all: "list_all2 (\<lambda>p e. resolve_file (za_file_names (lc_archive c)) p = Inr e) parsed (files c)"
    unfolding files_def by metis
  have maps: "map lf_original_file_name parsed = map le_original_file_name (files c) \<and>
       map lf_size parsed = map le_size (files c) \<and>
       map lf_hashes parsed = map le_hashes (files c) \<and>
       map lf_last_written parsed = map le_last_written (files c)"
    using all by induction (auto dest: resolve_file_okD)
  have "le_segment e \<in> set (za_file_names (lc_archive c))" if "e \<in> set (files c)" for e
  proof -
    from that obtain i where "i < length (files c)" "e = files c ! i" by (auto simp: in_set_conv_nth)
    then have "resolve_file (za_file_names (lc_archive c)) (parsed ! i) = Inr e"
      using all by (simp add: list_all2_conv_all_nth)
    then show ?thesis using resolve_file_okD matching_segment_cases by blast
  qed
  moreover have "files c \<noteq> []" using all ne by auto
  ultimately show ?thesis
    using t maps by (auto simp: read_file_def read_zip_entry_bytes_def)
qed

definition logical_demo_turtle :: string where
  "logical_demo_turtle = ''<aff4://v/a.txt> rdf:type aff4:FileImage ; aff4:size 2 .''"

definition logical_demo :: zip_archive where
  "logical_demo =
     archive_of [(''information.turtle'', bytes_of_string logical_demo_turtle), (''/a.txt'', [104, 105])]"

definition logical_demo_file :: logical_file_meta where
  "logical_demo_file =
     \<lparr>lf_arn = ''aff4://v/a.txt'', lf_original_file_name = ''aff4://v/a.txt'', lf_size = 2,
      lf_hashes = [], lf_last_written = None\<rparr>"

lemma logical_demo_opens:
  "\<exists>c. logical_open_reader (\<lambda>_. Inr logical_demo) [] = Inr c"
proof -
  have "ascii_text logical_demo_turtle" by code_simp
  then have "information_turtle logical_demo = Inr logical_demo_turtle"
    unfolding logical_demo_def by (intro read_text_entry) simp_all
  moreover have "parse_logical_files logical_demo_turtle = Inr [logical_demo_file]" by code_simp
  moreover have "resolve_segment (za_file_names logical_demo) (lf_arn logical_demo_file) = Inr (Some ''/a.txt'')"
    by code_simp
  ultimately show ?thesis
    by (simp add: logical_open_reader_def zip_archive_new_def resolve_file_def)
qed

lemma logical_open_files_witness: "\<exists>c. files c \<noteq> []"
proof -
  obtain c where "logical_open_reader (\<lambda>_. Inr logical_demo) [] = Inr c"
    using logical_demo_opens by blast
  from logical_open_files [OF this] show ?thesis by blast
qed

section \<open>A small encrypted container\<close>

text \<open>
  Two chunks of sixteen bytes in two segments, under a toy cipher that adds the tweak to every
  byte; the password's first letter opens the key bag.
\<close>

definition enc_turtle :: string where
  "enc_turtle =
     ''<aff4://e> a aff4:EncryptedStream ; aff4:chunkSize 16 ; aff4:chunksInSegment 1 ; '' @
     ''aff4:size 20 ; aff4:keyBag <aff4://k> . <aff4://k> a aff4:PasswordWrappedKeyBag ; '' @
     ''aff4:iterations 1 ; aff4:keySizeInBytes 32 ; aff4:salt '' @ [CHR 0x22] @ ''00'' @ [CHR 0x22] @
     '' ; aff4:wrappedKey '' @ [CHR 0x22] @ ''01'' @ [CHR 0x22] @ '' .''"

definition enc_meta :: encrypted_meta where
  "enc_meta =
     \<lparr>em_stream_arn = ''aff4://e'', em_chunks_per_segment = 1, em_size = 20, em_salt = [0],
      em_iterations = 1, em_key_size = 32, em_wrapped_key = [1]\<rparr>"

definition add_tweak :: "nat \<Rightarrow> bytes \<Rightarrow> bytes" where
  "add_tweak t d = map (\<lambda>b. b + word_of_nat t) d"

definition toy_ciphers :: ciphers where
  "toy_ciphers =
     \<lparr>pbkdf2_sha256 = (\<lambda>pw salt it. pw),
      aes_kw_unwrap = (\<lambda>kek w. if kek = bytes_of_string ''pw'' then Some (replicate 32 7) else None),
      xts_sector = (\<lambda>k1 k2 t d. if length d < 16 then None else Some (map (\<lambda>b. b - word_of_nat t) d))\<rparr>"

definition enc_chunks :: "bytes list" where
  "enc_chunks = [replicate 16 65, replicate 16 66]"

definition enc_entries :: "(string \<times> bytes) list" where
  "enc_entries =
     [(''information.turtle'', bytes_of_string enc_turtle),
      (''e/00000000'', replicate 16 65), (''e/00000000.index'', index_entry 0 16),
      (''e/00000001'', replicate 16 67), (''e/00000001.index'', index_entry 0 16)]"

abbreviation enc_zip :: zip_opener where
  "enc_zip \<equiv> \<lambda>_. Inr (archive_of enc_entries)"

lemma enc_parts:
  "zip_archive_new enc_zip [] = Inr (archive_of enc_entries)"
  "information_turtle (archive_of enc_entries) = Inr enc_turtle"
  "parse_encrypted_meta enc_turtle = Inr enc_meta"
proof -
  show "zip_archive_new enc_zip [] = Inr (archive_of enc_entries)" by (simp add: zip_archive_new_def)
  have "ascii_text enc_turtle" by code_simp
  then show "information_turtle (archive_of enc_entries) = Inr enc_turtle"
    by (intro read_text_entry) (simp_all add: enc_entries_def)
  show "parse_encrypted_meta enc_turtle = Inr enc_meta" by code_simp
qed

lemma enc_base: "base_of (archive_of enc_entries) (em_stream_arn enc_meta) = ''e''"
  by code_simp

lemma enc_held:
  "bevies_held (archive_of enc_entries) ''e'' 1 (encrypt_all add_tweak enc_chunks)"
proof -
  have names: "segment_name ''e'' (word_of_nat 0) = ''e/00000000''"
    "segment_name ''e'' (word_of_nat 1) = ''e/00000001''"
    by code_simp+
  let ?st = "[replicate 16 65, replicate 16 67] :: bytes list"
  have st: "encrypt_all add_tweak enc_chunks = ?st"
    by (simp add: encrypt_all_def enc_chunks_def add_tweak_def)
  have seg: "segment_chunks 1 ?st 0 = [replicate 16 65]" "segment_chunks 1 ?st 1 = [replicate 16 67]"
    by (simp_all add: segment_chunks_def)
  have e: "map_of enc_entries ''e/00000000'' = Some (replicate 16 65)"
    "map_of enc_entries ''e/00000000.index'' = Some (index_entry 0 16)"
    "map_of enc_entries ''e/00000001'' = Some (replicate 16 67)"
    "map_of enc_entries ''e/00000001.index'' = Some (index_entry 0 16)"
    by (simp_all add: enc_entries_def)
  have h0: "segment_held (archive_of enc_entries) ''e'' 1 ?st 0"
    unfolding segment_held_def seg names using e [THEN read_archive_of]
    by (simp add: packed_index_def)
  have h1: "segment_held (archive_of enc_entries) ''e'' 1 ?st 1"
    unfolding segment_held_def seg names using e [THEN read_archive_of]
    by (simp add: packed_index_def)
  have "segment_held (archive_of enc_entries) ''e'' 1 ?st i" if "i < 2" for i
    using that h0 h1 by (auto simp: less_2_cases_iff)
  then show ?thesis unfolding st by (simp add: bevies_held_def)
qed

lemma toy_vek: "derive_vek toy_ciphers ''pw'' enc_meta = Inr (replicate 32 7)"
  by (simp add: derive_vek_def enc_meta_def toy_ciphers_def)

lemma toy_inverts:
  assumes "t < length enc_chunks"
  shows "xts_sector toy_ciphers k1 k2 t (add_tweak t (enc_chunks ! t)) = Some (enc_chunks ! t)"
proof -
  have "enc_chunks ! t \<in> set enc_chunks" using assms by (rule nth_mem)
  then have "length (enc_chunks ! t) = 16" by (auto simp: enc_chunks_def)
  then show ?thesis by (simp add: toy_ciphers_def add_tweak_def comp_def map_idI)
qed

lemma enc_held_meta:
  "bevies_held (archive_of enc_entries) (base_of (archive_of enc_entries) (em_stream_arn enc_meta))
     (em_chunks_per_segment enc_meta) (encrypt_all add_tweak enc_chunks)"
  unfolding enc_base using enc_held by (simp add: enc_meta_def)

lemma enc_size:
  "unat (em_size enc_meta) \<le> isize_max" "unat (em_size enc_meta) \<le> length (concat enc_chunks)"
  "length (replicate 32 (7 :: u8)) = 32"
  by (simp_all add: enc_meta_def enc_chunks_def isize_max_def)

section \<open>Decryption\<close>

text \<open>
  C4. Decryption undoes encryption: when the chunks of a plaintext were encrypted one by one, each
  under its global index as tweak, and laid out in segments as the standard says, decrypting with
  the right password gives the plaintext, cut at the declared size, across all segments.
\<close>

theorem decrypt_inverts_encrypt:
  assumes "zip_archive_new zo backing = Inr archive" and "information_turtle archive = Inr turtle"
    and "parse_encrypted_meta turtle = Inr meta"
    and "derive_vek ci password meta = Inr vek" and "length vek = 32"
    and "unat (em_size meta) \<le> isize_max" and "unat (em_size meta) \<le> length (concat chunks)"
    and "\<And>t. t < length chunks \<Longrightarrow>
      xts_sector ci (subrange vek 0 16) (subrange vek 16 32) t (enc t (chunks ! t)) = Some (chunks ! t)"
    and "bevies_held archive (base_of archive (em_stream_arn meta))
      (em_chunks_per_segment meta) (encrypt_all enc chunks)"
  shows "decrypt_reader oc ci zo backing password = Inr (take (unat (em_size meta)) (concat chunks))"
  by (rule decrypt_written [OF assms])

lemma decrypt_inverts_encrypt_witness:
  "decrypt_reader True toy_ciphers enc_zip [] ''pw'' = Inr (replicate 16 65 @ replicate 4 66)"
proof -
  have "decrypt_reader True toy_ciphers enc_zip [] ''pw'' =
      Inr (take (unat (em_size enc_meta)) (concat enc_chunks))"
    by (rule decrypt_inverts_encrypt [OF enc_parts toy_vek enc_size(3,1,2)])
      (rule toy_inverts, assumption, rule enc_held_meta)
  also have "take (unat (em_size enc_meta)) (concat enc_chunks) = replicate 16 65 @ replicate 4 66"
    by (simp add: enc_meta_def enc_chunks_def)
  finally show ?thesis .
qed

text \<open>
  A successful decryption returns exactly the declared number of bytes, whatever the chunks
  decrypt to and however many segments it took.
\<close>

lemma decrypt_has_declared_size:
  assumes "decrypt_reader oc ci zo backing password = Inr out"
  shows "\<exists>archive turtle meta. zip_archive_new zo backing = Inr archive \<and>
    information_turtle archive = Inr turtle \<and> parse_encrypted_meta turtle = Inr meta \<and>
    em_key_size meta = 32 \<and> length out = unat (em_size meta)"
proof -
  from decrypt_readerD [OF assms] obtain archive turtle meta vek where
    a: "zip_archive_new zo backing = Inr archive" "information_turtle archive = Inr turtle"
      "parse_encrypted_meta turtle = Inr meta"
    and v: "derive_vek ci password meta = Inr vek" and l: "length out = unat (em_size meta)"
    by metis
  from v have "em_key_size meta = 32" by (auto simp: derive_vek_cases split: if_splits)
  with a l show ?thesis by blast
qed

lemma enc_decrypts: "\<exists>out. decrypt_reader True toy_ciphers enc_zip [] ''pw'' = Inr out"
proof -
  have "decrypt_reader True toy_ciphers enc_zip [] ''pw'' =
      Inr (take (unat (em_size enc_meta)) (concat enc_chunks))"
    by (rule decrypt_written [OF enc_parts toy_vek enc_size(3,1,2)])
      (rule toy_inverts, assumption, rule enc_held_meta)
  then show ?thesis ..
qed

lemma decrypt_has_declared_size_witness:
  "\<exists>out meta. decrypt_reader True toy_ciphers enc_zip [] ''pw'' = Inr out \<and>
     parse_encrypted_meta enc_turtle = Inr meta \<and> length out = unat (em_size meta)"
proof -
  obtain out where o: "decrypt_reader True toy_ciphers enc_zip [] ''pw'' = Inr out"
    using enc_decrypts by blast
  from decrypt_has_declared_size [OF o] enc_parts o show ?thesis by auto
qed

text \<open>
  Keys are refused loudly: a password whose derived key does not unwrap the volume key, and a
  key size other than 32 bytes, give the \<open>Encrypted\<close> error, before any chunk is read.
\<close>

lemma decrypt_refuses_keys:
  assumes "zip_archive_new zo backing = Inr archive" and "information_turtle archive = Inr turtle"
    and "parse_encrypted_meta turtle = Inr meta"
    and "em_key_size meta \<noteq> 32 \<or>
      aes_kw_unwrap ci
        (pbkdf2_sha256 ci (bytes_of_string password) (em_salt meta) (em_iterations meta))
        (em_wrapped_key meta) = None"
  shows "is_encrypted (decrypt_reader oc ci zo backing password)"
  using assms(4) by (auto simp: decrypt_reader_unfold [OF assms(1-3)] derive_vek_cases wrong_password_def)

lemma decrypt_refuses_keys_witness:
  "is_encrypted (decrypt_reader True toy_ciphers enc_zip [] ''guess'')"
proof (rule decrypt_refuses_keys [OF enc_parts])
  have "bytes_of_string ''guess'' \<noteq> bytes_of_string ''pw''" by code_simp
  then show "em_key_size enc_meta \<noteq> 32 \<or>
      aes_kw_unwrap toy_ciphers
        (pbkdf2_sha256 toy_ciphers (bytes_of_string ''guess'') (em_salt enc_meta) (em_iterations enc_meta))
        (em_wrapped_key enc_meta) = None"
    by (simp add: toy_ciphers_def)
qed

text \<open>
  Two ways in which decryption does panic: a declared size no vector may have, and a chunk too
  short for the cipher.
\<close>

lemma decrypt_oversized_panics:
  assumes "zip_archive_new zo backing = Inr archive" and "information_turtle archive = Inr turtle"
    and "parse_encrypted_meta turtle = Inr meta"
    and "derive_vek ci password meta = Inr vek" and "length vek = 32"
    and "isize_max < unat (em_size meta)"
  shows "decrypt_reader oc ci zo backing password = Inl (Panic CapacityOverflow)"
  using assms(4-6)
  by (simp add: decrypt_reader_unfold [OF assms(1-3)] aes128_key_def with_capacity_def Let_def)

lemma decrypt_short_sector_panics:
  fixes stored :: bytes
  assumes "zip_archive_new zo backing = Inr archive" and "information_turtle archive = Inr turtle"
    and "parse_encrypted_meta turtle = Inr meta"
    and "derive_vek ci password meta = Inr vek" and "length vek = 32"
    and "0 < em_size meta" and "unat (em_size meta) \<le> isize_max"
    and "read_entry archive (segment_name (base_of archive (em_stream_arn meta)) 0 @ ''.index'') =
      Inr (index_entry 0 (word_of_nat (length stored)))"
    and "read_entry archive (segment_name (base_of archive (em_stream_arn meta)) 0) = Inr stored"
    and "length stored < 16" and "xts_sector ci (subrange vek 0 16) (subrange vek 16 32) 0 stored = None"
  shows "decrypt_reader oc ci zo backing password = Inl (Panic xts_panic)"
proof -
  have u: "unat (word_of_nat (length stored) :: u32) = length stored"
    using assms(10) by (simp add: unat_of_nat)
  have "chunk_bounds_from_index oc (concat (map (\<lambda>(off, len). index_entry off len)
      [(0, word_of_nat (length stored))])) (word_of_nat 0) =
    Inr (0, 0 + ucast (word_of_nat (length stored) :: u32))"
    using assms(10) by (intro bevy.bounds_entry) (simp_all add: u)
  with u obtain b :: u64 where b: "chunk_bounds_from_index oc (index_entry 0 (word_of_nat (length stored))) 0 =
      Inr (0, b)" "unat b = length stored"
    by (auto simp: unat_ucast_u32)
  have id: "encrypted_chunk_id cps 0 0 = Some 0" for cps
    by (simp add: encrypted_chunk_id_def checked_mul_def checked_add_def)
  have sub: "subrange stored 0 (length stored) = stored" by (simp add: subrange_def)
  have "decrypt_segment oc (xts_sector ci (subrange vek 0 16) (subrange vek 16 32)) archive
      (base_of archive (em_stream_arn meta)) (em_chunks_per_segment meta) (em_size meta) 0 0 [] =
    Inl (Panic xts_panic)"
    using assms(6,11)
    by (simp add: decrypt_segment_def Let_def assms(8,9) b id xts_decrypt_def xts_panic_def sub)
  then show ?thesis
    using assms(4-7)
    by (simp add: decrypt_reader_unfold [OF assms(1-3)] aes128_key_def with_capacity_def Let_def
        decrypt_loop.simps [of _ _ 0 0 "[]"])
qed

lemma enc_entries_fit:
  assumes "zip_archive_new enc_zip backing = Inr a" and "read_entry a name = Inr d"
  shows "length d < 2 ^ 64"
proof -
  have a: "a = archive_of enc_entries" using assms(1) by (simp add: zip_archive_new_def)
  have l: "length (bytes_of_string enc_turtle) < 1000" by code_simp
  from assms(2) have "map_of enc_entries name = Some d"
    by (auto simp: a read_entry_def by_name_def archive_of_def read_to_end_def split: option.splits)
  then have "(name, d) \<in> set enc_entries" by (rule map_of_SomeD)
  then have "length d < 1000" using l by (auto simp: enc_entries_def)
  then show ?thesis by simp
qed

text \<open>
  Decryption ends in a result or an error for every container and password; it panics in two
  situations only: the declared size is more than a vector may hold, or the cipher is given a
  sector shorter than one block.
\<close>

lemma decrypt_panics_only:
  assumes "\<And>a name d. zip_archive_new zo backing = Inr a \<Longrightarrow> read_entry a name = Inr d \<Longrightarrow>
      length d < 2 ^ 64"
  shows "case decrypt_reader oc ci zo backing password of
      Inl (Panic p) \<Rightarrow> p = CapacityOverflow \<or> p = CalleePanic ''xts-mode: data too short''
    | _ \<Rightarrow> True"
  using panics_in_decrypt_reader [of zo backing oc ci password] assms
  by (auto simp: panics_in_def entries_fit_def xts_panic_def split: sum.split fault.split)

lemma decrypt_panics_only_witness:
  "case decrypt_reader True toy_ciphers enc_zip [] ''pw'' of
      Inl (Panic p) \<Rightarrow> p = CapacityOverflow \<or> p = CalleePanic ''xts-mode: data too short''
    | _ \<Rightarrow> True"
  by (rule decrypt_panics_only) (rule enc_entries_fit)

end
