(* ===== verification/Audit_Properties.thy ===== *)
theory Audit_Properties
  imports Forensic_Facts Meta_Properties Examples
begin

text \<open>
  The properties of the integrity audit: the report as a function of the image, when it is empty,
  when the audit fails, and the agreement of its digests with the declared ones.
\<close>

section \<open>An audited example\<close>

text \<open>Digests that are the data itself, streamed by appending.\<close>

definition toy_digest :: "bytes digest" where
  "toy_digest = \<lparr>dg_new = [], dg_update = (\<lambda>h p. h @ p), dg_finalize = (\<lambda>h. h)\<rparr>"

definition toy_digests :: "bytes digests" where
  "toy_digests =
     \<lparr>dg_md5 = toy_digest, dg_sha1 = toy_digest, dg_sha256 = toy_digest, dg_sha512 = toy_digest,
      dg_blake2b = toy_digest\<rparr>"

lemma toy_digests_law: "digests_law toy_digests (\<lambda>_ c. c)"
proof -
  have "foldl (\<lambda>h p. h @ p) acc ps = acc @ concat ps" for acc :: bytes and ps
    by (induction ps arbitrary: acc) auto
  then show ?thesis
    by (simp add: digests_law_def digest_law_def toy_digests_def toy_digest_def)
qed

definition demo_hashes :: "stored_hash list" where
  "demo_hashes =
     [\<lparr>algorithm = ''MD5'', hex = ''00''\<rparr>, \<lparr>algorithm = ''CRC32'', hex = ''11''\<rparr>]"

definition hashed_reader :: aff4_reader where
  "hashed_reader = demo_reader\<lparr>rd_image_hashes := demo_hashes\<rparr>"

lemma rd_image_hashes_update_frame:
  "rd_archive (r\<lparr>rd_image_hashes := h\<rparr>) = rd_archive r"
  "rd_zip_base (r\<lparr>rd_image_hashes := h\<rparr>) = rd_zip_base r"
  "rd_chunk_size (r\<lparr>rd_image_hashes := h\<rparr>) = rd_chunk_size r"
  "rd_chunks_per_segment (r\<lparr>rd_image_hashes := h\<rparr>) = rd_chunks_per_segment r"
  "rd_compression (r\<lparr>rd_image_hashes := h\<rparr>) = rd_compression r"
  by simp_all

lemma read_chunk_image_hashes [simp]:
  "read_chunk oc cd (r\<lparr>rd_image_hashes := h\<rparr>) = read_chunk oc cd r"
  by (rule ext) (simp only: read_chunk_eq, unfold rd_image_hashes_update_frame, rule refl)

lemma hashed_full: "0 < rd_chunk_size hashed_reader" "chunks_full oc cd hashed_reader"
proof -
  show "0 < rd_chunk_size hashed_reader" by (simp add: hashed_reader_def)
  have "chunk_count hashed_reader = 1" by (simp add: chunk_count_def div_ceil_def hashed_reader_def)
  then show "chunks_full oc cd hashed_reader"
    by (simp add: chunks_full_def hashed_reader_def demo_chunk_read) (simp add: demo_chunk_def)
qed


section \<open>The report\<close>

lemma verify_report_filter:
  assumes "digests_law ds H" and "0 < rd_chunk_size r" and "chunks_full oc cd r"
  shows "verify_image_hashes oc cd ds r =
    Inr (map (\<lambda>(off, n). HashUnreadable off n) (reader_unreadable_regions r) @
      map (\<lambda>s. HashMismatch (algorithm s) (hex s)
             (to_hex (H (to_ascii_uppercase (algorithm s)) (image_content oc cd r))))
        (filter (\<lambda>s. recognised s \<and>
             to_hex (H (to_ascii_uppercase (algorithm s)) (image_content oc cd r)) \<noteq> hex s)
          (rd_image_hashes r)))"
proof -
  have "List.map_filter (mismatch H c) hs =
      map (\<lambda>s. HashMismatch (algorithm s) (hex s) (to_hex (H (to_ascii_uppercase (algorithm s)) c)))
        (filter (\<lambda>s. recognised s \<and> to_hex (H (to_ascii_uppercase (algorithm s)) c) \<noteq> hex s) hs)"
    for c hs
    by (induction hs) (simp_all add: List.map_filter_simps mismatch_def Let_def)
  then show ?thesis by (simp add: verify_report [OF assms] unreadable_report_def)
qed



text \<open>
  The audit is clean if and only if the map has no unreadable region and every stored hash of
  a recognised algorithm is the lower-case hexadecimal digest of the content.
\<close>

lemma audit_clean_iff:
  assumes "digests_law ds H" and "0 < rd_chunk_size r" and "chunks_full oc cd r"
  shows "verify_image_hashes oc cd ds r = Inr [] \<longleftrightarrow>
    reader_unreadable_regions r = [] \<and>
    (\<forall>s \<in> set (rd_image_hashes r). recognised s \<longrightarrow>
       hex s = to_hex (H (to_ascii_uppercase (algorithm s)) (image_content oc cd r)))"
proof -
  have "List.map_filter (mismatch H c) hs = [] \<longleftrightarrow> (\<forall>s \<in> set hs. recognised s \<longrightarrow>
      hex s = to_hex (H (to_ascii_uppercase (algorithm s)) c))" for c hs
    by (induction hs) (auto simp: List.map_filter_simps mismatch_def Let_def)
  then show ?thesis by (simp add: verify_report [OF assms] unreadable_report_def)
qed

lemma audit_clean_iff_witness:
  "verify_image_hashes True demo_codecs toy_digests hashed_reader = Inr [] \<longleftrightarrow>
    reader_unreadable_regions hashed_reader = [] \<and>
    (\<forall>s \<in> set (rd_image_hashes hashed_reader). recognised s \<longrightarrow>
       hex s = to_hex (image_content True demo_codecs hashed_reader))"
  by (rule audit_clean_iff [OF toy_digests_law hashed_full])

text \<open>
  C20. The audit never passes content it could not read: when some stored hash is of a recognised
  algorithm and some chunk of the content cannot be read, the audit is an error, not a report.
\<close>

theorem audit_fails_on_unreadable_content:
  assumes "\<exists>s \<in> set (rd_image_hashes r). recognised s" and "0 < rd_chunk_size r"
    and "i < chunk_count r" and "read_chunk oc cd r (word_of_nat i) = Inl e"
  shows "\<exists>e'. verify_image_hashes oc cd ds r = Inl e'"
proof -
  let ?bad = "\<lambda>k. k < chunk_count r \<and> (\<exists>e. read_chunk oc cd r (word_of_nat k) = Inl e)"
  define k where "k = (LEAST k. ?bad k)"
  have bad: "?bad k" unfolding k_def by (rule LeastI [of ?bad i]) (use assms(3,4) in blast)
  then obtain e0 where e0: "read_chunk oc cd r (word_of_nat k) = Inl e0" by blast
  have good: "\<exists>c. read_chunk oc cd r (word_of_nat m) = Inr c" if "m < k" for m
  proof (cases "read_chunk oc cd r (word_of_nat m)")
    case (Inl e1)
    then have "?bad m" using that bad by auto
    then show ?thesis using that not_less_Least [of m ?bad] by (auto simp: k_def)
  qed blast
  have "\<exists>e s'. content_loop (read_chunk oc cd r) oc (rd_image_stream_size r) (update_jobs ds)
      (map word_of_nat [0..<chunk_count r]) 0 (hash_jobs ds (rd_image_hashes r)) = (s', Inl e)"
    by (rule content_loop_fault [where k = k]) (use good bad e0 in auto)
  moreover have "rd_chunk_size r \<noteq> 0" using assms(2) by auto
  moreover have "hash_jobs ds (rd_image_hashes r) \<noteq> []" using assms(1) by (auto simp: hash_jobs_Nil)
  ultimately show ?thesis
    by (auto simp: verify_image_hashes_def stored_image_hashes_def read_image_stream_content_def
        chunk_count_def Let_def)
qed

lemma audit_fails_on_unreadable_content_witness:
  "\<exists>e'. verify_image_hashes True demo_codecs toy_digests
     (hashed_reader\<lparr>rd_archive := archive_of []\<rparr>) = Inl e'"
proof -
  have "\<exists>e. read_chunk True demo_codecs (hashed_reader\<lparr>rd_archive := archive_of []\<rparr>) (word_of_nat 0) = Inl e"
    by (simp add: read_chunk_eq hashed_reader_def read_zip_entry_bytes_def by_name_def archive_of_def Let_def)
  then obtain e where
    e: "read_chunk True demo_codecs (hashed_reader\<lparr>rd_archive := archive_of []\<rparr>) (word_of_nat 0) = Inl e" ..
  show ?thesis
  proof (rule audit_fails_on_unreadable_content [OF _ _ _ e])
    show "\<exists>s \<in> set (rd_image_hashes (hashed_reader\<lparr>rd_archive := archive_of []\<rparr>)). recognised s"
      by (simp add: hashed_reader_def demo_hashes_def) code_simp
  qed (simp_all add: hashed_reader_def chunk_count_def div_ceil_def)
qed

text \<open>
  An honest image passes: when the declared hash of the image stream is the typed literal of
  the digest of its content, as the writers render it, the audit finds no mismatch.
\<close>

lemma honest_image_passes:
  assumes "digests_law ds H" and "0 < rd_chunk_size r" and "chunks_full oc cd r"
    and "H (to_ascii_uppercase alg) (image_content oc cd r) \<noteq> []"
    and "alg \<noteq> []" and "is_ascii_alphanumeric (last alg)"
    and "map Some (rd_image_hashes r) =
      [parse_hash_term (CHR 0x22 # to_hex (H (to_ascii_uppercase alg) (image_content oc cd r)) @
         CHR 0x22 # ''^^aff4:'' @ alg)]"
  shows "verify_image_hashes oc cd ds r =
    Inr (map (\<lambda>(off, n). HashUnreadable off n) (reader_unreadable_regions r))"
proof -
  let ?h = "to_hex (H (to_ascii_uppercase alg) (image_content oc cd r))"
  have "?h \<noteq> []" using assms(4) by (cases "H (to_ascii_uppercase alg) (image_content oc cd r)")
    (auto simp: to_hex_def hex02_two_digits)
  from parse_hash_term_render [OF this to_hex_hexdigits assms(5,6), of "[]"]
  have "parse_hash_term (CHR 0x22 # ?h @ CHR 0x22 # ''^^aff4:'' @ alg) =
      Some \<lparr>algorithm = alg, hex = ?h\<rparr>"
    by (simp add: to_hex_lower)
  with assms(7) have "rd_image_hashes r = [\<lparr>algorithm = alg, hex = ?h\<rparr>]" by (auto simp: map_eq_Cons_conv)
  then show ?thesis
    by (simp add: verify_report [OF assms(1-3)] unreadable_report_def List.map_filter_simps mismatch_def)
qed

definition demo_digest_hex :: string where
  "demo_digest_hex = to_hex (image_content True demo_codecs demo_reader)"

lemma demo_content: "image_content oc cd (demo_reader\<lparr>rd_image_hashes := h\<rparr>) = image_content oc cd demo_reader"
  by (simp add: image_content_def stream_byte_def cong: sum.case_cong)

lemma honest_image_passes_witness:
  "\<exists>r. verify_image_hashes True demo_codecs toy_digests r = Inr [HashUnreadable 12 8] \<and>
    rd_image_hashes r \<noteq> []"
proof -
  let ?r = "demo_reader\<lparr>rd_image_hashes := [\<lparr>algorithm = ''MD5'', hex = demo_digest_hex\<rparr>]\<rparr>"
  have len: "length (image_content True demo_codecs demo_reader) = 16" by (simp add: image_content_def)
  then have ne: "image_content True demo_codecs demo_reader \<noteq> []" by auto
  then have hn: "to_hex (image_content True demo_codecs demo_reader) \<noteq> []"
    by (cases "image_content True demo_codecs demo_reader") (auto simp: to_hex_def hex02_two_digits)
  have last: "is_ascii_alphanumeric (last ''MD5'')" by code_simp
  from parse_hash_term_render [OF hn to_hex_hexdigits, of "''MD5''" "[]"] last
  have p: "parse_hash_term (CHR 0x22 # demo_digest_hex @ CHR 0x22 # ''^^aff4:'' @ ''MD5'') =
      Some \<lparr>algorithm = ''MD5'', hex = demo_digest_hex\<rparr>"
    by (simp add: to_hex_lower demo_digest_hex_def)
  have full: "chunks_full True demo_codecs ?r"
    using hashed_full(2) [of True demo_codecs]
    by (simp add: chunks_full_def chunk_count_def hashed_reader_def cong: sum.case_cong)
  have "verify_image_hashes True demo_codecs toy_digests ?r =
    Inr (map (\<lambda>(off, n). HashUnreadable off n) (reader_unreadable_regions ?r))"
  proof (rule honest_image_passes [OF toy_digests_law _ full, of "''MD5''"])
    show "map Some (rd_image_hashes ?r) =
      [parse_hash_term (CHR 0x22 # to_hex (image_content True demo_codecs ?r) @
         CHR 0x22 # ''^^aff4:'' @ ''MD5'')]"
      using p by (simp add: demo_content demo_digest_hex_def)
  qed (use ne last in \<open>simp_all add: demo_content\<close>)
  moreover have "reader_unreadable_regions ?r = [(12, 8)]"
    by (simp add: reader_unreadable_regions_def)
      (simp add: unreadable_regions_def target_of_def get_at_def demo_map_def)
  ultimately show ?thesis by (intro exI [of _ ?r]) simp
qed

section \<open>From the file to the findings\<close>

text \<open>
  C10. The audit of a file, whole: when the file opens and its archive holds the chunks of a
  plaintext, stored by a writer that encodes or keeps them verbatim, the findings are, in this
  order, the unreadable regions of the map and the declared hashes of known algorithms that differ
  from the digest of the plaintext, cut at the declared size of the stream.
\<close>

theorem audit_of_written_image:
  assumes "digests_law ds H" and "open_path fs zo sr path = Inr r"
    and "bevies_held (rd_archive r) (rd_zip_base r) (rd_chunks_per_segment r)
      (map (store_chunk enc) chunks)"
    and "encodes cd r enc" and "list_all (\<lambda>c. length c = unat (rd_chunk_size r)) chunks"
    and "unat (rd_image_stream_size r) \<le> length (concat chunks)"
  defines "digest \<equiv> \<lambda>s. to_hex (H (to_ascii_uppercase (algorithm s))
      (take (unat (rd_image_stream_size r)) (concat chunks)))"
  shows "audit_image oc cd ds to_finding fs zo sr path =
    Inr (map (to_finding audit_source)
      (map (\<lambda>(off, n). HashUnreadable off n) (reader_unreadable_regions r) @
       map (\<lambda>s. HashMismatch (algorithm s) (hex s) (digest s))
         (filter (\<lambda>s. recognised s \<and> digest s \<noteq> hex s) (rd_image_hashes r))))"
proof -
  obtain backing where "open_reader zo sr backing = Inr r"
    using assms(2) by (auto simp: open_path_def and_then_eq_Inr)
  then have cs: "0 < rd_chunk_size r" using open_reader_wf by (auto simp: reader_wf_def)
  have "chunks_full oc cd r" using written_full [OF assms(3,4) cs assms(5,6)] .
  moreover have "image_content oc cd r = take (unat (rd_image_stream_size r)) (concat chunks)"
    using written_content [OF assms(3,4) cs assms(5,6)] .
  ultimately show ?thesis
    using verify_report_filter [OF assms(1) cs, of oc cd]
    by (simp add: audit_image_def assms(2) digest_def)
qed

text \<open>Two chunks, the second cut by the stream size; the first hash is right, the second is not.\<close>

definition audited_turtle :: string where
  "audited_turtle =
     ''<aff4://s> a aff4:ImageStream ; aff4:size 6 ; aff4:chunkSize 4 ; '' @
     ''aff4:chunksInSegment 2 ; aff4:compressionMethod aff4:NullCompressor ; aff4:hash '' @
     [CHR 0x22] @ ''010203040506'' @ [CHR 0x22] @ ''^^aff4:MD5 , '' @
     [CHR 0x22] @ ''00'' @ [CHR 0x22] @ ''^^aff4:SHA1 .''"

definition audited_chunks :: "bytes list" where
  "audited_chunks = [[1, 2, 3, 4], [5, 6, 0, 0]]"

definition audited_entries :: "(string \<times> bytes) list" where
  "audited_entries =
     [(''information.turtle'', bytes_of_string audited_turtle),
      (''s/00000000'', [1, 2, 3, 4, 5, 6, 0, 0]),
      (''s/00000000.index'', index_entry 0 4 @ index_entry 4 4)]"

definition audited_reader :: aff4_reader where
  "audited_reader =
     \<lparr>rd_archive = archive_of audited_entries, rd_zip_base = ''s'', rd_virtual_size = 6,
      rd_image_stream_size = 6, rd_chunk_size = 4, rd_chunks_per_segment = 2,
      rd_compression = Null,
      rd_image_hashes =
        [\<lparr>algorithm = ''MD5'', hex = ''010203040506''\<rparr>, \<lparr>algorithm = ''SHA1'', hex = ''00''\<rparr>],
      rd_pos = 0, rd_loaded_map = None\<rparr>"

lemma audited_turtle_parses:
  "parse_turtle audited_turtle = Inr
     \<lparr>sm_stream_arn = ''aff4://s'', sm_virtual_size = 6, sm_image_stream_size = 6,
      sm_chunk_size = 4, sm_chunks_per_segment = 2, sm_compression = Null,
      sm_image_hashes = rd_image_hashes audited_reader, sm_map_meta = None\<rparr>"
  by code_simp

lemma audited_opens:
  "open_path (\<lambda>_. Inr []) (\<lambda>_. Inr (archive_of audited_entries)) sr ''img'' = Inr audited_reader"
proof -
  have "ascii_text audited_turtle" by code_simp
  then have "information_turtle (archive_of audited_entries) = Inr audited_turtle"
    by (intro read_text_entry) (simp_all add: audited_entries_def)
  moreover have "base_of (archive_of audited_entries) ''aff4://s'' = ''s''" by code_simp
  ultimately show ?thesis
    by (simp add: open_path_def open_file_def open_reader_def zip_archive_new_def
        audited_turtle_parses) (simp add: audited_reader_def)
qed

lemma audited_held:
  "bevies_held (rd_archive audited_reader) (rd_zip_base audited_reader)
     (rd_chunks_per_segment audited_reader) (map (store_chunk id) audited_chunks)"
proof -
  have name: "segment_name ''s'' (word_of_nat 0) = ''s/00000000''" by code_simp
  have st: "map (store_chunk id) audited_chunks = audited_chunks"
    by (simp add: audited_chunks_def store_chunk_def)
  have seg: "segment_chunks 2 audited_chunks 0 = audited_chunks"
    by (simp add: segment_chunks_def audited_chunks_def)
  have e: "map_of audited_entries ''s/00000000'' = Some (concat audited_chunks)"
    "map_of audited_entries ''s/00000000.index'' = Some (index_entry 0 4 @ index_entry 4 4)"
    by (simp_all add: audited_entries_def audited_chunks_def)
  have "segment_held (archive_of audited_entries) ''s'' 2 audited_chunks 0"
    unfolding segment_held_def seg name
    using e [THEN read_archive_of] by (simp add: packed_index_def) (simp add: audited_chunks_def)
  then show ?thesis
    unfolding st
    by (simp add: bevies_held_def audited_reader_def) (simp add: audited_chunks_def less_Suc_eq)
qed

lemma audit_of_written_image_witness:
  "audit_image True demo_codecs toy_digests (\<lambda>_ a. a) (\<lambda>_. Inr [])
     (\<lambda>_. Inr (archive_of audited_entries)) safe_read_impl ''img'' =
   Inr [HashMismatch ''SHA1'' ''00'' ''010203040506'']"
proof -
  have enc: "encodes demo_codecs audited_reader id" by (simp add: encodes_def audited_reader_def)
  have rec: "recognised \<lparr>algorithm = ''MD5'', hex = ''010203040506''\<rparr>"
    "recognised \<lparr>algorithm = ''SHA1'', hex = ''00''\<rparr>"
    by code_simp+
  have digest: "to_hex (take 6 (concat audited_chunks)) = ''010203040506''" by code_simp
  have "list_all (\<lambda>c. length c = unat (rd_chunk_size audited_reader)) audited_chunks"
    "unat (rd_image_stream_size audited_reader) \<le> length (concat audited_chunks)"
    by (simp_all add: audited_reader_def audited_chunks_def)
  note r = audit_of_written_image [OF toy_digests_law audited_opens audited_held enc this,
      of True "\<lambda>_ a. a" safe_read_impl]
  have "reader_unreadable_regions audited_reader = []"
    by (simp add: reader_unreadable_regions_def audited_reader_def)
  moreover have "rd_image_hashes audited_reader =
      [\<lparr>algorithm = ''MD5'', hex = ''010203040506''\<rparr>, \<lparr>algorithm = ''SHA1'', hex = ''00''\<rparr>]"
    "unat (rd_image_stream_size audited_reader) = 6"
    by (simp_all add: audited_reader_def)
  ultimately show ?thesis using r rec digest by simp
qed

end
