(* ===== verification/Logical_Fixture.thy ===== *)
theory Logical_Fixture
  imports Fixture_Facts Logical
begin

text \<open>
  The AFF4-Logical fixture, \<open>test_aff4_logical\<close>, opened and read back for every file name and
  every content: its turtle is parsed with the name, the size and the digest left as variables.
\<close>

section \<open>Searching texts put together from words\<close>

lemma find_str_skip_word:
  assumes "CHR '' '' \<notin> set p" and "p \<noteq> []"
  shows "\<not> contains w p \<Longrightarrow>
    find_str (w @ CHR '' '' # r) p = map_option (\<lambda>i. Suc (length w) + i) (find_str r p)"
proof (induction w)
  case Nil
  have "\<not> starts_with (CHR '' '' # r) p" using assms by (cases p) auto
  then show ?case by (simp add: comp_def)
next
  case (Cons c w)
  have "\<not> starts_with ((c # w) @ CHR '' '' # r) p"
  proof
    assume "starts_with ((c # w) @ CHR '' '' # r) p"
    then obtain t where t: "(c # w) @ CHR '' '' # r = p @ t" by (auto simp: starts_with_iff)
    then obtain u where u: "c # w = p @ u \<or> p = (c # w) @ u \<and> CHR '' '' # r = u @ t"
      using iffD1 [OF append_eq_append_conv2 t] by metis
    show False
    proof (cases "c # w = p @ u")
      case True
      then have "contains (c # w) p" by (metis append_Nil contains_iff)
      with Cons.prems show False by simp
    next
      case False
      with u have p: "p = (c # w) @ u" "CHR '' '' # r = u @ t" by auto
      with False have "u \<noteq> []" by auto
      with p assms(1) show False by (cases u) auto
    qed
  qed
  moreover have "\<not> contains w p" using Cons.prems contains_appendI2 [of w p "[c]"] by auto
  ultimately show ?case using Cons.IH by (simp add: option.map_comp comp_def)
qed

lemma join_with_Cons: "ws \<noteq> [] \<Longrightarrow> join_with p (w # ws) = w @ p @ join_with p ws"
  by (cases ws) simp_all

lemma join_with_prefix: "\<exists>t. join_with p (w # ws) = w @ t"
  by (cases ws) auto

lemma find_str_word:
  assumes p: "CHR '' '' \<notin> set p" "p \<noteq> []"
  shows "list_all (\<lambda>w. \<not> contains w p) ws \<Longrightarrow>
    \<exists>pre. join_with '' '' (ws @ p # r) = pre @ join_with '' '' (p # r) \<and>
      find_str (join_with '' '' (ws @ p # r)) p = Some (length pre)"
proof (induction ws)
  case Nil
  obtain t where "join_with '' '' (p # r) = p @ t" using join_with_prefix by blast
  then have "find_str (join_with '' '' (p # r)) p = Some 0"
    using find_str_fresh [OF p(2), of "[]" t] by simp
  then show ?case by simp
next
  case (Cons w ws)
  then obtain pre where pre: "join_with '' '' (ws @ p # r) = pre @ join_with '' '' (p # r)"
    "find_str (join_with '' '' (ws @ p # r)) p = Some (length pre)"
    by auto
  have j: "join_with '' '' ((w # ws) @ p # r) = w @ CHR '' '' # join_with '' '' (ws @ p # r)"
    by (simp add: join_with_Cons)
  have "find_str (join_with '' '' ((w # ws) @ p # r)) p = Some (length (w @ CHR '' '' # pre))"
    unfolding j using find_str_skip_word [OF p, of w] Cons.prems pre(2) by simp
  moreover have "join_with '' '' ((w # ws) @ p # r) = (w @ CHR '' '' # pre) @ join_with '' '' (p # r)"
    unfolding j pre(1) by simp
  ultimately show ?case by blast
qed

text \<open>The quoted value of a predicate is the literal of the word after its first occurrence.\<close>

lemma extract_pred_quoted_words:
  assumes p: "CHR '' '' \<notin> set p" "p \<noteq> []" "CHR 0x22 \<notin> set p"
    and lacks: "list_all (\<lambda>w. \<not> contains w p) ws" and q: "CHR 0x22 \<notin> set q"
  shows "pred_quoted (join_with '' '' (ws @ p # (CHR 0x22 # q @ CHR 0x22 # u) # r)) p = Some q"
proof -
  let ?v = "CHR 0x22 # q @ CHR 0x22 # u"
  obtain pre where pre: "join_with '' '' (ws @ p # ?v # r) = pre @ join_with '' '' (p # ?v # r)"
    "find_str (join_with '' '' (ws @ p # ?v # r)) p = Some (length pre)"
    using find_str_word [OF p(1,2) lacks, of "?v # r"] by blast
  obtain t where t: "join_with '' '' (?v # r) = ?v @ t" using join_with_prefix by blast
  have after: "drop (length pre + length p) (join_with '' '' (ws @ p # ?v # r)) = CHR '' '' # ?v @ t"
    unfolding pre(1) using t by simp
  have first: "find_str (CHR '' '' # ?v @ t) [CHR 0x22] = Some 1"
    using find_str_fresh [of "[CHR 0x22]" "'' ''" "q @ CHR 0x22 # u @ t"] by simp
  have second: "find_str (q @ CHR 0x22 # u @ t) [CHR 0x22] = Some (length q)"
    using find_str_fresh [of "[CHR 0x22]" q "u @ t"] q by simp
  show ?thesis
    unfolding pred_quoted_def pre(2) option.case Let_def after first
    using second by simp
qed

text \<open>A block ends at the first full stop that is a word.\<close>

lemma find_str_skip_dot:
  "CHR '' '' \<notin> set w \<Longrightarrow> find_str (w @ s) '' . '' = map_option (\<lambda>i. length w + i) (find_str s '' . '')"
proof (induction w)
  case Nil
  then show ?case by (simp add: option.map_ident)
next
  case (Cons c w)
  then show ?case by (auto simp: option.map_comp comp_def)
qed

lemma find_str_end_of_block:
  "ws \<noteq> [] \<Longrightarrow> list_all (\<lambda>w. CHR '' '' \<notin> set w \<and> w \<noteq> ''.'') ws \<Longrightarrow>
   find_str (join_with '' '' ws @ '' . '') '' . '' = Some (length (join_with '' '' ws))"
proof (induction "'' ''" ws rule: join_with.induct)
  case 1
  then show ?case by simp
next
  case (2 x)
  then show ?case by (simp add: find_str_skip_dot)
next
  case (3 x y ys)
  let ?t = "join_with '' '' (y # ys)"
  have IH: "find_str (?t @ '' . '') '' . '' = Some (length ?t)" using 3 by simp
  have y: "CHR '' '' \<notin> set y" "y \<noteq> ''.''" using "3.prems" by auto
  have "\<exists>r. ?t @ '' . '' = y @ CHR '' '' # r" by (cases ys) auto
  then obtain r where r: "?t @ '' . '' = y @ CHR '' '' # r" by blast
  have "\<not> starts_with (y @ CHR '' '' # r) ''. ''"
    using y by (cases y; cases "tl y") auto
  then have "\<not> starts_with (CHR '' '' # ?t @ '' . '') '' . ''" unfolding r by simp
  then have "find_str (CHR '' '' # ?t @ '' . '') '' . '' = Some (Suc (length ?t))"
    using IH by simp
  then show ?case using "3.prems" find_str_skip_dot [of x "CHR '' '' # ?t @ '' . ''"] by simp
qed

lemma hashes_from_single:
  assumes "''aff4:hash'' \<notin> set pre" and "''aff4:hash'' \<notin> set post"
  shows "hashes_from (pre @ ''aff4:hash'' # post) 0 = value_run post"
proof -
  let ?ts = "pre @ ''aff4:hash'' # post"
  have "hashes_from ?ts 0 = hashes_from ?ts (length pre)"
    by (rule hashes_from_skip) (use assms(1) in \<open>auto simp: nth_append in_set_conv_nth\<close>)
  also have "\<dots> = value_run post @ hashes_from ?ts (length pre + 1)"
    by (subst hashes_from_step) simp_all
  also have "hashes_from ?ts (length pre + 1) = hashes_from ?ts (length ?ts)"
  proof (rule hashes_from_skip)
    fix k assume k: "length pre + 1 \<le> k" "k < length ?ts"
    then have "?ts ! k = post ! (k - length pre - 1)" by (simp add: nth_append)
    moreover have "post ! (k - length pre - 1) \<in> set post" using k by simp
    ultimately show "?ts ! k \<noteq> ''aff4:hash''" using assms(2) by metis
  qed simp_all
  finally show ?thesis by (simp add: hashes_from_def)
qed

section \<open>The turtle of the fixture\<close>

definition segment_ok :: "string \<Rightarrow> bool" where
  "segment_ok seg \<longleftrightarrow> seg \<noteq> [] \<and> hd seg \<noteq> CHR ''/'' \<and>
     list_all (\<lambda>c. graphic c \<and> c \<noteq> CHR ''>'' \<and> c \<noteq> CHR 0x22 \<and> c \<noteq> CHR '';'' \<and> c \<noteq> CHR '':'') seg \<and>
     seg \<noteq> ''information.turtle'' \<and> seg \<noteq> ''version.txt''"

definition file_iri :: "string \<Rightarrow> string" where
  "file_iri seg = logical_volume @ ''/'' @ seg"

definition name_word :: "string \<Rightarrow> string" where
  "name_word seg = CHR 0x22 # (''./'' @ seg) @ CHR 0x22 # ''^^xsd:string''"

definition written_literal :: string where
  "written_literal = ''2018-09-17T13:42:20+10:00''"

definition written_word :: string where
  "written_word = CHR 0x22 # written_literal @ CHR 0x22 # ''^^xsd:datetime''"

definition hash_word :: "string \<Rightarrow> string" where
  "hash_word h = CHR 0x22 # h @ CHR 0x22 # ''^^aff4:MD5''"

definition head_words :: "string \<Rightarrow> string list" where
  "head_words seg =
     [''<'' @ file_iri seg @ ''>'', ''rdf:type'', ''aff4:FileImage'', '','', ''aff4:Image'', '','',
      ''aff4:zip_segment'', [], []]"

definition size_words :: "nat \<Rightarrow> string list" where
  "size_words n = [[], [], ''aff4:size'', dec n, [], []]"

definition tail_words :: "string \<Rightarrow> string list" where
  "tail_words h =
     [[], [], ''aff4:hash'', hash_word h, [], [], ''aff4:stored'', ''<'' @ logical_volume @ ''>'']"

definition file_words :: "string \<Rightarrow> nat \<Rightarrow> string \<Rightarrow> string list" where
  "file_words seg n h =
     head_words seg @ ''aff4:originalFileName'' # name_word seg # size_words n @
     ''aff4:lastWritten'' # written_word # tail_words h"

lemmas file_words_defs = file_words_def head_words_def size_words_def tail_words_def

definition logical_turtle :: "string \<Rightarrow> nat \<Rightarrow> string \<Rightarrow> string" where
  "logical_turtle seg n h =
     turtle_prefixes @ ''@prefix xsd: <http://www.w3.org/2001/XMLSchema#> .'' @ line_feed @
     ''<'' @ logical_volume @ ''/'' @ seg @
     ''> rdf:type aff4:FileImage , aff4:Image , aff4:zip_segment ; '' @
     ''aff4:originalFileName '' @ [CHR 0x22] @ ''./'' @ seg @ [CHR 0x22] @ ''^^xsd:string ; '' @
     ''aff4:size '' @ dec n @ '' ; '' @
     ''aff4:lastWritten '' @ [CHR 0x22] @ ''2018-09-17T13:42:20+10:00'' @ [CHR 0x22] @
     ''^^xsd:datetime ; '' @
     ''aff4:hash '' @ [CHR 0x22] @ h @ [CHR 0x22] @ ''^^aff4:MD5 ; '' @
     ''aff4:stored <'' @ logical_volume @ ''> .'' @ line_feed"

definition prefix_3 :: string where
  "prefix_3 = ''@prefix xsd: <http://www.w3.org/2001/XMLSchema#>''"

lemma graphic_ascii: "graphic c \<Longrightarrow> ascii c < 128"
  by (simp add: graphic_def)

lemma segment_ok_chars:
  assumes "segment_ok seg"
  shows "CHR '' '' \<notin> set seg" "CHR ''>'' \<notin> set seg" "CHR 0x22 \<notin> set seg" "CHR '':'' \<notin> set seg"
    and "list_all graphic seg" and "normalize_turtle seg = seg" and "ascii_text seg"
proof -
  have c: "graphic c \<and> c \<noteq> CHR ''>'' \<and> c \<noteq> CHR 0x22 \<and> c \<noteq> CHR '';'' \<and> c \<noteq> CHR '':''"
    if "c \<in> set seg" for c
    using assms that by (auto simp: segment_ok_def list_all_iff)
  have g: "\<not> graphic (CHR '' '')" "\<not> graphic (CHR 0x0A)" "\<not> graphic (CHR 0x0D)" "\<not> graphic (CHR 0x09)"
    by code_simp+
  show "CHR '' '' \<notin> set seg" "CHR ''>'' \<notin> set seg" "CHR 0x22 \<notin> set seg" "CHR '':'' \<notin> set seg"
    "list_all graphic seg"
    using c g by (auto simp: list_all_iff)
  show "normalize_turtle seg = seg" by (rule normalize_id) (use c g in auto)
  show "ascii_text seg" using c graphic_ascii by (auto simp: ascii_text_def list_all_iff)
qed

lemma hexdigit_graphic: "is_ascii_hexdigit c \<Longrightarrow> graphic c \<and> c \<noteq> CHR '';''"
  by (auto simp: is_ascii_hexdigit_def to_digit16_def graphic_def Let_def split: if_splits)

lemma hex_chars:
  assumes "list_all is_ascii_hexdigit h"
  shows "list_all graphic h" and "normalize_turtle h = h" and "ascii_text h"
proof -
  have c: "graphic c \<and> c \<noteq> CHR '';''" if "c \<in> set h" for c
    using assms that hexdigit_graphic by (auto simp: list_all_iff)
  have g: "\<not> graphic (CHR 0x0A)" "\<not> graphic (CHR 0x0D)" "\<not> graphic (CHR 0x09)" by code_simp+
  show "list_all graphic h" using c by (auto simp: list_all_iff)
  show "normalize_turtle h = h" by (rule normalize_id) (use c g in auto)
  show "ascii_text h" using c graphic_ascii by (auto simp: ascii_text_def list_all_iff)
qed

lemma normalize_logical_turtle:
  assumes "segment_ok seg" and "list_all is_ascii_hexdigit h"
  shows "normalize_turtle (logical_turtle seg n h) =
    prefix_1 @ '' . '' @ prefix_2 @ '' . '' @ prefix_3 @ '' . '' @
    join_with '' '' (file_words seg n h) @ '' . ''"
proof -
  have pre: "normalize_turtle turtle_prefixes = prefix_1 @ '' . '' @ prefix_2 @ '' . ''"
    by code_simp
  define t0 where "t0 = ''@prefix xsd: <http://www.w3.org/2001/XMLSchema#> .'' @ line_feed"
  have pre3: "normalize_turtle t0 = prefix_3 @ '' . ''" unfolding t0_def by code_simp
  define t1 where "t1 = ''<'' @ logical_volume @ ''/''"
  define t2 where "t2 = ''> rdf:type aff4:FileImage , aff4:Image , aff4:zip_segment ; '' @
    ''aff4:originalFileName '' @ [CHR 0x22] @ ''./''"
  define t3 where "t3 = [CHR 0x22] @ ''^^xsd:string ; aff4:size ''"
  define t4 where "t4 = '' ; aff4:lastWritten '' @ [CHR 0x22] @ ''2018-09-17T13:42:20+10:00'' @
    [CHR 0x22] @ ''^^xsd:datetime ; aff4:hash '' @ [CHR 0x22]"
  define t5 where "t5 = [CHR 0x22] @ ''^^aff4:MD5 ; aff4:stored <'' @ logical_volume @ ''> .'' @ line_feed"
  have parts:
    "normalize_turtle t1 = ''<'' @ logical_volume @ ''/''"
    "normalize_turtle t2 = ''> rdf:type aff4:FileImage , aff4:Image , aff4:zip_segment   '' @
      ''aff4:originalFileName '' @ [CHR 0x22] @ ''./''"
    "normalize_turtle t3 = [CHR 0x22] @ ''^^xsd:string   aff4:size ''"
    "normalize_turtle t4 = ''   aff4:lastWritten '' @ [CHR 0x22] @ ''2018-09-17T13:42:20+10:00'' @
      [CHR 0x22] @ ''^^xsd:datetime   aff4:hash '' @ [CHR 0x22]"
    "normalize_turtle t5 = [CHR 0x22] @ ''^^aff4:MD5   aff4:stored <'' @ logical_volume @ ''> . ''"
    unfolding t1_def t2_def t3_def t4_def t5_def by code_simp+
  have "logical_turtle seg n h =
      turtle_prefixes @ t0 @ t1 @ seg @ t2 @ seg @ t3 @ dec n @ t4 @ h @ t5"
    by (simp add: logical_turtle_def t0_def t1_def t2_def t3_def t4_def t5_def)
  then have "normalize_turtle (logical_turtle seg n h) =
      prefix_1 @ '' . '' @ prefix_2 @ '' . '' @ prefix_3 @ '' . '' @
      (''<'' @ logical_volume @ ''/'') @ seg @
      (''> rdf:type aff4:FileImage , aff4:Image , aff4:zip_segment   '' @
      ''aff4:originalFileName '' @ [CHR 0x22] @ ''./'') @ seg @ ([CHR 0x22] @ ''^^xsd:string   aff4:size '') @
      dec n @ (''   aff4:lastWritten '' @ [CHR 0x22] @ ''2018-09-17T13:42:20+10:00'' @
      [CHR 0x22] @ ''^^xsd:datetime   aff4:hash '' @ [CHR 0x22]) @ h @
      ([CHR 0x22] @ ''^^aff4:MD5   aff4:stored <'' @ logical_volume @ ''> . '')"
    by (simp only: normalize_append pre pre3 parts normalize_dec segment_ok_chars(6) [OF assms(1)]
        hex_chars(2) [OF assms(2)] append_assoc)
  then show ?thesis
    by (simp add: file_words_defs file_iri_def name_word_def written_word_def written_literal_def
        hash_word_def)
qed

lemma file_words_tokens:
  assumes "segment_ok seg" and "list_all is_ascii_hexdigit h"
  shows "list_all (\<lambda>w. w = [] \<or> token w) (file_words seg n h)"
proof -
  have t: "list_all token [''rdf:type'', ''aff4:FileImage'', '','', ''aff4:Image'', ''aff4:zip_segment'',
      ''aff4:size'', ''aff4:originalFileName'', ''aff4:lastWritten'', written_word, ''aff4:hash'',
      ''aff4:stored'', ''<'' @ logical_volume @ ''>'']"
    by code_simp
  have g: "list_all graphic (''<'' @ logical_volume @ ''/'')" "list_all graphic ''>''"
    "list_all graphic (CHR 0x22 # ''./'')" "list_all graphic (CHR 0x22 # ''^^xsd:string'')"
    "list_all graphic [CHR 0x22]" "list_all graphic (CHR 0x22 # ''^^aff4:MD5'')"
    by code_simp+
  have w: "token (a @ b @ c)" if "list_all graphic a" "list_all graphic b" "list_all graphic c" "c \<noteq> []"
    for a b c
    using that by (simp add: token_def)
  have "token ((''<'' @ logical_volume @ ''/'') @ seg @ ''>'')"
    "token ((CHR 0x22 # ''./'') @ seg @ (CHR 0x22 # ''^^xsd:string''))"
    "token ([CHR 0x22] @ h @ (CHR 0x22 # ''^^aff4:MD5''))"
    using g segment_ok_chars(5) [OF assms(1)] hex_chars(1) [OF assms(2)] by (intro w; simp only: list.distinct not_False_eq_True)+
  then have "token (''<'' @ file_iri seg @ ''>'')" "token (name_word seg)" "token (hash_word h)"
    by (simp_all only: file_iri_def name_word_def hash_word_def append.simps append_assoc)
  with t show ?thesis by (simp add: file_words_defs)
qed

lemma token_no_space: "token w \<Longrightarrow> CHR '' '' \<notin> set w"
proof -
  have "\<not> graphic (CHR '' '')" by code_simp
  then show "token w \<Longrightarrow> CHR '' '' \<notin> set w" by (auto simp: token_def list_all_iff)
qed

lemma logical_turtle_blocks:
  assumes "segment_ok seg" and "list_all is_ascii_hexdigit h"
  shows "turtle_blocks (logical_turtle seg n h) =
    [prefix_1, prefix_2, prefix_3, join_with '' '' (file_words seg n h), []]"
proof -
  let ?b = "join_with '' '' (file_words seg n h)"
  have p: "find_str (prefix_1 @ '' . '') '' . '' = Some (length prefix_1)"
    "find_str (prefix_2 @ '' . '') '' . '' = Some (length prefix_2)"
    "find_str (prefix_3 @ '' . '') '' . '' = Some (length prefix_3)"
    by code_simp+
  have dot: "dec n \<noteq> ''.''" by (rule dec_neq [of "CHR ''.''"]) (simp, code_simp)
  have "''.'' \<notin> set (file_words seg n h)"
    using dot by (simp add: file_words_defs name_word_def written_word_def hash_word_def)
  then have "list_all (\<lambda>w. CHR '' '' \<notin> set w \<and> w \<noteq> ''.'') (file_words seg n h)"
    using file_words_tokens [OF assms, of n] token_no_space by (fastforce simp: list_all_iff)
  then have "find_str (?b @ '' . '') '' . '' = Some (length ?b)"
    by (intro find_str_end_of_block) (simp add: file_words_def)
  from split_str_piece [OF this, of "[]"] have b: "split_str (?b @ '' . '') '' . '' = [?b, []]"
    by (simp add: split_str_None contains_def)
  show ?thesis
    unfolding turtle_blocks_def normalize_logical_turtle [OF assms]
    by (simp only: split_str_piece [OF p(1)] split_str_piece [OF p(2)] split_str_piece [OF p(3)] b
        list.distinct not_False_eq_True simp_thms)
qed

section \<open>The file it describes\<close>

lemma no_colon_letter:
  assumes "CHR '':'' \<notin> set a" and "CHR '':'' \<notin> set s" and "take 1 s \<noteq> [d]"
  shows "\<not> contains (a @ CHR '':'' # s) (CHR '':'' # [d])"
proof
  assume "contains (a @ CHR '':'' # s) (CHR '':'' # [d])"
  then obtain u v where e: "a @ CHR '':'' # s = u @ CHR '':'' # d # v" by (auto simp: contains_iff)
  have "a = u \<and> s = d # v"
  proof -
    have "a @ CHR '':'' # s = u @ CHR '':'' # (d # v) \<longleftrightarrow> a = u \<and> s = d # v"
      by (rule append_Cons_eq_iff) (use assms(1,2) in auto)
    with e show ?thesis by simp
  qed
  with assms(3) show False by simp
qed

lemma contains_part: "contains s (a @ q @ b) \<Longrightarrow> contains s q"
  by (metis append.assoc contains_iff)

lemma lacks_predicate:
  assumes "CHR '':'' \<notin> set a" and "CHR '':'' \<notin> set s" and "take 1 s \<noteq> [d]"
  shows "\<not> contains (a @ CHR '':'' # s) (''aff4'' @ CHR '':'' # d # p)"
  using no_colon_letter [OF assms] contains_part [of _ "''aff4''" "CHR '':'' # [d]" p] by auto

lemma iri_word_lacks:
  assumes "segment_ok seg" and "d \<noteq> CHR ''/''"
  shows "\<not> contains (''<'' @ file_iri seg @ ''>'') (''aff4'' @ CHR '':'' # d # p)"
proof -
  obtain r where r: "''<'' @ file_iri seg @ ''>'' = ''<aff4'' @ CHR '':'' # ''//issen-test-logical-volume/'' @ seg @ ''>''"
    by (simp add: file_iri_def logical_volume_def)
  show ?thesis
    unfolding r by (rule lacks_predicate) (use segment_ok_chars(4) [OF assms(1)] assms(2) in simp_all)
qed

lemma name_word_lacks:
  assumes "segment_ok seg" and "d \<noteq> CHR ''s''"
  shows "\<not> contains (name_word seg) (''aff4'' @ CHR '':'' # d # p)"
proof -
  have r: "name_word seg = (CHR 0x22 # ''./'' @ seg @ CHR 0x22 # ''^^xsd'') @ CHR '':'' # ''string''"
    by (simp add: name_word_def)
  show ?thesis
    unfolding r by (rule lacks_predicate) (use segment_ok_chars(4) [OF assms(1)] assms(2) in simp_all)
qed

lemma file_block_iri: "segment_ok seg \<Longrightarrow>
    first_iri (join_with '' '' (file_words seg n h)) = Some (file_iri seg)"
proof -
  assume ok: "segment_ok seg"
  obtain t where t: "join_with '' '' (file_words seg n h) = CHR ''<'' # file_iri seg @ ''>'' @ t"
    by (simp add: file_words_defs)
  have "CHR ''>'' \<notin> set (file_iri seg)"
    using segment_ok_chars(2) [OF ok] by (simp add: file_iri_def logical_volume_def)
  then have "find_str (file_iri seg @ ''>'' @ t) ''>'' = Some (length (file_iri seg))"
    by (intro find_str_fresh) simp_all
  then show ?thesis
    unfolding t first_iri_def by (simp add: Let_def subrange_def)
qed

lemma file_block_name:
  assumes "segment_ok seg"
  shows "pred_quoted (join_with '' '' (file_words seg n h)) ''aff4:originalFileName'' =
    Some (''./'' @ seg)"
proof -
  have "\<not> contains (''<'' @ file_iri seg @ ''>'') ''aff4:originalFileName''"
    using iri_word_lacks [OF assms, of "CHR ''o''" "''riginalFileName''"] by simp
  moreover have "list_all (\<lambda>w. \<not> contains w ''aff4:originalFileName'') [''rdf:type'', ''aff4:FileImage'', '','',
      ''aff4:Image'', '','', ''aff4:zip_segment'', [], []]"
    by code_simp
  ultimately have "list_all (\<lambda>w. \<not> contains w ''aff4:originalFileName'') (head_words seg)"
    by (simp only: head_words_def list.pred_inject simp_thms)
  moreover have "CHR 0x22 \<notin> set (''./'' @ seg)" using segment_ok_chars(3) [OF assms] by simp
  ultimately show ?thesis
    unfolding file_words_def name_word_def by (intro extract_pred_quoted_words) simp_all
qed

lemma file_block_written:
  assumes "segment_ok seg"
  shows "pred_quoted (join_with '' '' (file_words seg n h)) ''aff4:lastWritten'' =
    Some written_literal"
proof -
  let ?p = "''aff4:lastWritten''"
  have "\<not> contains (''<'' @ file_iri seg @ ''>'') ?p" "\<not> contains (name_word seg) ?p"
    using iri_word_lacks [OF assms, of "CHR ''l''" "''astWritten''"]
      name_word_lacks [OF assms, of "CHR ''l''" "''astWritten''"] by simp_all
  moreover have "\<not> contains (dec n) ?p"
    by (rule dec_not_contains [of "CHR ''a''"]) (simp, code_simp)
  moreover have "list_all (\<lambda>w. \<not> contains w ?p) [''rdf:type'', ''aff4:FileImage'', '','',
      ''aff4:Image'', '','', ''aff4:zip_segment'', [], [], ''aff4:originalFileName'', [], [],
      ''aff4:size'', [], []]"
    by code_simp
  ultimately have "list_all (\<lambda>w. \<not> contains w ?p)
      (head_words seg @ ''aff4:originalFileName'' # name_word seg # size_words n)"
    by (simp only: head_words_def size_words_def list.pred_inject list_all_append simp_thms)
  from extract_pred_quoted_words [OF _ _ _ this, of written_literal "''^^xsd:datetime''" "tail_words h"]
  show ?thesis
    by (simp add: file_words_def written_word_def) (simp add: written_literal_def)
qed

lemma file_block_tokens:
  assumes "segment_ok seg" and "list_all is_ascii_hexdigit h"
  shows "split_whitespace (join_with '' '' (file_words seg n h)) =
    [''<'' @ file_iri seg @ ''>'', ''rdf:type'', ''aff4:FileImage'', '','', ''aff4:Image'', '','',
     ''aff4:zip_segment'', ''aff4:originalFileName'', name_word seg, ''aff4:size'', dec n,
     ''aff4:lastWritten'', written_word] @ ''aff4:hash'' #
    [hash_word h, ''aff4:stored'', ''<'' @ logical_volume @ ''>'']"
  unfolding split_whitespace_words [OF file_words_tokens [OF assms]]
  by (simp add: file_words_defs name_word_def written_word_def hash_word_def)

lemma file_block_size:
  assumes "segment_ok seg" and "list_all is_ascii_hexdigit h" and "n < 2 ^ 64"
  shows "extract_pred_u64 (join_with '' '' (file_words seg n h)) ''aff4:size'' = Inr (word_of_nat n)"
proof -
  have "\<not> list_all is_ascii_digit ''aff4:size''" by code_simp
  note neq = this [THEN dec_eq_iff]
  show ?thesis
    using assms(3)
    by (simp add: extract_pred_u64_def file_block_tokens [OF assms(1,2)] windows2_def neq Let_def
        name_word_def written_word_def hash_word_def parse_u64_dec)
qed

lemma file_block_hashes:
  assumes "segment_ok seg" and "list_all is_ascii_hexdigit h" and "h \<noteq> []"
  shows "declared_hashes (join_with '' '' (file_words seg n h)) =
    [\<lparr>algorithm = ''MD5'', hex = to_ascii_lowercase h\<rparr>]"
proof -
  have d: "dec n \<noteq> ''aff4:hash''" by (rule dec_neq [of "CHR ''a''"]) (simp, code_simp)
  have m: "is_ascii_alphanumeric (last ''MD5'')" by code_simp
  have t: "parse_hash_term (hash_word h) = Some \<lparr>algorithm = ''MD5'', hex = to_ascii_lowercase h\<rparr>"
    using parse_hash_term_render [OF assms(3,2) _ m, of "[]"] by (simp add: hash_word_def)
  have s: "parse_hash_term ''aff4:stored'' = None" by code_simp
  show ?thesis
    unfolding declared_hashes_def file_block_tokens [OF assms(1,2)]
    by (subst hashes_from_single)
      (use d in \<open>simp_all add: name_word_def written_word_def hash_word_def\<close>,
        simp add: value_run_def value_token_def t [unfolded hash_word_def] s List.map_filter_simps)
qed

definition file_meta :: "string \<Rightarrow> nat \<Rightarrow> string \<Rightarrow> logical_file_meta" where
  "file_meta seg n h =
     \<lparr>lf_arn = file_iri seg, lf_original_file_name = ''./'' @ seg, lf_size = word_of_nat n,
      lf_hashes = [\<lparr>algorithm = ''MD5'', hex = to_ascii_lowercase h\<rparr>],
      lf_last_written = Some written_literal\<rparr>"

lemma ascii_logical_turtle:
  assumes "segment_ok seg" and "list_all is_ascii_hexdigit h"
  shows "ascii_text (logical_turtle seg n h)"
proof -
  have "list_all ascii_text [turtle_prefixes, ''@prefix xsd: <http://www.w3.org/2001/XMLSchema#> .'',
      line_feed, ''<'', logical_volume, ''/'',
      ''> rdf:type aff4:FileImage , aff4:Image , aff4:zip_segment ; '', ''aff4:originalFileName '',
      [CHR 0x22], ''./'', ''^^xsd:string ; '', ''aff4:size '', '' ; '', ''aff4:lastWritten '',
      ''2018-09-17T13:42:20+10:00'', ''^^xsd:datetime ; '', ''aff4:hash '', ''^^aff4:MD5 ; '',
      ''aff4:stored <'', ''> .'']"
    by code_simp
  then show ?thesis
    using segment_ok_chars(7) [OF assms(1)] hex_chars(3) [OF assms(2)]
    by (simp only: logical_turtle_def ascii_text_append ascii_text_dec list.pred_inject simp_thms)
qed

lemma parse_logical_turtle:
  assumes "segment_ok seg" and "list_all is_ascii_hexdigit h" and "h \<noteq> []" and "n < 2 ^ 64"
  shows "parse_logical_files (logical_turtle seg n h) = Inr [file_meta seg n h]"
proof -
  let ?b = "join_with '' '' (file_words seg n h)"
  have "?b = (''<'' @ file_iri seg @ ''> rdf:type '') @ ''aff4:FileImage'' @
      join_with '' '' ([] # drop 3 (file_words seg n h))"
    by (simp add: file_words_defs)
  then have "contains ?b ''aff4:FileImage''" by (metis contains_iff)
  moreover have "list_all (\<lambda>b. \<not> contains b ''aff4:FileImage'') [prefix_1, prefix_2, prefix_3, []]"
    by code_simp
  ultimately have "filter (\<lambda>b. contains b ''aff4:FileImage'') (turtle_blocks (logical_turtle seg n h)) = [?b]"
    unfolding logical_turtle_blocks [OF assms(1,2)]
    by (simp only: list.pred_inject filter.simps simp_thms if_True if_False)
  moreover have "?b \<in> set (turtle_blocks (logical_turtle seg n h))"
    by (simp add: logical_turtle_blocks [OF assms(1,2)])
  then have "str_ok ?b" by (rule ascii_block_ok [OF ascii_logical_turtle [OF assms(1,2)]])
  then have "parse_file_image ?b = Inr (file_meta seg n h)"
    by (simp add: parse_file_image_def extract_iri_eq extract_pred_quoted_eq file_block_iri assms(1) file_block_name file_block_written
        file_block_size [OF assms(1,2,4)] file_block_hashes [OF assms(1-3)] file_meta_def)
  ultimately show ?thesis by (simp add: parse_logical_files_def)
qed

section \<open>The container\<close>

lemma logical_fixture_entries:
  "logical_entries seg content h =
     [(''information.turtle'', bytes_of_string (logical_turtle seg (length content) h)),
      (seg, content),
      (''version.txt'',
       bytes_of_string (''major=1'' @ line_feed @ ''minor=1'' @ line_feed @ ''tool=issen-test'' @ line_feed))]"
  by (simp add: logical_entries_def logical_turtle_def)

lemma logical_fixture_turtle:
  assumes "segment_ok seg" and "list_all is_ascii_hexdigit h"
  shows "information_turtle (archive_of (logical_entries seg content h)) =
    Inr (logical_turtle seg (length content) h)"
proof (rule read_text_entry)
  show "map_of (logical_entries seg content h) ''information.turtle'' =
      Some (bytes_of_string (logical_turtle seg (length content) h))"
    by (simp add: logical_fixture_entries)
qed (rule ascii_logical_turtle [OF assms])

lemma file_segment:
  assumes "segment_ok seg"
  shows "matching_segment [''information.turtle'', seg, ''version.txt''] (file_iri seg) = Some seg"
proof -
  have strip: "strip_prefix (file_iri seg) ''aff4://'' = Some (''issen-test-logical-volume'' @ ''/'' @ seg)"
    by (simp add: file_iri_def logical_volume_def)
  have "find_str (''issen-test-logical-volume'' @ ''/'' @ seg) ''/'' =
      Some (length ''issen-test-logical-volume'')"
    by (rule find_str_fresh) simp_all
  then have tail: "path_tail (file_iri seg) = CHR ''/'' # seg"
    by (simp add: path_tail_def Let_def strip del: find_str.simps)
  have "trim_start_matches (\<lambda>c. c = CHR ''/'') (CHR ''/'' # seg) = seg"
    using assms by (cases seg) (auto simp: segment_ok_def trim_start_matches_def)
  with matching_segment_stripped [of "file_iri seg" "[''information.turtle'', seg, ''version.txt'']"]
  show ?thesis by (simp add: tail)
qed

definition file_entry :: "string \<Rightarrow> nat \<Rightarrow> string \<Rightarrow> logical_entry" where
  "file_entry seg n h =
     \<lparr>le_segment = seg, le_original_file_name = ''./'' @ seg, le_size = word_of_nat n,
      le_hashes = [\<lparr>algorithm = ''MD5'', hex = to_ascii_lowercase h\<rparr>],
      le_last_written = Some written_literal\<rparr>"

definition file_container :: "string \<Rightarrow> bytes \<Rightarrow> string \<Rightarrow> logical_container" where
  "file_container seg content h =
     \<lparr>lc_archive = archive_of (logical_entries seg content h),
      lc_files = [file_entry seg (length content) h]\<rparr>"

lemma logical_fixture_opens:
  assumes "zo data = Inr (archive_of (logical_entries seg content h))"
    and "segment_ok seg" and "list_all is_ascii_hexdigit h" and "h \<noteq> []" and "length content < 2 ^ 64"
  shows "logical_open_reader zo data = Inr (file_container seg content h)"
proof -
  have "za_file_names (archive_of (logical_entries seg content h)) =
      [''information.turtle'', seg, ''version.txt'']"
    by (simp add: archive_of_def logical_fixture_entries)
  then show ?thesis
    using file_segment [OF assms(2)]
    by (simp add: logical_open_reader_def zip_archive_new_def assms(1)
        logical_fixture_turtle [OF assms(2,3)] parse_logical_turtle [OF assms(2-5)] resolve_file_def
        file_meta_def file_container_def file_entry_def)
qed

lemma logical_fixture_file:
  assumes "segment_ok seg"
  shows "read_file (file_container seg content h) (file_entry seg n h) = Inr content"
proof -
  have "map_of (logical_entries seg content h) seg = Some content"
    using assms by (simp add: logical_fixture_entries segment_ok_def)
  then show ?thesis
    by (simp add: read_file_def file_container_def file_entry_def by_name_def archive_of_def
        read_to_end_def)
qed

text \<open>
  C34. The logical fixture reads back: for every file name of graphic characters that the turtle
  can quote and every content, \<open>test_aff4_logical\<close> opens as a container of exactly that file, with
  its name, size and digest as declared, and reading the file gives the content.
\<close>

theorem logical_fixture_reads_back:
  assumes "zo (test_aff4_logical zip_pack seg content md5_hex) =
      Inr (archive_of (logical_entries seg content md5_hex))"
    and "segment_ok seg" and "list_all is_ascii_hexdigit md5_hex" and "md5_hex \<noteq> []"
    and "length content < 2 ^ 64"
  shows "\<exists>c e. logical_open_reader zo (test_aff4_logical zip_pack seg content md5_hex) = Inr c \<and>
    files c = [e] \<and> le_segment e = seg \<and> le_original_file_name e = ''./'' @ seg \<and>
    unat (le_size e) = length content \<and>
    le_hashes e = [\<lparr>algorithm = ''MD5'', hex = to_ascii_lowercase md5_hex\<rparr>] \<and>
    read_file c e = Inr content"
  using logical_fixture_opens [of zo "test_aff4_logical zip_pack seg content md5_hex", OF assms] logical_fixture_file [OF assms(2)] assms(5)
  by (intro exI [of _ "file_container seg content md5_hex"] exI [of _ "file_entry seg (length content) md5_hex"])
    (simp add: files_def file_container_def file_entry_def)

lemma logical_fixture_reads_back_witness:
  "\<exists>c e. logical_open_reader (\<lambda>_. Inr (archive_of (logical_entries ''dir/dream.txt'' [73, 32] ''0f'')))
      (test_aff4_logical (\<lambda>_. []) ''dir/dream.txt'' [73, 32] ''0f'') = Inr c \<and>
    files c = [e] \<and> read_file c e = Inr [73, 32]"
proof -
  have "segment_ok ''dir/dream.txt''" "list_all is_ascii_hexdigit ''0f''" by code_simp+
  from logical_fixture_reads_back [OF _ this, of "\<lambda>_. Inr (archive_of (logical_entries ''dir/dream.txt'' [73, 32] ''0f''))"
      "\<lambda>_. []" "[73, 32]"]
  show ?thesis by auto
qed

end
