(* ===== verification/Turtle_Writer.thy ===== *)
theory Turtle_Writer
  imports Logical_Fixture
begin

text \<open>
  A reference writer of the metadata of a disk image, with the prefixes the fixture builders use:
  \<open>render_turtle\<close> writes a \<open>stream_meta\<close> as the statements of its image stream and, if it has one,
  its map. The parser gives the metadata back, for every stream name, geometry, codec, list of
  hashes and map.
\<close>

section \<open>Statements as words\<close>

text \<open>A statement is a list of words, written with blanks between them; \<open>;\<close> is a word.\<close>

definition turtle_word :: "string \<Rightarrow> bool" where
  "turtle_word w \<longleftrightarrow> w = '';'' \<or> token w \<and> CHR '';'' \<notin> set w \<and> w \<noteq> ''.''"

definition spread :: "string list \<Rightarrow> string list" where
  "spread ws = concat (map (\<lambda>w. if w = '';'' then [[], []] else [w]) ws)"

lemma spread_Nil [simp]: "spread [] = []"
  by (simp add: spread_def)

lemma spread_Cons: "spread (w # ws) = (if w = '';'' then [[], []] else [w]) @ spread ws"
  by (simp add: spread_def)

lemma spread_eq_Nil [simp]: "spread ws = [] \<longleftrightarrow> ws = []"
  by (cases ws) (simp_all add: spread_Cons)

lemma set_spread: "x \<in> set (spread ws) \<Longrightarrow> x = [] \<or> x \<in> set ws \<and> x \<noteq> '';''"
  by (auto simp: spread_def split: if_splits)

lemma filter_spread:
  "list_all turtle_word ws \<Longrightarrow> filter (\<lambda>w. w \<noteq> []) (spread ws) = filter (\<lambda>w. w \<noteq> '';'') ws"
  by (induction ws) (auto simp: spread_Cons turtle_word_def token_def)

lemma join_with_append:
  "xs \<noteq> [] \<Longrightarrow> ys \<noteq> [] \<Longrightarrow> join_with p (xs @ ys) = join_with p xs @ p @ join_with p ys"
  by (induction p xs rule: join_with.induct) (simp_all add: join_with_Cons)

lemma token_chars:
  assumes "token w"
  shows "CHR '' '' \<notin> set w" "set w \<inter> {CHR 0x0A, CHR 0x0D, CHR 0x09} = {}"
  using assms by (auto simp: token_def list_all_iff graphic_def)

lemma normalize_word:
  assumes "turtle_word w"
  shows "normalize_turtle w = join_with '' '' (spread [w])"
proof (cases "w = '';''")
  case True
  then show ?thesis by (simp add: spread_def normalize_turtle_def)
next
  case False
  then have "set w \<inter> {CHR 0x0A, CHR 0x0D, CHR 0x09, CHR '';''} = {}"
    using assms token_chars(2) [of w] by (auto simp: turtle_word_def)
  with False show ?thesis by (simp add: spread_def normalize_id)
qed

lemma normalize_words:
  "list_all turtle_word ws \<Longrightarrow> normalize_turtle (join_with '' '' ws) = join_with '' '' (spread ws)"
proof (induction "'' ''" ws rule: join_with.induct)
  case 1
  then show ?case by (simp add: normalize_turtle_def)
next
  case (2 x)
  then show ?case by (simp add: normalize_word)
next
  case (3 x y ys)
  have "normalize_turtle (CHR '' '' # t) = CHR '' '' # normalize_turtle t" for t
    by (simp add: normalize_turtle_def)
  moreover have "spread (x # y # ys) = spread [x] @ spread (y # ys)" by (simp add: spread_Cons)
  moreover have "join_with '' '' (spread [x] @ spread (y # ys)) =
      join_with '' '' (spread [x]) @ '' '' @ join_with '' '' (spread (y # ys))"
    by (rule join_with_append) simp_all
  ultimately show ?case using 3 by (simp add: normalize_append normalize_word)
qed

text \<open>A block is the text of a statement after normalisation.\<close>

definition block_of :: "string list \<Rightarrow> string" where
  "block_of ws = join_with '' '' (spread ws)"

lemma block_tokens:
  assumes "list_all turtle_word ws"
  shows "split_whitespace (block_of ws) = filter (\<lambda>w. w \<noteq> '';'') ws"
proof -
  have "list_all (\<lambda>w. w = [] \<or> token w) (spread ws)"
    using assms set_spread [of _ ws] by (fastforce simp: list_all_iff turtle_word_def)
  from split_whitespace_words [OF this] show ?thesis
    using filter_spread [OF assms] by (simp add: block_of_def)
qed

lemma contains_word: "w \<in> set ws \<Longrightarrow> contains w m \<Longrightarrow> contains (join_with p ws) m"
  by (induction p ws rule: join_with.induct) (auto simp: contains_appendI1 contains_appendI2)

lemma block_contains:
  assumes "CHR '' '' \<notin> set m" and "CHR '';'' \<notin> set m" and "m \<noteq> []"
  shows "contains (block_of ws) m \<longleftrightarrow> (\<exists>w \<in> set ws. contains w m)"
proof
  assume "contains (block_of ws) m"
  then obtain w where w: "w \<in> set (spread ws)" "contains w m"
    using contains_words assms unfolding block_of_def by blast
  then have "w \<noteq> []" using assms(3) by (auto simp: contains_iff)
  with w set_spread [OF w(1)] show "\<exists>w \<in> set ws. contains w m" by blast
next
  assume "\<exists>w \<in> set ws. contains w m"
  then obtain w where w: "w \<in> set ws" "contains w m" by blast
  have "w \<noteq> '';''"
  proof
    assume "w = '';''"
    with w(2) have "set m \<subseteq> {CHR '';''}" using contains_set by force
    with assms(2,3) show False by (cases m) auto
  qed
  with w(1) have "w \<in> set (spread ws)" by (auto simp: spread_def)
  then show "contains (block_of ws) m" unfolding block_of_def using w(2) by (rule contains_word)
qed

definition render :: "string list \<Rightarrow> string" where
  "render ws = join_with '' '' ws @ '' .'' @ line_feed"

lemma normalize_render:
  assumes "list_all turtle_word ws"
  shows "normalize_turtle (render ws) = block_of ws @ '' . ''"
proof -
  have "normalize_turtle ('' .'' @ line_feed) = '' . ''" by code_simp
  then show ?thesis by (simp add: render_def normalize_append normalize_words [OF assms] block_of_def)
qed

lemma split_block:
  assumes "list_all turtle_word ws" and "ws \<noteq> []"
  shows "split_str (block_of ws @ '' . '' @ t) '' . '' = block_of ws # split_str t '' . ''"
proof (rule split_str_piece)
  have "list_all (\<lambda>w. CHR '' '' \<notin> set w \<and> w \<noteq> ''.'') (spread ws)"
    using assms(1) set_spread [of _ ws] token_chars(1)
    by (fastforce simp: list_all_iff turtle_word_def)
  then show "find_str (block_of ws @ '' . '') '' . '' = Some (length (block_of ws))"
    unfolding block_of_def using assms(2) by (intro find_str_end_of_block) simp_all
qed simp

text \<open>The blocks of a document: the two prefix declarations, a block per statement, the empty rest.\<close>

lemma turtle_blocks_render:
  assumes "list_all (\<lambda>ws. ws \<noteq> [] \<and> list_all turtle_word ws) sts"
  shows "turtle_blocks (turtle_prefixes @ concat (map render sts)) =
    prefix_1 # prefix_2 # map block_of sts @ [[]]"
proof -
  have pre: "normalize_turtle turtle_prefixes = prefix_1 @ '' . '' @ prefix_2 @ '' . ''"
    by code_simp
  have p1: "find_str (prefix_1 @ '' . '') '' . '' = Some (length prefix_1)" by code_simp
  have p2: "find_str (prefix_2 @ '' . '') '' . '' = Some (length prefix_2)" by code_simp
  have "split_str (normalize_turtle (concat (map render sts))) '' . '' = map block_of sts @ [[]]"
    using assms
  proof (induction sts)
    case Nil
    then show ?case by (simp add: normalize_turtle_def split_str_None contains_def)
  next
    case (Cons ws sts)
    then show ?case by (simp add: normalize_append normalize_render split_block [simplified])
  qed
  then show ?thesis
    unfolding turtle_blocks_def normalize_append pre
    by (simp add: split_str_piece [OF p1, simplified] split_str_piece [OF p2, simplified])
qed

section \<open>The statements of an image\<close>

text \<open>
  Names are \<^verbatim>\<open>aff4://\<close> and a UUID. The values of the declared hashes are lower-case hexadecimal,
  their algorithms words over the letters of the names the standard uses.
\<close>

definition uuid_alphabet :: string where
  "uuid_alphabet = ''0123456789abcdef-''"

definition hash_alphabet :: string where
  "hash_alphabet = ''0123456789abcdefABCDEFHKLMShklms:^'' @ [CHR 0x22]"

definition uuid_ok :: "string \<Rightarrow> bool" where
  "uuid_ok u \<longleftrightarrow> u \<noteq> [] \<and> list_all (\<lambda>c. c \<in> set uuid_alphabet) u"

definition arn_ok :: "string \<Rightarrow> bool" where
  "arn_ok arn \<longleftrightarrow> starts_with arn ''aff4://'' \<and> uuid_ok (drop 7 arn)"

definition hash_ok :: "stored_hash \<Rightarrow> bool" where
  "hash_ok s \<longleftrightarrow> algorithm s \<noteq> [] \<and> is_ascii_alphanumeric (last (algorithm s)) \<and>
     list_all (\<lambda>c. c \<in> set hash_alphabet) (algorithm s) \<and>
     hex s \<noteq> [] \<and> list_all (\<lambda>c. c \<in> set ''0123456789abcdef'') (hex s)"

definition meta_ok :: "stream_meta \<Rightarrow> bool" where
  "meta_ok m \<longleftrightarrow> arn_ok (sm_stream_arn m) \<and> 0 < sm_chunk_size m \<and> 0 < sm_chunks_per_segment m \<and>
     list_all hash_ok (sm_image_hashes m) \<and>
     (case sm_map_meta m of
        None \<Rightarrow> sm_virtual_size m = sm_image_stream_size m
      | Some mm \<Rightarrow> arn_ok (mm_map_arn mm) \<and> mm_image_stream_arn mm = sm_stream_arn m)"

definition iri_word :: "string \<Rightarrow> string" where
  "iri_word arn = ''<'' @ arn @ ''>''"

fun compressor_word :: "compression \<Rightarrow> string" where
  "compressor_word Null = ''aff4:NullCompressor''"
| "compressor_word Deflate = ''<https://www.ietf.org/rfc/rfc1950.txt>''"
| "compressor_word Snappy = ''<http://code.google.com/p/snappy/>''"
| "compressor_word Lz4 = ''<https://github.com/lz4/lz4>''"

definition hash_literal :: "stored_hash \<Rightarrow> string" where
  "hash_literal s = CHR 0x22 # hex s @ CHR 0x22 # ''^^aff4:'' @ algorithm s"

fun value_words :: "stored_hash list \<Rightarrow> string list" where
  "value_words [] = []"
| "value_words [s] = [hash_literal s]"
| "value_words (s # s' # ss) = hash_literal s # '','' # value_words (s' # ss)"

definition stream_statement :: "stream_meta \<Rightarrow> string list" where
  "stream_statement m =
     [iri_word (sm_stream_arn m), ''rdf:type'', ''aff4:ImageStream'',
      '';'', ''aff4:size'', dec (unat (sm_image_stream_size m)),
      '';'', ''aff4:chunkSize'', dec (unat (sm_chunk_size m)),
      '';'', ''aff4:chunksInSegment'', dec (unat (sm_chunks_per_segment m)),
      '';'', ''aff4:compressionMethod'', compressor_word (sm_compression m)] @
     (if sm_image_hashes m = [] then []
      else '';'' # ''aff4:hash'' # value_words (sm_image_hashes m))"

definition map_statement :: "u64 \<Rightarrow> map_meta \<Rightarrow> string list" where
  "map_statement vs mm =
     [iri_word (mm_map_arn mm), ''rdf:type'', ''aff4:Map'', '';'', ''aff4:size'', dec (unat vs),
      '';'', ''aff4:dependentStream'', iri_word (mm_image_stream_arn mm),
      '';'', ''aff4:mapGapDefaultStream'',
      (if mm_gap_is_symbolic_ff mm then ''aff4:SymbolicStreamFF'' else ''aff4:Zero'')]"

definition statements :: "stream_meta \<Rightarrow> string list list" where
  "statements m = stream_statement m #
     (case sm_map_meta m of None \<Rightarrow> [] | Some mm \<Rightarrow> [map_statement (sm_virtual_size m) mm])"

definition render_turtle :: "stream_meta \<Rightarrow> string" where
  "render_turtle m = turtle_prefixes @ concat (map render (statements m))"

section \<open>The words are words\<close>

lemma arn_okD:
  assumes "arn_ok arn"
  obtains u where "arn = ''aff4://'' @ u" and "uuid_ok u" and "drop 7 arn = u"
proof -
  obtain u where u: "arn = ''aff4://'' @ u" using assms by (auto simp: arn_ok_def starts_with_iff)
  with assms have "uuid_ok u" by (simp add: arn_ok_def)
  with u show thesis by (intro that) simp_all
qed

lemma set_iri_word: "arn_ok arn \<Longrightarrow> set (iri_word arn) \<subseteq> set (''<>aff4:/'' @ uuid_alphabet)"
  by (erule arn_okD) (auto simp: iri_word_def uuid_ok_def list_all_iff)

lemma set_hash_literal: "hash_ok s \<Longrightarrow> set (hash_literal s) \<subseteq> set hash_alphabet"
proof -
  assume s: "hash_ok s"
  have "set ''0123456789abcdef'' \<subseteq> set hash_alphabet" "set (''^^aff4:'' @ [CHR 0x22]) \<subseteq> set hash_alphabet"
    by code_simp+
  moreover have "set (hex s) \<subseteq> set ''0123456789abcdef''" "set (algorithm s) \<subseteq> set hash_alphabet"
    using s unfolding hash_ok_def list_all_iff by blast+
  moreover have "set (hash_literal s) =
      set (hex s) \<union> set (''^^aff4:'' @ [CHR 0x22]) \<union> set (algorithm s)"
    by (simp add: hash_literal_def Un_ac insert_commute)
  ultimately show ?thesis by blast
qed

lemma turtle_word_over:
  assumes "set w \<subseteq> set a" and "w \<noteq> []" and "list_all (\<lambda>c. graphic c \<and> c \<noteq> CHR '';'' \<and> c \<noteq> CHR ''.'') a"
  shows "turtle_word w"
proof -
  have "graphic c \<and> c \<noteq> CHR '';'' \<and> c \<noteq> CHR ''.''" if "c \<in> set w" for c
    using assms(1,3) that by (auto simp: list_all_iff)
  with assms(2) show ?thesis by (auto simp: turtle_word_def token_def list_all_iff)
qed

lemma turtle_word_iri [simp]: "arn_ok arn \<Longrightarrow> turtle_word (iri_word arn)"
proof (rule turtle_word_over [OF set_iri_word])
  show "list_all (\<lambda>c. graphic c \<and> c \<noteq> CHR '';'' \<and> c \<noteq> CHR ''.'') (''<>aff4:/'' @ uuid_alphabet)"
    by code_simp
qed (simp_all add: iri_word_def)

lemma turtle_word_hash [simp]: "hash_ok s \<Longrightarrow> turtle_word (hash_literal s)"
proof (rule turtle_word_over [OF set_hash_literal])
  show "list_all (\<lambda>c. graphic c \<and> c \<noteq> CHR '';'' \<and> c \<noteq> CHR ''.'') hash_alphabet"
    by code_simp
qed (simp_all add: hash_literal_def)

lemma turtle_word_dec [simp]: "turtle_word (dec n)"
proof -
  have "\<not> is_ascii_digit (CHR '';'')" "\<not> is_ascii_digit (CHR ''.'')" by code_simp+
  then have "CHR '';'' \<notin> set (dec n)" "CHR ''.'' \<notin> set (dec n)" by (simp_all add: dec_no_char)
  then show ?thesis by (auto simp: turtle_word_def)
qed

lemma turtle_words_values: "list_all hash_ok ss \<Longrightarrow> list_all turtle_word (value_words ss)"
proof -
  have "turtle_word '',''" by code_simp
  then show "list_all hash_ok ss \<Longrightarrow> list_all turtle_word (value_words ss)"
    by (induction ss rule: value_words.induct) simp_all
qed

lemma turtle_word_compressor [simp]: "turtle_word (compressor_word c)"
  by (cases c; simp only: compressor_word.simps; code_simp)

lemma statement_words:
  "list_all turtle_word [''rdf:type'', ''aff4:ImageStream'', '';'', ''aff4:size'', ''aff4:chunkSize'',
     ''aff4:chunksInSegment'', ''aff4:compressionMethod'', ''aff4:hash'', ''aff4:Map'',
     ''aff4:dependentStream'', ''aff4:mapGapDefaultStream'', ''aff4:SymbolicStreamFF'', ''aff4:Zero'']"
  by code_simp

lemma turtle_words_stream: "meta_ok m \<Longrightarrow> list_all turtle_word (stream_statement m)"
  using statement_words turtle_words_values [of "sm_image_hashes m"]
  by (simp add: stream_statement_def meta_ok_def)

lemma turtle_words_map:
  "arn_ok (mm_map_arn mm) \<Longrightarrow> arn_ok (mm_image_stream_arn mm) \<Longrightarrow>
   list_all turtle_word (map_statement vs mm)"
  using statement_words by (simp add: map_statement_def)

lemma stream_statement_nonempty: "stream_statement m \<noteq> []"
  by (simp add: stream_statement_def)

lemma map_statement_nonempty: "map_statement vs mm \<noteq> []"
  by (simp add: map_statement_def)

lemma render_turtle_blocks:
  assumes "meta_ok m"
  shows "turtle_blocks (render_turtle m) = prefix_1 # prefix_2 # map block_of (statements m) @ [[]]"
proof -
  have "list_all (\<lambda>ws. ws \<noteq> [] \<and> list_all turtle_word ws) (statements m)"
    using turtle_words_stream [OF assms] turtle_words_map [of _ "sm_virtual_size m"] assms
    by (cases "sm_map_meta m")
      (simp_all add: statements_def meta_ok_def stream_statement_nonempty map_statement_nonempty)
  then show ?thesis unfolding render_turtle_def by (rule turtle_blocks_render)
qed

section \<open>What the parser looks for\<close>

text \<open>
  The marker texts of the parser: none is in a name, a number or a hash, for each has a character
  that those cannot have.
\<close>

definition marker_texts :: "string list" where
  "marker_texts =
     [''aff4:EncryptedStream'', ''aff4:Map'', ''ImageStream'', ''SymbolicStreamFF'', ''snappy'',
      ''google.com/p/snappy'', ''rfc1950'', ''DeflateCompressor'', ''lz4'', ''github.com/lz4'']"

lemma lacks_over: "set w \<subseteq> A \<Longrightarrow> \<not> set m \<subseteq> A \<Longrightarrow> \<not> contains w m"
  using contains_set by blast

lemma marker_texts_foreign:
  assumes "m \<in> set marker_texts"
  shows "\<not> set m \<subseteq> set (''<>aff4:/'' @ uuid_alphabet)" and "\<not> set m \<subseteq> set hash_alphabet"
    and "\<not> list_all is_ascii_digit m"
    and "CHR '' '' \<notin> set m" and "CHR '';'' \<notin> set m" and "m \<noteq> []"
proof -
  have "list_all (\<lambda>m. list_ex (\<lambda>c. c \<notin> set (''<>aff4:/'' @ uuid_alphabet)) m \<and>
      list_ex (\<lambda>c. c \<notin> set hash_alphabet) m \<and> list_ex (\<lambda>c. \<not> is_ascii_digit c) m \<and>
      CHR '' '' \<notin> set m \<and> CHR '';'' \<notin> set m \<and> m \<noteq> []) marker_texts"
    by code_simp
  with assms show "\<not> set m \<subseteq> set (''<>aff4:/'' @ uuid_alphabet)" "\<not> set m \<subseteq> set hash_alphabet"
    "\<not> list_all is_ascii_digit m" "CHR '' '' \<notin> set m" "CHR '';'' \<notin> set m" "m \<noteq> []"
    unfolding list_all_iff list_ex_iff by blast+
qed

lemma iri_lacks: "arn_ok arn \<Longrightarrow> m \<in> set marker_texts \<Longrightarrow> \<not> contains (iri_word arn) m"
  by (rule lacks_over [OF set_iri_word marker_texts_foreign(1)])

lemma hash_lacks: "hash_ok s \<Longrightarrow> m \<in> set marker_texts \<Longrightarrow> \<not> contains (hash_literal s) m"
  by (rule lacks_over [OF set_hash_literal marker_texts_foreign(2)])

lemma dec_lacks: "m \<in> set marker_texts \<Longrightarrow> \<not> contains (dec n) m"
  using marker_texts_foreign(3) dec_not_contains by (fastforce simp: list_all_iff)

lemma set_value_words: "w \<in> set (value_words ss) \<Longrightarrow> w = '','' \<or> (\<exists>s \<in> set ss. w = hash_literal s)"
  by (induction ss rule: value_words.induct) auto

lemma value_lacks:
  assumes "list_all hash_ok ss" and "m \<in> set marker_texts" and "w \<in> set (value_words ss)"
  shows "\<not> contains w m"
proof (cases "w = '',''")
  case True
  have "list_all (\<lambda>m. \<not> contains '','' m) marker_texts" by code_simp
  with True assms(2) show ?thesis by (simp add: list_all_iff)
next
  case False
  then show ?thesis using set_value_words [OF assms(3)] assms(1,2) hash_lacks by (auto simp: list_all_iff)
qed

text \<open>Which of the marker texts a statement has.\<close>

lemma stream_block_markers:
  assumes ok: "meta_ok m" and mk: "mk \<in> set marker_texts"
  shows "contains (block_of (stream_statement m)) mk \<longleftrightarrow>
    mk = ''ImageStream'' \<or> contains (compressor_word (sm_compression m)) mk"
proof -
  have fixed: "list_all (\<lambda>mk. list_all (\<lambda>w. \<not> contains w mk)
      [''rdf:type'', '';'', ''aff4:size'', ''aff4:chunkSize'', ''aff4:chunksInSegment'',
       ''aff4:compressionMethod'', ''aff4:hash''] \<and>
      (contains ''aff4:ImageStream'' mk \<longleftrightarrow> mk = ''ImageStream'')) marker_texts"
    by code_simp
  have "\<not> contains w mk" if "w \<in> set (value_words (sm_image_hashes m))" for w
    using value_lacks [OF _ mk that] ok by (simp add: meta_ok_def)
  moreover have "\<not> contains (iri_word (sm_stream_arn m)) mk"
    using iri_lacks mk ok by (simp add: meta_ok_def)
  ultimately show ?thesis
    using fixed mk dec_lacks [OF mk]
    by (auto simp: block_contains [OF marker_texts_foreign(4-6) [OF mk]] stream_statement_def list_all_iff)
qed

lemma map_block_markers:
  assumes ok: "arn_ok (mm_map_arn mm)" "arn_ok (mm_image_stream_arn mm)" and mk: "mk \<in> set marker_texts"
  shows "contains (block_of (map_statement vs mm)) mk \<longleftrightarrow>
    mk = ''aff4:Map'' \<or> mm_gap_is_symbolic_ff mm \<and> mk = ''SymbolicStreamFF''"
proof -
  have fixed: "list_all (\<lambda>mk. list_all (\<lambda>w. \<not> contains w mk)
      [''rdf:type'', '';'', ''aff4:size'', ''aff4:dependentStream'', ''aff4:mapGapDefaultStream'',
       ''aff4:Zero''] \<and>
      (contains ''aff4:Map'' mk \<longleftrightarrow> mk = ''aff4:Map'') \<and>
      (contains ''aff4:SymbolicStreamFF'' mk \<longleftrightarrow> mk = ''SymbolicStreamFF'')) marker_texts"
    by code_simp
  then show ?thesis
    using mk dec_lacks [OF mk] iri_lacks [OF _ mk] ok
    by (auto simp: block_contains [OF marker_texts_foreign(4-6) [OF mk]] map_statement_def list_all_iff)
qed

lemma detect_compression_stream:
  assumes "meta_ok m"
  shows "detect_compression (block_of (stream_statement m)) = sm_compression m"
proof -
  have "list_all (\<lambda>c. \<not> contains (compressor_word c) ''ImageStream'' \<and>
      detect_compression (compressor_word c) = c) [Null, Deflate, Snappy, Lz4]"
    by code_simp
  then have "detect_compression (compressor_word (sm_compression m)) = sm_compression m"
    by (cases "sm_compression m") simp_all
  moreover have "list_all (\<lambda>mk. mk \<in> set marker_texts \<and> mk \<noteq> ''ImageStream'')
      [''snappy'', ''google.com/p/snappy'', ''rfc1950'', ''DeflateCompressor'', ''lz4'', ''github.com/lz4'']"
    by code_simp
  then have "list_all (\<lambda>mk. contains (block_of (stream_statement m)) mk =
        contains (compressor_word (sm_compression m)) mk)
      [''snappy'', ''google.com/p/snappy'', ''rfc1950'', ''DeflateCompressor'', ''lz4'', ''github.com/lz4'']"
    unfolding list_all_iff using stream_block_markers [OF assms] by blast
  then have "detect_compression (block_of (stream_statement m)) =
      detect_compression (compressor_word (sm_compression m))"
    by (simp only: list.pred_inject detect_compression_def)
  ultimately show ?thesis by simp
qed

section \<open>Reading the statements back\<close>

definition stream_tokens :: "stream_meta \<Rightarrow> string list" where
  "stream_tokens m =
     [iri_word (sm_stream_arn m), ''rdf:type'', ''aff4:ImageStream'',
      ''aff4:size'', dec (unat (sm_image_stream_size m)),
      ''aff4:chunkSize'', dec (unat (sm_chunk_size m)),
      ''aff4:chunksInSegment'', dec (unat (sm_chunks_per_segment m)),
      ''aff4:compressionMethod'', compressor_word (sm_compression m)] @
     (if sm_image_hashes m = [] then [] else ''aff4:hash'' # value_words (sm_image_hashes m))"

lemma filter_value_words: "filter (\<lambda>w. w \<noteq> '';'') (value_words ss) = value_words ss"
  by (rule filter_True) (auto simp: hash_literal_def dest!: set_value_words)

lemma dec_not_semicolon: "dec n \<noteq> '';''"
  by (rule dec_neq [of "CHR '';''"]) (simp, code_simp)

lemma compressor_not_semicolon: "compressor_word c \<noteq> '';''"
  by (cases c) simp_all

lemma stream_block_tokens_of:
  assumes "meta_ok m"
  shows "split_whitespace (block_of (stream_statement m)) = stream_tokens m"
  unfolding block_tokens [OF turtle_words_stream [OF assms]]
  by (simp add: stream_statement_def stream_tokens_def filter_value_words dec_not_semicolon
      compressor_not_semicolon iri_word_def)

lemma map_block_tokens_of:
  assumes "arn_ok (mm_map_arn mm)" "arn_ok (mm_image_stream_arn mm)"
  shows "split_whitespace (block_of (map_statement vs mm)) =
    [iri_word (mm_map_arn mm), ''rdf:type'', ''aff4:Map'', ''aff4:size'', dec (unat vs),
     ''aff4:dependentStream'', iri_word (mm_image_stream_arn mm), ''aff4:mapGapDefaultStream'',
     (if mm_gap_is_symbolic_ff mm then ''aff4:SymbolicStreamFF'' else ''aff4:Zero'')]"
  unfolding block_tokens [OF turtle_words_map [OF assms]]
  by (simp add: map_statement_def dec_not_semicolon iri_word_def)

lemma dec_not_pred: "dec n \<noteq> ''aff4:'' @ p"
  by (rule dec_neq [of "CHR '':''"]) (simp, code_simp)

text \<open>A predicate whose first occurrence among the tokens is before a number.\<close>

lemma extract_number:
  assumes "split_whitespace b = pre @ p # dec (unat n) # post" and "p \<notin> set pre"
  shows "extract_pred_u64 b p = Inr n"
  by (simp add: extract_pred_u64_def assms(1) find_window [OF assms(2)] Let_def)

lemma stream_numbers:
  assumes "meta_ok m"
  shows "extract_pred_u64 (block_of (stream_statement m)) ''aff4:size'' = Inr (sm_image_stream_size m)"
    and "extract_pred_u64 (block_of (stream_statement m)) ''aff4:chunkSize'' = Inr (sm_chunk_size m)"
    and "extract_pred_u64 (block_of (stream_statement m)) ''aff4:chunksInSegment'' =
      Inr (sm_chunks_per_segment m)"
proof -
  note tok = stream_block_tokens_of [OF assms, unfolded stream_tokens_def]
  note dp = dec_not_pred [symmetric, of "''chunkSize''", simplified]
    dec_not_pred [symmetric, of "''chunksInSegment''", simplified]
  let ?pre = "[iri_word (sm_stream_arn m), ''rdf:type'', ''aff4:ImageStream'']"
  let ?pre1 = "?pre @ [''aff4:size'', dec (unat (sm_image_stream_size m))]"
  let ?pre2 = "?pre1 @ [''aff4:chunkSize'', dec (unat (sm_chunk_size m))]"
  show "extract_pred_u64 (block_of (stream_statement m)) ''aff4:size'' = Inr (sm_image_stream_size m)"
    by (rule extract_number [of _ ?pre]) (simp add: tok, simp add: iri_word_def)
  show "extract_pred_u64 (block_of (stream_statement m)) ''aff4:chunkSize'' = Inr (sm_chunk_size m)"
    by (rule extract_number [of _ ?pre1]) (simp add: tok, simp add: iri_word_def dp)
  show "extract_pred_u64 (block_of (stream_statement m)) ''aff4:chunksInSegment'' =
      Inr (sm_chunks_per_segment m)"
    by (rule extract_number [of _ ?pre2]) (simp add: tok, simp add: iri_word_def dp)
qed

lemma block_iri:
  assumes "arn_ok arn"
  shows "first_iri (block_of (iri_word arn # ws)) = Some arn"
proof -
  obtain t where t: "block_of (iri_word arn # ws) = CHR ''<'' # arn @ ''>'' @ t"
    using join_with_prefix [of "'' ''" "iri_word arn" "spread ws"]
    by (auto simp: block_of_def spread_Cons iri_word_def)
  have "CHR ''>'' \<notin> set arn"
  proof -
    have "CHR ''>'' \<notin> set (''aff4://'' @ uuid_alphabet)" by code_simp
    with assms show ?thesis by (elim arn_okD) (auto simp: uuid_ok_def list_all_iff)
  qed
  then have "find_str (arn @ ''>'' @ t) ''>'' = Some (length arn)"
    by (intro find_str_fresh) simp_all
  then show ?thesis unfolding t first_iri_def by (simp add: Let_def subrange_def)
qed

lemma parse_hash_literal:
  assumes "hash_ok s"
  shows "parse_hash_term (hash_literal s) = Some s"
proof -
  have "list_all (\<lambda>c. is_ascii_hexdigit c \<and> \<not> is_ascii_upper c) ''0123456789abcdef''" by code_simp
  then have c: "is_ascii_hexdigit c \<and> \<not> is_ascii_upper c" if "c \<in> set (hex s)" for c
    using assms that unfolding hash_ok_def list_all_iff by blast
  then have "list_all is_ascii_hexdigit (hex s)" "to_ascii_lowercase (hex s) = hex s"
    by (auto simp: list_all_iff to_ascii_lowercase_def intro!: map_idI)
  with parse_hash_term_render [of "hex s" "algorithm s" "[]"] assms show ?thesis
    by (simp add: hash_literal_def hash_ok_def)
qed

lemma value_run_words: "list_all hash_ok ss \<Longrightarrow> value_run (value_words ss) = ss"
proof (induction ss rule: value_words.induct)
  case 1
  then show ?case by (simp add: value_run_def List.map_filter_simps)
next
  case (2 s)
  then show ?case by (simp add: value_run_def value_token_def parse_hash_literal List.map_filter_simps)
next
  case (3 s s' ss)
  then show ?case
    by (simp add: value_run_def value_token_def parse_hash_literal List.map_filter_simps)
qed

lemma stream_hashes:
  assumes "meta_ok m"
  shows "declared_hashes (block_of (stream_statement m)) = sm_image_hashes m"
proof -
  let ?pre = "[iri_word (sm_stream_arn m), ''rdf:type'', ''aff4:ImageStream'',
      ''aff4:size'', dec (unat (sm_image_stream_size m)),
      ''aff4:chunkSize'', dec (unat (sm_chunk_size m)),
      ''aff4:chunksInSegment'', dec (unat (sm_chunks_per_segment m)),
      ''aff4:compressionMethod'', compressor_word (sm_compression m)]"
  have hs: "list_all hash_ok (sm_image_hashes m)" using assms by (simp add: meta_ok_def)
  have "''aff4:hash'' \<noteq> compressor_word (sm_compression m)" by (cases "sm_compression m") simp_all
  then have pre: "''aff4:hash'' \<notin> set ?pre"
    using dec_not_pred [symmetric, of "''hash''", simplified] by (simp add: iri_word_def)
  have post: "''aff4:hash'' \<notin> set (value_words (sm_image_hashes m))"
    by (auto simp: hash_literal_def dest!: set_value_words)
  show ?thesis
  proof (cases "sm_image_hashes m = []")
    case True
    then have "''aff4:hash'' \<notin> set (stream_tokens m)" using pre by (simp add: stream_tokens_def)
    then show ?thesis
      unfolding declared_hashes_def stream_block_tokens_of [OF assms] hashes_from_def True
      by (auto simp: in_set_conv_nth)
  next
    case False
    then have "stream_tokens m = ?pre @ ''aff4:hash'' # value_words (sm_image_hashes m)"
      by (simp add: stream_tokens_def)
    then show ?thesis
      unfolding declared_hashes_def stream_block_tokens_of [OF assms]
      using hashes_from_single [OF pre post] value_run_words [OF hs] by simp
  qed
qed

text \<open>Everything the writer writes is ASCII.\<close>

lemma ascii_word: "turtle_word w \<Longrightarrow> ascii_text w"
proof (cases "w = '';''")
  case True
  have "ascii_text '';''" by code_simp
  with True show ?thesis by simp
next
  case False
  moreover assume "turtle_word w"
  ultimately show ?thesis
    by (auto simp: turtle_word_def token_def ascii_text_def list_all_iff graphic_def)
qed

lemma ascii_join: "ascii_text p \<Longrightarrow> list_all ascii_text ws \<Longrightarrow> ascii_text (join_with p ws)"
  by (induction p ws rule: join_with.induct) (simp_all, simp_all add: ascii_text_def)

lemma str_ok_block_of: "list_all turtle_word ws \<Longrightarrow> str_ok (block_of ws)"
proof -
  assume ws: "list_all turtle_word ws"
  have "ascii_text []" "ascii_text '' ''" by code_simp+
  then have "list_all ascii_text (spread ws)"
    using ws set_spread [of _ ws] ascii_word by (auto simp: list_all_iff)
  then have "ascii_text (block_of ws)"
    unfolding block_of_def by (rule ascii_join [OF \<open>ascii_text '' ''\<close>])
  then show ?thesis unfolding ascii_text_def by (rule str_ok_ascii)
qed

lemma parse_stream_statement:
  assumes "meta_ok m"
  shows "parse_image_stream_block (block_of (stream_statement m)) mo = Inr (m
    \<lparr>sm_virtual_size := (case mo of None \<Rightarrow> sm_image_stream_size m | Some (mm, vs) \<Rightarrow> vs),
     sm_map_meta := map_option fst mo\<rparr>)"
proof -
  have iri: "first_iri (block_of (stream_statement m)) = Some (sm_stream_arn m)"
    unfolding stream_statement_def append_Cons by (rule block_iri) (use assms in \<open>simp add: meta_ok_def\<close>)
  have g: "sm_chunk_size m \<noteq> 0" "sm_chunks_per_segment m \<noteq> 0" using assms by (auto simp: meta_ok_def)
  note ok = str_ok_block_of [OF turtle_words_stream [OF assms]]
  show ?thesis
    unfolding parse_image_stream_block_def extract_iri_eq [OF ok] parse_image_hashes_eq iri stream_numbers [OF assms] ok_or_simps and_then_simps
      detect_compression_stream [OF assms] stream_hashes [OF assms]
    using g by (simp add: Let_def split: option.split)
qed

section \<open>The round trip\<close>

lemma prefix_markers:
  "list_all (\<lambda>mk. \<not> contains prefix_1 mk \<and> \<not> contains prefix_2 mk \<and> \<not> contains [] mk) marker_texts"
  by code_simp

lemma outer_markers:
  "set [''aff4:EncryptedStream'', ''aff4:Map'', ''ImageStream'', ''SymbolicStreamFF''] \<subseteq> set marker_texts"
  by code_simp

lemma compressor_outer:
  "list_all (\<lambda>mk. \<not> contains (compressor_word c) mk)
     [''aff4:EncryptedStream'', ''aff4:Map'', ''SymbolicStreamFF'']"
  by (cases c; simp only: compressor_word.simps; code_simp)

lemma stream_block_outer:
  assumes "meta_ok m"
  shows "\<not> contains (block_of (stream_statement m)) ''aff4:EncryptedStream''"
    and "\<not> contains (block_of (stream_statement m)) ''aff4:Map''"
    and "contains (block_of (stream_statement m)) ''ImageStream''"
  using stream_block_markers [OF assms] outer_markers compressor_outer [of "sm_compression m"]
  by simp_all

lemma map_block_outer:
  assumes "arn_ok (mm_map_arn mm)" "arn_ok (mm_image_stream_arn mm)"
  shows "\<not> contains (block_of (map_statement vs mm)) ''aff4:EncryptedStream''"
    and "contains (block_of (map_statement vs mm)) ''aff4:Map''"
    and "contains (block_of (map_statement vs mm)) ''SymbolicStreamFF'' = mm_gap_is_symbolic_ff mm"
  using map_block_markers [OF assms] outer_markers by simp_all

lemma map_block_preds:
  assumes "arn_ok (mm_map_arn mm)" "arn_ok (mm_image_stream_arn mm)"
  shows "extract_pred_u64 (block_of (map_statement vs mm)) ''aff4:size'' = Inr vs"
    and "pred_iri (block_of (map_statement vs mm)) ''aff4:dependentStream'' =
      Some (mm_image_stream_arn mm)"
proof -
  note tok = map_block_tokens_of [OF assms]
  show "extract_pred_u64 (block_of (map_statement vs mm)) ''aff4:size'' = Inr vs"
    by (rule extract_number [of _ "[iri_word (mm_map_arn mm), ''rdf:type'', ''aff4:Map'']"])
      (simp add: tok, simp add: iri_word_def)
  have "iri_token (iri_word (mm_image_stream_arn mm))"
    by (auto simp: iri_token_def iri_word_def starts_with_iff ends_with_iff)
  then show "pred_iri (block_of (map_statement vs mm)) ''aff4:dependentStream'' =
      Some (mm_image_stream_arn mm)"
    using dec_not_pred [of _ "''dependentStream''", simplified]
    by (simp add: pred_iri_def tok windows2_def)
      (simp add: iri_word_def subrange_def)
qed

lemma stream_block_names_stream:
  assumes "meta_ok m"
  shows "contains (block_of (stream_statement m)) (sm_stream_arn m)"
proof -
  have "arn_ok (sm_stream_arn m)" using assms by (simp add: meta_ok_def)
  then obtain u where u: "sm_stream_arn m = ''aff4://'' @ u" "uuid_ok u" by (rule arn_okD)
  have "CHR '' '' \<notin> set (''aff4://'' @ uuid_alphabet)" "CHR '';'' \<notin> set (''aff4://'' @ uuid_alphabet)"
    by code_simp+
  with u have c: "CHR '' '' \<notin> set (sm_stream_arn m)" "CHR '';'' \<notin> set (sm_stream_arn m)"
    "sm_stream_arn m \<noteq> []"
    by (auto simp: uuid_ok_def list_all_iff)
  have "contains (iri_word (sm_stream_arn m)) (sm_stream_arn m)"
    unfolding contains_iff iri_word_def by blast
  then show ?thesis unfolding block_contains [OF c] by (simp add: stream_statement_def)
qed

lemma parse_render_turtle:
  assumes ok: "meta_ok m"
  shows "parse_turtle (render_turtle m) = Inr m"
proof -
  have pm: "\<not> contains prefix_1 mk \<and> \<not> contains prefix_2 mk \<and> \<not> contains [] mk"
    if "mk \<in> {''aff4:EncryptedStream'', ''aff4:Map'', ''ImageStream''}" for mk
    using prefix_markers outer_markers that by (auto simp: list_all_iff)
  note sb = stream_block_outer [OF ok] and ps = parse_stream_statement [OF ok]
  show ?thesis
  proof (cases "sm_map_meta m")
    case None
    then have "sm_virtual_size m = sm_image_stream_size m" using ok by (simp add: meta_ok_def)
    with None have "m\<lparr>sm_virtual_size := sm_image_stream_size m, sm_map_meta := None\<rparr> = m"
      by simp
    then show ?thesis
      using pm sb ps [of None] None
      by (simp add: parse_turtle_def render_turtle_blocks [OF ok] statements_def)
  next
    case (Some mm)
    then have arns: "arn_ok (mm_map_arn mm)" "arn_ok (mm_image_stream_arn mm)"
      and dep: "mm_image_stream_arn mm = sm_stream_arn m"
      using ok by (auto simp: meta_ok_def)
    note mb = map_block_outer [OF arns, of "sm_virtual_size m"]
      and mp = map_block_preds [OF arns, of "sm_virtual_size m"]
    have mi: "first_iri (block_of (map_statement (sm_virtual_size m) mm)) = Some (mm_map_arn mm)"
      unfolding map_statement_def by (rule block_iri) (rule arns)
    note mo = str_ok_block_of [OF turtle_words_map [OF arns, of "sm_virtual_size m"]]
    let ?mm = "\<lparr>mm_map_arn = mm_map_arn mm, mm_image_stream_arn = sm_stream_arn m,
        mm_gap_is_symbolic_ff = mm_gap_is_symbolic_ff mm\<rparr>"
    have "parse_turtle (render_turtle m) =
        parse_image_stream_block (block_of (stream_statement m)) (Some (?mm, sm_virtual_size m))"
      using pm sb mb mp mi Some stream_block_names_stream [OF ok] dep
      by (simp add: parse_turtle_def render_turtle_blocks [OF ok] statements_def parse_map_turtle_def
          extract_iri_eq [OF mo] extract_pred_iri_eq [OF mo])
    also have "?mm = mm" using dep by (cases mm) simp
    also have "parse_image_stream_block (block_of (stream_statement m)) (Some (mm, sm_virtual_size m)) = Inr m"
      unfolding ps using Some by (cases m) simp
    finally show ?thesis .
  qed
qed

lemma ascii_render_turtle:
  assumes "meta_ok m"
  shows "ascii_text (render_turtle m)"
proof -
  have "ascii_text '' ''" "ascii_text ('' .'' @ line_feed)" "ascii_text turtle_prefixes" by code_simp+
  then have stm: "list_all turtle_word ws \<Longrightarrow> ascii_text (render ws)" for ws
    unfolding render_def using ascii_word by (auto simp: list_all_iff intro!: ascii_join)
  have "list_all (list_all turtle_word) (statements m)"
    using turtle_words_stream [OF assms] turtle_words_map [of _ "sm_virtual_size m"] assms
    by (cases "sm_map_meta m") (simp_all add: statements_def meta_ok_def)
  then have "ascii_text (concat (map render (statements m)))"
    using stm by (auto simp: ascii_text_def list_all_iff)
  with \<open>ascii_text turtle_prefixes\<close> show ?thesis by (simp add: render_turtle_def)
qed

end
