(* ===== verification/Image_Writer.thy ===== *)
theory Image_Writer
  imports Turtle_Writer Image_Content
begin

text \<open>
  A reference writer of whole disk images: the metadata, the bevies with their indexes under any of
  the three ways producers name them, and the \<^verbatim>\<open>map\<close> and \<^verbatim>\<open>idx\<close> files of a mapped image. Opening
  a written image gives the reader with exactly what was written, and its chunks are held.
\<close>

section \<open>The idx file\<close>

fun target_line :: "string \<Rightarrow> target_kind \<Rightarrow> string" where
  "target_line arn ImageStream = arn"
| "target_line arn (Fill b) = ''http://aff4.org/Schema#SymbolicStream'' @ hex02 b"
| "target_line arn (Tile UnknownTile) = ''http://aff4.org/Schema#UnknownData''"
| "target_line arn (Tile UnreadableTile) = ''http://aff4.org/Schema#UnreadableData''"
| "target_line arn Unknown = ''http://aff4.org/Schema#OtherData''"

definition idx_text :: "string \<Rightarrow> target_kind list \<Rightarrow> string" where
  "idx_text arn ts = concat (map (\<lambda>t. target_line arn t @ line_feed) ts)"

lemma lines_from_line:
  "CHR 0x0A \<notin> set l \<Longrightarrow> lines_from cur (l @ CHR 0x0A # s) = strip_cr (rev cur @ l) # lines_from [] s"
  by (induction l arbitrary: cur) auto

lemma lines_concat:
  assumes "\<And>l. l \<in> set ls \<Longrightarrow> token l"
  shows "lines (concat (map (\<lambda>l. l @ line_feed) ls)) = ls"
  using assms
proof (induction ls)
  case Nil
  then show ?case by (simp add: lines_def)
next
  case (Cons l ls)
  have l: "token l" using Cons.prems by simp
  then have no: "CHR 0x0A \<notin> set l" and "CHR 0x0D \<notin> set l" "l \<noteq> []"
    using token_chars(2) [OF l] by (auto simp: token_def)
  then have "last l \<noteq> CHR 0x0D" by (metis last_in_set)
  then have "strip_cr l = l" by (simp add: strip_cr_def)
  then show ?case
    using Cons lines_from_line [OF no, of "[]"] by (simp add: lines_def line_feed_def)
qed

lemma trim_start_graphic: "graphic c \<Longrightarrow> trim_start (c # s) = c # s"
  by (subst trim_start.simps) simp

lemma trim_end_graphic: "list_all graphic s \<Longrightarrow> trim_end s = s"
  by (induction s) (simp_all add: trim_start_graphic)

lemma trim_token: "token w \<Longrightarrow> trim w = w"
  by (cases w) (simp_all add: token_def trim_def trim_start_graphic trim_end_graphic)

lemma hex02_chars: "c \<in> set (hex02 b) \<Longrightarrow> is_ascii_hexdigit c"
proof -
  have "unat b div 16 < 16" "unat b mod 16 < 16"
    using unat_bound [of b] by (auto simp: less_mult_imp_div_less)
  then show "c \<in> set (hex02 b) \<Longrightarrow> is_ascii_hexdigit c"
    by (auto simp: hex02_two_digits is_ascii_hexdigit_def)
qed

lemma graphic_hexdigit: "is_ascii_hexdigit c \<Longrightarrow> graphic c"
  by (auto simp: is_ascii_hexdigit_def to_digit16_def graphic_def Let_def split: if_splits)

lemma token_hex02: "token (hex02 b)"
proof -
  have "hex02 b \<noteq> []" by (simp add: hex02_two_digits)
  then show ?thesis using hex02_chars graphic_hexdigit by (auto simp: token_def list_all_iff)
qed

lemma token_append: "token a \<Longrightarrow> list_all graphic b \<Longrightarrow> token (a @ b)"
  by (simp add: token_def)

lemma arn_token: "arn_ok arn \<Longrightarrow> token arn"
proof (erule arn_okD)
  fix u assume u: "arn = ''aff4://'' @ u" "uuid_ok u"
  have "token ''aff4://''" "list_all graphic uuid_alphabet" by code_simp+
  moreover have "list_all graphic u" using u(2) \<open>list_all graphic uuid_alphabet\<close>
    by (auto simp: uuid_ok_def list_all_iff)
  ultimately show "token arn" unfolding u(1) by (intro token_append)
qed

lemma target_line_token: "arn_ok arn \<Longrightarrow> token (target_line arn k)"
proof (induction arn k rule: target_line.induct)
  case (1 arn)
  then show ?case by (simp add: arn_token)
next
  case (2 arn b)
  have "token ''http://aff4.org/Schema#SymbolicStream''" by code_simp
  moreover have "list_all graphic (hex02 b)" using token_hex02 by (simp add: token_def)
  ultimately show ?case unfolding target_line.simps by (rule token_append)
qed (simp only: target_line.simps; code_simp)+

lemma hex02_value: "hex_value 0 (hex02 b) = unat b"
  by (simp add: hex02_def pad_left_def hex_value_pad hex_value_hex_nat)

lemma symbolic_stream_line:
  "symbolic_stream_byte (''http://aff4.org/Schema#SymbolicStream'' @ hex02 b) = Some b"
proof -
  let ?p = "''SymbolicStream''" and ?a = "''http://aff4.org/Schema#''"
  have "\<not> is_ascii_hexdigit (CHR ''S'')" "\<not> is_ascii_hexdigit (CHR ''#'')" by code_simp+
  then have no: "CHR ''S'' \<notin> set (hex02 b)" "CHR ''#'' \<notin> set (hex02 b)" using hex02_chars by blast+
  have "\<not> contains (hex02 b) ?p" using contains_set [of "hex02 b" ?p] no(1) by auto
  then have "split_str (hex02 b) ?p = [hex02 b]" by (rule split_str_None)
  moreover have "find_str (?a @ ?p) ?p = Some (length ?a)" by code_simp
  then have "split_str (?a @ ?p @ hex02 b) ?p = ?a # split_str (hex02 b) ?p"
    by (rule split_str_piece) simp
  moreover have "''http://aff4.org/Schema#SymbolicStream'' @ hex02 b = ?a @ ?p @ hex02 b" by simp
  ultimately have s: "split_str (''http://aff4.org/Schema#SymbolicStream'' @ hex02 b) ?p = [?a, hex02 b]"
    by (simp only:)
  have "strip_prefix (hex02 b) ''#'' = None"
    using no(2) by (auto simp: strip_prefix_def starts_with_iff)
  moreover have "list_all is_ascii_hexdigit (hex02 b)" using hex02_chars by (simp add: list_all_iff)
  moreover have "length (hex02 b) = 2" by (simp add: hex02_two_digits)
  ultimately show ?thesis
    unfolding symbolic_stream_byte_def s by (simp add: get_at_def hex02_value)
qed

lemma ends_with_two:
  "ends_with (s @ [a, b]) (t @ [c, d]) \<Longrightarrow> a = c \<and> b = d"
  by (auto simp: ends_with_def)

lemma classify_target_line:
  assumes "arn_ok arn"
  shows "classify_target (target_line arn k) arn = k"
proof -
  obtain u where arn: "arn = ''aff4://'' @ u" using assms by (rule arn_okD)
  show ?thesis
  proof (cases k)
    case (Fill b)
    define x y where "x = digit_char (unat b div 16)" and "y = digit_char (unat b mod 16)"
    have h: "hex02 b = [x, y]" by (simp add: hex02_two_digits x_def y_def)
    then have "is_ascii_hexdigit x" using hex02_chars [of x b] by simp
    moreover have "\<not> is_ascii_hexdigit (CHR ''r'')" "\<not> is_ascii_hexdigit (CHR ''t'')" by code_simp+
    ultimately have xn: "x \<noteq> CHR ''r''" "x \<noteq> CHR ''t''" by auto
    let ?l = "''http://aff4.org/Schema#SymbolicStream'' @ hex02 b"
    have "\<not> ends_with ?l ''#Zero''" "\<not> ends_with ?l ''#UnknownData''" "\<not> ends_with ?l ''#UnreadableData''"
      using xn ends_with_two [of "''http://aff4.org/Schema#SymbolicStream''" x y "''#Ze''" "CHR ''r''" "CHR ''o''"]
        ends_with_two [of "''http://aff4.org/Schema#SymbolicStream''" x y "''#UnknownDa''" "CHR ''t''" "CHR ''a''"]
        ends_with_two [of "''http://aff4.org/Schema#SymbolicStream''" x y "''#UnreadableDa''" "CHR ''t''" "CHR ''a''"]
      unfolding h by auto
    moreover have "?l \<noteq> ''aff4:Zero''" by simp
    ultimately show ?thesis
      using Fill arn symbolic_stream_line [of b] by (simp add: classify_target_def)
  next
    case (Tile t)
    have "\<not> ends_with ''http://aff4.org/Schema#UnknownData'' ''#Zero''"
      "\<not> ends_with ''http://aff4.org/Schema#UnreadableData'' ''#Zero''"
      "ends_with ''http://aff4.org/Schema#UnknownData'' ''#UnknownData''"
      "\<not> ends_with ''http://aff4.org/Schema#UnreadableData'' ''#UnknownData''"
      "ends_with ''http://aff4.org/Schema#UnreadableData'' ''#UnreadableData''"
      by code_simp+
    with Tile arn show ?thesis by (cases t) (simp_all add: classify_target_def)
  next
    case Unknown
    have "\<not> ends_with ''http://aff4.org/Schema#OtherData'' ''#Zero''"
      "\<not> ends_with ''http://aff4.org/Schema#OtherData'' ''#UnknownData''"
      "\<not> ends_with ''http://aff4.org/Schema#OtherData'' ''#UnreadableData''"
      "symbolic_stream_byte ''http://aff4.org/Schema#OtherData'' = None"
      by code_simp+
    with Unknown arn show ?thesis by (simp add: classify_target_def)
  qed (simp add: classify_target_def)
qed

lemma parse_idx_text:
  assumes "arn_ok arn"
  shows "parse_idx (idx_text arn ts) arn = ts"
proof -
  have tok: "token (target_line arn t)" for t using assms by (rule target_line_token)
  then have "lines (idx_text arn ts) = map (target_line arn) ts"
    using lines_concat [of "map (target_line arn) ts"] by (auto simp: idx_text_def comp_def)
  moreover have "target_line arn t \<noteq> []" for t using tok [of t] by (simp add: token_def)
  ultimately show ?thesis
    using classify_target_line [OF assms] trim_token [OF tok]
    by (simp add: parse_idx_def comp_def)
qed

section \<open>The container\<close>

text \<open>
  A disk image to be written: its metadata, how its entries are named, the full chunks of its
  stream, and the entries and targets of its map (not used without one).
\<close>

datatype naming = EncodedIri | LiteralIri | BarePath

fun base_name :: "naming \<Rightarrow> string \<Rightarrow> string" where
  "base_name EncodedIri arn = ''aff4%3A%2F%2F'' @ drop 7 arn"
| "base_name LiteralIri arn = arn"
| "base_name BarePath arn = drop 7 arn"

record disk_image =
  di_meta :: stream_meta
  di_naming :: naming
  di_chunks :: "bytes list"
  di_entries :: "map_entry list"
  di_targets :: "target_kind list"

definition segment_count :: "u64 \<Rightarrow> 'a list \<Rightarrow> nat" where
  "segment_count cps stored = (length stored + unat cps - 1) div unat cps"

definition bevy_entries :: "string \<Rightarrow> u64 \<Rightarrow> bytes list \<Rightarrow> (string \<times> bytes) list" where
  "bevy_entries base cps stored =
     map (\<lambda>i. (segment_name base (word_of_nat i), concat (segment_chunks cps stored i)))
       [0..<segment_count cps stored] @
     map (\<lambda>i. (segment_name base (word_of_nat i) @ ''.index'',
               packed_index index_entry (segment_chunks cps stored i)))
       [0..<segment_count cps stored]"

definition map_files :: "string \<Rightarrow> string \<Rightarrow> map_entry list \<Rightarrow> target_kind list \<Rightarrow> (string \<times> bytes) list" where
  "map_files base arn es ts =
     [(base @ ''/map'', concat (map encode_map_entry es)),
      (base @ ''/idx'', bytes_of_string (idx_text arn ts))]"

definition stored_chunks :: "(bytes \<Rightarrow> bytes) \<Rightarrow> disk_image \<Rightarrow> bytes list" where
  "stored_chunks enc d = map (store_chunk enc) (di_chunks d)"

definition image_entries :: "(bytes \<Rightarrow> bytes) \<Rightarrow> disk_image \<Rightarrow> (string \<times> bytes) list" where
  "image_entries enc d =
     (let m = di_meta d in
      (''information.turtle'', bytes_of_string (render_turtle m)) #
      bevy_entries (base_name (di_naming d) (sm_stream_arn m)) (sm_chunks_per_segment m)
        (stored_chunks enc d) @
      (case sm_map_meta m of
         None \<Rightarrow> []
       | Some mm \<Rightarrow>
           map_files (base_name (di_naming d) (mm_map_arn mm)) (sm_stream_arn m)
             (di_entries d) (di_targets d)))"

section \<open>The names of the entries\<close>

lemma hex08_nonempty [simp]: "hex08 x \<noteq> []"
  by (auto simp: hex08_def pad_left_def hex_nat.simps [of "unat x"] split: if_splits)

lemma hex08_chars: "c \<in> set (hex08 x) \<Longrightarrow> is_ascii_hexdigit c"
proof -
  have "is_ascii_hexdigit (CHR ''0'')" by code_simp
  then show "c \<in> set (hex08 x) \<Longrightarrow> is_ascii_hexdigit c"
    by (auto simp: hex08_def pad_left_def hex_nat_digits split: if_splits)
qed

lemma not_hexdigit: "\<not> is_ascii_hexdigit (CHR ''p'')" "\<not> is_ascii_hexdigit (CHR ''x'')"
  "\<not> is_ascii_hexdigit (CHR ''.'')" "\<not> is_ascii_hexdigit (CHR ''/'')"
  by code_simp+

lemma last_segment_name: "is_ascii_hexdigit (last (segment_name b x))"
  using hex08_chars [of "last (hex08 x)" x] by (simp add: segment_name_def)

lemma segment_name_neq:
  "segment_name b x \<noteq> segment_name b y @ ''.index''" "segment_name b x \<noteq> b' @ ''/map''"
  "segment_name b x \<noteq> b' @ ''/idx''" "segment_name b x @ ''.index'' \<noteq> b' @ ''/map''"
  "segment_name b x @ ''.index'' \<noteq> b' @ ''/idx''"
  "segment_name b x \<noteq> ''information.turtle''" "segment_name b x @ ''.index'' \<noteq> ''information.turtle''"
proof -
  show "segment_name b x \<noteq> segment_name b y @ ''.index''" "segment_name b x \<noteq> b' @ ''/map''"
    "segment_name b x \<noteq> b' @ ''/idx''"
    using last_segment_name [of b x] not_hexdigit by (auto dest: arg_cong [of _ _ last])
  show "segment_name b x @ ''.index'' \<noteq> b' @ ''/map''"
    by (auto dest: arg_cong [of _ _ last])
  show "segment_name b x @ ''.index'' \<noteq> b' @ ''/idx''"
    by (auto dest!: arg_cong [of _ _ rev])
  have "CHR ''/'' \<in> set (segment_name b x)" "CHR ''/'' \<notin> set ''information.turtle''"
    by (simp_all add: segment_name_def)
  then show "segment_name b x \<noteq> ''information.turtle''"
    "segment_name b x @ ''.index'' \<noteq> ''information.turtle''"
    by (metis, metis UnI1 set_append)
qed

lemma segment_name_inject [simp]: "segment_name b x = segment_name b y \<longleftrightarrow> x = y"
  by (simp add: segment_name_def)

lemma map_name_neq: "b @ ''/map'' \<noteq> b' @ ''/idx''" "b @ ''/map'' \<noteq> ''information.turtle''"
  "b @ ''/idx'' \<noteq> ''information.turtle''"
proof -
  show "b @ ''/map'' \<noteq> b' @ ''/idx''" by (auto dest: arg_cong [of _ _ last])
  have "CHR ''/'' \<in> set (b @ ''/map'')" "CHR ''/'' \<in> set (b @ ''/idx'')" "CHR ''/'' \<notin> set ''information.turtle''"
    by simp_all
  then show "b @ ''/map'' \<noteq> ''information.turtle''" "b @ ''/idx'' \<noteq> ''information.turtle''" by metis+
qed

lemma word_of_nat_inject_small:
  "i < 2 ^ 64 \<Longrightarrow> j < 2 ^ 64 \<Longrightarrow> (word_of_nat i :: u64) = word_of_nat j \<longleftrightarrow> i = j"
  by (metis unat_of_nat_small)

lemma distinct_bevy_names:
  assumes "segment_count cps stored \<le> 2 ^ 64"
  shows "distinct (map fst (bevy_entries base cps stored))"
  using assms word_of_nat_inject_small
  by (auto simp: bevy_entries_def distinct_map inj_on_def comp_def segment_name_neq)

lemma bevy_names:
  "n \<in> set (map fst (bevy_entries base cps stored)) \<longleftrightarrow>
   (\<exists>i < segment_count cps stored.
      n = segment_name base (word_of_nat i) \<or> n = segment_name base (word_of_nat i) @ ''.index'')"
  by (auto simp: bevy_entries_def)

lemma distinct_image_names:
  assumes "segment_count (sm_chunks_per_segment (di_meta d)) (di_chunks d) \<le> 2 ^ 64"
  shows "distinct (map fst (image_entries enc d))"
proof -
  let ?m = "di_meta d" and ?b = "base_name (di_naming d) (sm_stream_arn (di_meta d))"
  have cnt: "segment_count (sm_chunks_per_segment ?m) (stored_chunks enc d) \<le> 2 ^ 64"
    using assms by (simp add: segment_count_def stored_chunks_def)
  note names = bevy_names [of _ ?b "sm_chunks_per_segment ?m" "stored_chunks enc d"]
  show ?thesis
  proof (cases "sm_map_meta ?m")
    case None
    then have "map fst (image_entries enc d) =
        ''information.turtle'' # map fst (bevy_entries ?b (sm_chunks_per_segment ?m) (stored_chunks enc d))"
      by (simp add: image_entries_def Let_def)
    then show ?thesis
      using distinct_bevy_names [OF cnt, of ?b] names [of "''information.turtle''"] segment_name_neq
      by (simp only: distinct.simps) metis
  next
    case (Some mm)
    let ?mb = "base_name (di_naming d) (mm_map_arn mm)"
    have e: "map fst (image_entries enc d) =
        ''information.turtle'' #
        map fst (bevy_entries ?b (sm_chunks_per_segment ?m) (stored_chunks enc d)) @
        [?mb @ ''/map'', ?mb @ ''/idx'']"
      using Some by (simp add: image_entries_def Let_def map_files_def)
    have "''information.turtle'' \<notin> set (map fst (bevy_entries ?b (sm_chunks_per_segment ?m) (stored_chunks enc d)))"
      "?mb @ ''/map'' \<notin> set (map fst (bevy_entries ?b (sm_chunks_per_segment ?m) (stored_chunks enc d)))"
      "?mb @ ''/idx'' \<notin> set (map fst (bevy_entries ?b (sm_chunks_per_segment ?m) (stored_chunks enc d)))"
      unfolding names using segment_name_neq by metis+
    then show ?thesis
      unfolding e using distinct_bevy_names [OF cnt, of ?b] map_name_neq [of ?mb]
      by (auto simp del: set_map)
  qed
qed

section \<open>Finding the base of a name\<close>

lemma uuid_chars:
  assumes "uuid_ok u"
  shows "CHR ''/'' \<notin> set u" "CHR '':'' \<notin> set u" "CHR ''%'' \<notin> set u"
proof -
  have "list_all (\<lambda>c. c \<noteq> CHR ''/'' \<and> c \<noteq> CHR '':'' \<and> c \<noteq> CHR ''%'') uuid_alphabet" by code_simp
  then have "c \<noteq> CHR ''/'' \<and> c \<noteq> CHR '':'' \<and> c \<noteq> CHR ''%''" if "c \<in> set u" for c
    using assms that unfolding uuid_ok_def list_all_iff by blast
  then show "CHR ''/'' \<notin> set u" "CHR '':'' \<notin> set u" "CHR ''%'' \<notin> set u" by blast+
qed

lemma first_component: "CHR ''/'' \<notin> set a \<Longrightarrow> takeWhile (\<lambda>c. c \<noteq> CHR ''/'') (a @ CHR ''/'' # t) = a"
  by (induction a) auto

definition base_head :: "naming \<Rightarrow> string \<Rightarrow> string" where
  "base_head nm arn = (case nm of EncodedIri \<Rightarrow> ''aff4%3A%2F%2F'' @ drop 7 arn
     | LiteralIri \<Rightarrow> ''aff4:'' | BarePath \<Rightarrow> drop 7 arn)"

lemma base_name_head:
  assumes "arn_ok arn"
  shows "takeWhile (\<lambda>c. c \<noteq> CHR ''/'') (base_name nm arn @ CHR ''/'' # t) = base_head nm arn"
proof -
  obtain u where u: "arn = ''aff4://'' @ u" "uuid_ok u" using assms by (rule arn_okD)
  have "CHR ''/'' \<notin> set (''aff4%3A%2F%2F'' @ u)" using uuid_chars(1) [OF u(2)] by simp
  from first_component [OF this] first_component [OF uuid_chars(1) [OF u(2)]] show ?thesis
    unfolding u(1) by (cases nm) (simp_all add: base_head_def)
qed

lemma base_head_naming:
  assumes "arn_ok arn" "arn_ok arn'" "base_head nm arn = base_head nm' arn'"
  shows "nm = nm'"
proof -
  obtain u u' where u: "arn = ''aff4://'' @ u" "uuid_ok u" "arn' = ''aff4://'' @ u'" "uuid_ok u'"
    using assms(1,2) by (metis arn_okD)
  note c = uuid_chars [OF u(2)] uuid_chars [OF u(4)]
  show ?thesis
    using assms(3) c unfolding u(1,3) base_head_def by (cases nm; cases nm') auto
qed

lemma detect_zip_base_written:
  assumes arn: "arn_ok arn"
    and names: "\<And>n. n \<in> set (za_file_names a) \<Longrightarrow>
      n = ''information.turtle'' \<or> (\<exists>arn' t. arn_ok arn' \<and> n = base_name nm arn' @ CHR ''/'' # t)"
    and present: "base_name nm arn @ CHR ''/'' # t \<in> set (za_file_names a)"
  shows "base_of a arn = base_name nm arn"
proof -
  have hb: "is_base (za_file_names a) (base_name f arn) \<longleftrightarrow> f = nm" for f
  proof
    assume "is_base (za_file_names a) (base_name f arn)"
    then obtain s where s: "base_name f arn @ CHR ''/'' # s \<in> set (za_file_names a)"
      by (auto simp: is_base_iff)
    have "CHR ''/'' \<in> set (base_name f arn @ CHR ''/'' # s)" "CHR ''/'' \<notin> set ''information.turtle''"
      by simp_all
    then have "base_name f arn @ CHR ''/'' # s \<noteq> ''information.turtle''" by metis
    then obtain arn' s' where o: "arn_ok arn'"
      "base_name f arn @ CHR ''/'' # s = base_name nm arn' @ CHR ''/'' # s'"
      using names [OF s] by blast
    then have "base_head f arn = base_head nm arn'" using base_name_head arn by metis
    then show "f = nm" by (rule base_head_naming [OF arn o(1)])
  next
    assume "f = nm"
    with present show "is_base (za_file_names a) (base_name f arn)" by (auto simp: is_base_iff)
  qed
  obtain u where u: "arn = ''aff4://'' @ u" using arn by (rule arn_okD)
  have sp: "strip_prefix arn ''aff4://'' = Some (drop 7 arn)" unfolding u by simp
  have "base_of a arn =
      (case find (is_base (za_file_names a)) (map (\<lambda>f. base_name f arn) [EncodedIri, LiteralIri, BarePath]) of
         Some cand \<Rightarrow> cand | None \<Rightarrow> drop 7 arn)"
    unfolding base_of_def Let_def sp option.case list.map base_name.simps by (rule refl)
  also have "find (is_base (za_file_names a)) (map (\<lambda>f. base_name f arn) fs) =
      map_option (\<lambda>f. base_name f arn) (find (\<lambda>f. f = nm) fs)" for fs
    by (induction fs) (simp_all add: hb)
  also have "find (\<lambda>f. f = nm) [EncodedIri, LiteralIri, BarePath] = Some nm" by (cases nm) simp_all
  also have "(case map_option (\<lambda>f. base_name f arn) (Some nm) of Some cand \<Rightarrow> cand | None \<Rightarrow> drop 7 arn) =
      base_name nm arn"
    by simp
  finally show ?thesis .
qed

section \<open>Opening a written image\<close>

definition image_map :: "disk_image \<Rightarrow> loaded_map option" where
  "image_map d =
     map_option
       (\<lambda>mm. \<lparr>lm_entries = di_entries d, lm_targets = di_targets d,
              lm_gap_default = (if mm_gap_is_symbolic_ff mm then Fill 0xFF else Fill 0)\<rparr>)
       (sm_map_meta (di_meta d))"

definition plaintext :: "disk_image \<Rightarrow> bytes" where
  "plaintext d = concat (di_chunks d)"

text \<open>What the virtual disk of the image has at a position.\<close>

definition image_location :: "disk_image \<Rightarrow> nat \<Rightarrow> location" where
  "image_location d p = (case image_map d of None \<Rightarrow> InStream p | Some lm \<Rightarrow> locate lm p)"

fun location_content :: "bytes \<Rightarrow> location \<Rightarrow> u8" where
  "location_content plain (InStream q) = plain ! q"
| "location_content plain (Constant b) = b"
| "location_content plain (InTile t q) = tile_byte t q"

definition disk_content :: "disk_image \<Rightarrow> bytes" where
  "disk_content d =
     map (\<lambda>p. location_content (plaintext d) (image_location d p))
       [0..<unat (sm_virtual_size (di_meta d))]"

fun within :: "nat \<Rightarrow> location \<Rightarrow> bool" where
  "within n (InStream q) = (q < n)"
| "within n _ = True"

text \<open>
  A writable image: names and hashes as the writer renders them, full chunks of less than 4 GiB, a
  stream below $2^{63}$ bytes, index offsets below $2^{64}$, a well-formed map whose positions, like
  those of an image without one, lie in the stream where they are in it at all.
\<close>

definition image_ok :: "disk_image \<Rightarrow> bool" where
  "image_ok d \<longleftrightarrow>
     (let m = di_meta d in
      meta_ok m \<and> unat (sm_chunk_size m) < 2 ^ 32 \<and> 12 * unat (sm_chunks_per_segment m) < 2 ^ 64 \<and>
      list_all (\<lambda>c. length c = unat (sm_chunk_size m)) (di_chunks d) \<and>
      length (plaintext d) < 2 ^ 63 \<and> unat (sm_image_stream_size m) \<le> length (plaintext d) \<and>
      (case image_map d of None \<Rightarrow> True | Some lm \<Rightarrow> map_ok lm) \<and>
      list_all (\<lambda>p. within (length (plaintext d)) (image_location d p))
        [0..<unat (sm_virtual_size m)])"

definition written_reader :: "(bytes \<Rightarrow> bytes) \<Rightarrow> disk_image \<Rightarrow> aff4_reader" where
  "written_reader enc d =
     (let m = di_meta d; a = archive_of (image_entries enc d) in
      \<lparr>rd_archive = a, rd_zip_base = base_of a (sm_stream_arn m),
       rd_virtual_size = sm_virtual_size m, rd_image_stream_size = sm_image_stream_size m,
       rd_chunk_size = sm_chunk_size m, rd_chunks_per_segment = sm_chunks_per_segment m,
       rd_compression = sm_compression m, rd_image_hashes = sm_image_hashes m, rd_pos = 0,
       rd_loaded_map = image_map d\<rparr>)"

lemma image_okD:
  assumes "image_ok d"
  shows "meta_ok (di_meta d)" and "arn_ok (sm_stream_arn (di_meta d))"
    and "0 < sm_chunk_size (di_meta d)" and "0 < sm_chunks_per_segment (di_meta d)"
    and "sm_map_meta (di_meta d) = Some mm \<Longrightarrow> arn_ok (mm_map_arn mm)"
    and "sm_map_meta (di_meta d) = Some mm \<Longrightarrow> mm_image_stream_arn mm = sm_stream_arn (di_meta d)"
    and "\<And>c. c \<in> set (di_chunks d) \<Longrightarrow> length c = unat (sm_chunk_size (di_meta d))"
    and "length (di_chunks d) < 2 ^ 63"
    and "image_map d = Some lm \<Longrightarrow> map_ok lm"
proof -
  let ?c = "unat (sm_chunk_size (di_meta d))"
  show m: "meta_ok (di_meta d)" using assms by (simp add: image_ok_def Let_def)
  then show "arn_ok (sm_stream_arn (di_meta d))" "0 < sm_chunk_size (di_meta d)"
    "0 < sm_chunks_per_segment (di_meta d)"
    "sm_map_meta (di_meta d) = Some mm \<Longrightarrow> arn_ok (mm_map_arn mm)"
    "sm_map_meta (di_meta d) = Some mm \<Longrightarrow> mm_image_stream_arn mm = sm_stream_arn (di_meta d)"
    by (auto simp: meta_ok_def)
  show len: "\<And>c. c \<in> set (di_chunks d) \<Longrightarrow> length c = ?c"
    using assms by (auto simp: image_ok_def Let_def list_all_iff)
  have "0 < ?c" using m by (simp add: meta_ok_def word_less_nat_alt)
  then have "length (di_chunks d) \<le> ?c * length (di_chunks d)" by simp
  also have "\<dots> = length (plaintext d)"
    unfolding plaintext_def using len by (rule concat_fixed_length [symmetric])
  also have "\<dots> < 2 ^ 63" using assms by (simp add: image_ok_def Let_def)
  finally show "length (di_chunks d) < 2 ^ 63" .
  show "image_map d = Some lm \<Longrightarrow> map_ok lm" using assms by (simp add: image_ok_def Let_def)
qed

lemma segment_count_le: "0 < cps \<Longrightarrow> segment_count cps stored \<le> length stored"
proof -
  assume "0 < cps"
  then have c: "0 < unat cps" by (simp add: word_less_nat_alt)
  then have "length stored \<le> length stored * unat cps" by simp
  with c have "length stored + unat cps - 1 \<le> (unat cps - 1) + length stored * unat cps" by linarith
  then have "segment_count cps stored \<le> ((unat cps - 1) + length stored * unat cps) div unat cps"
    unfolding segment_count_def by (rule div_le_mono)
  also have "\<dots> = length stored" using c by (subst div_mult_self1) simp_all
  finally show ?thesis .
qed

lemma image_lookup:
  assumes "image_ok d" and "(n, c) \<in> set (image_entries enc d)"
  shows "map_of (image_entries enc d) n = Some c"
proof (rule map_of_is_SomeI [OF distinct_image_names assms(2)])
  have "segment_count (sm_chunks_per_segment (di_meta d)) (di_chunks d) \<le> length (di_chunks d)"
    using image_okD(4) [OF assms(1)] by (rule segment_count_le)
  then show "segment_count (sm_chunks_per_segment (di_meta d)) (di_chunks d) \<le> 2 ^ 64"
    using image_okD(8) [OF assms(1)] by simp
qed

lemma bevy_entry:
  assumes "i < segment_count cps stored"
  shows "(segment_name base (word_of_nat i), concat (segment_chunks cps stored i)) \<in>
      set (bevy_entries base cps stored)"
    and "(segment_name base (word_of_nat i) @ ''.index'',
      packed_index index_entry (segment_chunks cps stored i)) \<in> set (bevy_entries base cps stored)"
  using assms by (auto simp: bevy_entries_def)

lemma set_bevy_image:
  "x \<in> set (bevy_entries (base_name (di_naming d) (sm_stream_arn (di_meta d)))
      (sm_chunks_per_segment (di_meta d)) (stored_chunks enc d)) \<Longrightarrow> x \<in> set (image_entries enc d)"
  by (simp add: image_entries_def Let_def)

lemma set_map_image:
  "sm_map_meta (di_meta d) = Some mm \<Longrightarrow>
   x \<in> set (map_files (base_name (di_naming d) (mm_map_arn mm)) (sm_stream_arn (di_meta d))
      (di_entries d) (di_targets d)) \<Longrightarrow> x \<in> set (image_entries enc d)"
  by (simp add: image_entries_def Let_def)

lemma image_names:
  assumes ok: "image_ok d" and n: "n \<in> set (za_file_names (archive_of (image_entries enc d)))"
  shows "n = ''information.turtle'' \<or>
    (\<exists>arn t. arn_ok arn \<and> n = base_name (di_naming d) arn @ CHR ''/'' # t)"
proof -
  consider "n = ''information.turtle''"
    | "n \<in> set (map fst (bevy_entries (base_name (di_naming d) (sm_stream_arn (di_meta d)))
        (sm_chunks_per_segment (di_meta d)) (stored_chunks enc d)))"
    | mm t where "sm_map_meta (di_meta d) = Some mm"
        "n = base_name (di_naming d) (mm_map_arn mm) @ CHR ''/'' # t"
    using n by (cases "sm_map_meta (di_meta d)")
      (auto simp: archive_of_def image_entries_def Let_def map_files_def)
  then show ?thesis
  proof cases
    case 2
    then show ?thesis using image_okD(2) [OF ok] unfolding bevy_names segment_name_def by fastforce
  next
    case 3
    then show ?thesis using image_okD(5) [OF ok] by blast
  qed simp
qed

lemma image_base:
  assumes ok: "image_ok d" and ne: "di_chunks d \<noteq> []"
  shows "base_of (archive_of (image_entries enc d)) (sm_stream_arn (di_meta d)) =
    base_name (di_naming d) (sm_stream_arn (di_meta d))"
proof -
  have "0 < unat (sm_chunks_per_segment (di_meta d))"
    using image_okD(4) [OF ok] by (simp add: word_less_nat_alt)
  then have "0 < segment_count (sm_chunks_per_segment (di_meta d)) (stored_chunks enc d)"
    using ne by (cases "di_chunks d") (simp_all add: segment_count_def stored_chunks_def div_greater_zero_iff)
  from set_bevy_image [OF bevy_entry(1) [OF this]]
  have "base_name (di_naming d) (sm_stream_arn (di_meta d)) @ CHR ''/'' # hex08 (word_of_nat 0)
      \<in> set (za_file_names (archive_of (image_entries enc d)))"
    by (force simp: archive_of_def segment_name_def)
  from detect_zip_base_written [OF image_okD(2) [OF ok] _ this] image_names [OF ok]
  show ?thesis by metis
qed

lemma map_base:
  assumes ok: "image_ok d" and mm: "sm_map_meta (di_meta d) = Some mm"
  shows "base_of (archive_of (image_entries enc d)) (mm_map_arn mm) =
    base_name (di_naming d) (mm_map_arn mm)"
proof -
  have "base_name (di_naming d) (mm_map_arn mm) @ CHR ''/'' # ''map''
      \<in> set (za_file_names (archive_of (image_entries enc d)))"
    using mm by (simp add: archive_of_def image_entries_def Let_def map_files_def)
  from detect_zip_base_written [OF image_okD(5) [OF ok mm] _ this] image_names [OF ok]
  show ?thesis by metis
qed

lemma ascii_idx_text: "arn_ok arn \<Longrightarrow> ascii_text (idx_text arn ts)"
proof -
  assume "arn_ok arn"
  then have "ascii_text (target_line arn t)" for t
    using target_line_token [of arn t] graphic_ascii by (auto simp: token_def ascii_text_def list_all_iff)
  moreover have "ascii_text line_feed" by code_simp
  ultimately show ?thesis
    by (induction ts) (simp_all add: idx_text_def, simp_all add: ascii_text_def)
qed

lemma written_map_loads:
  assumes ok: "image_ok d" and mm: "sm_map_meta (di_meta d) = Some mm" and law: "safe_read_law sr"
  shows "map_option Inr (image_map d) = Some (load_map sr (archive_of (image_entries enc d)) mm)"
proof -
  let ?a = "archive_of (image_entries enc d)" and ?b = "base_name (di_naming d) (mm_map_arn mm)"
  obtain lm where lm: "image_map d = Some lm" using mm by (simp add: image_map_def)
  have e: "lm_entries lm = di_entries d" using lm mm by (auto simp: image_map_def)
  have arn: "arn_ok (sm_stream_arn (di_meta d))" by (rule image_okD(2) [OF ok])
  have look: "map_of (image_entries enc d) (?b @ ''/map'') = Some (concat (map encode_map_entry (di_entries d)))"
    "map_of (image_entries enc d) (?b @ ''/idx'') =
      Some (bytes_of_string (idx_text (sm_stream_arn (di_meta d)) (di_targets d)))"
    by (rule image_lookup [OF ok], rule set_map_image [OF mm], simp add: map_files_def)+
  have "read_to_string (Inr (bytes_of_string (idx_text (sm_stream_arn (di_meta d)) (di_targets d)))) =
      Inr (idx_text (sm_stream_arn (di_meta d)) (di_targets d))"
    using utf8_valid_text [OF ascii_idx_text [OF arn]] by (simp add: read_to_string_def)
  moreover have "by_name ?a (?b @ ''/idx'') =
      Inr (Inr (bytes_of_string (idx_text (sm_stream_arn (di_meta d)) (di_targets d))))"
    by (simp add: by_name_def archive_of_def look)
  moreover have "parse_map_entries sr (concat (map encode_map_entry (di_entries d))) = di_entries d"
  proof -
    note mo = image_okD(9) [OF ok lm]
    have "filter (\<lambda>e. me_length e > 0) (di_entries d) = di_entries d"
      using map_ok_entry [OF mo] e by (intro filter_True) (auto simp: entry_ok_def)
    moreover have "sort_key me_map_offset (di_entries d) = di_entries d"
      using map_ok_sorted [OF mo] e by (simp add: sort_key_id_if_sorted)
    ultimately show ?thesis using parse_encoded_entries [OF law, of "[]" "di_entries d"] by simp
  qed
  moreover have "mm_image_stream_arn mm = sm_stream_arn (di_meta d)" using image_okD(6) [OF ok mm] .
  ultimately show ?thesis
    using mm by (simp add: load_map_def map_base [OF ok mm] read_archive_of [OF look(1)] Let_def
        parse_idx_text [OF arn] image_map_def)
qed

lemma written_opens:
  assumes ok: "image_ok d" and law: "safe_read_law sr"
    and zo: "zo backing = Inr (archive_of (image_entries enc d))"
  shows "open_reader zo sr backing = Inr (written_reader enc d)"
proof -
  let ?a = "archive_of (image_entries enc d)"
  have z: "zip_archive_new zo backing = Inr ?a" by (simp add: zip_archive_new_def zo)
  have t: "information_turtle ?a = Inr (render_turtle (di_meta d))"
    by (rule read_text_entry [OF _ ascii_render_turtle [OF image_okD(1) [OF ok]]])
      (simp add: image_entries_def Let_def)
  show ?thesis
  proof (cases "sm_map_meta (di_meta d)")
    case None
    then show ?thesis
      unfolding open_reader_def z t and_then_simps parse_render_turtle [OF image_okD(1) [OF ok]]
      by (simp add: written_reader_def Let_def image_map_def)
  next
    case (Some mm)
    then obtain lm where lm: "image_map d = Some lm" by (simp add: image_map_def)
    then have "load_map sr ?a mm = Inr lm" using written_map_loads [OF ok Some law, of enc] by simp
    then show ?thesis
      unfolding open_reader_def z t and_then_simps parse_render_turtle [OF image_okD(1) [OF ok]]
      using Some lm by (simp add: written_reader_def Let_def)
  qed
qed

section \<open>The chunks of a written image\<close>

lemma written_reader_fields [simp]:
  "rd_archive (written_reader enc d) = archive_of (image_entries enc d)"
  "rd_virtual_size (written_reader enc d) = sm_virtual_size (di_meta d)"
  "rd_image_stream_size (written_reader enc d) = sm_image_stream_size (di_meta d)"
  "rd_chunk_size (written_reader enc d) = sm_chunk_size (di_meta d)"
  "rd_chunks_per_segment (written_reader enc d) = sm_chunks_per_segment (di_meta d)"
  "rd_compression (written_reader enc d) = sm_compression (di_meta d)"
  "rd_image_hashes (written_reader enc d) = sm_image_hashes (di_meta d)"
  "rd_loaded_map (written_reader enc d) = image_map d"
  by (simp_all add: written_reader_def Let_def)

lemma written_base:
  "image_ok d \<Longrightarrow> di_chunks d \<noteq> [] \<Longrightarrow>
   rd_zip_base (written_reader enc d) = base_name (di_naming d) (sm_stream_arn (di_meta d))"
  by (simp add: written_reader_def Let_def image_base)

lemma segment_in_count:
  assumes "0 < cps" and "i < length stored"
  shows "i div unat cps < segment_count cps stored"
proof -
  have c: "0 < unat cps" using assms(1) by (simp add: word_less_nat_alt)
  have "i + unat cps \<le> length stored + unat cps - 1" using assms(2) by linarith
  then have "(i + unat cps) div unat cps \<le> segment_count cps stored"
    unfolding segment_count_def by (rule div_le_mono)
  moreover have "(i + unat cps) div unat cps = i div unat cps + 1" using c by (simp add: div_add_self2)
  ultimately show ?thesis by linarith
qed

lemma length_store_chunk: "length (store_chunk enc c) \<le> length c"
  by (simp add: store_chunk_def Let_def)

lemma length_concat_le: "(\<And>c. c \<in> set cs \<Longrightarrow> length (f c) \<le> length c) \<Longrightarrow>
    length (concat (map f cs)) \<le> length (concat cs)"
  by (induction cs) (auto intro!: add_mono)

lemma written_held:
  assumes ok: "image_ok d"
  shows "chunks_held (written_reader enc d) (map (store_chunk enc) (di_chunks d))"
proof -
  let ?m = "di_meta d" and ?st = "stored_chunks enc d"
  have cps: "0 < sm_chunks_per_segment ?m" by (rule image_okD(4) [OF ok])
  have k: "unat (sm_chunk_size ?m) < 2 ^ 32" "12 * unat (sm_chunks_per_segment ?m) < 2 ^ 64"
    "length (plaintext d) < 2 ^ 63"
    using ok by (simp_all add: image_ok_def Let_def)
  have "length c < 2 ^ 32" if "c \<in> set ?st" for c
  proof -
    from that obtain x where "x \<in> set (di_chunks d)" "c = store_chunk enc x"
      by (auto simp: stored_chunks_def)
    with image_okD(7) [OF ok] length_store_chunk [of enc x] k(1) show ?thesis by fastforce
  qed
  moreover have "length (concat ?st) \<le> length (plaintext d)"
    unfolding stored_chunks_def plaintext_def by (rule length_concat_le) (rule length_store_chunk)
  moreover have "segment_held (archive_of (image_entries enc d)) (rd_zip_base (written_reader enc d))
      (sm_chunks_per_segment ?m) ?st (i div unat (sm_chunks_per_segment ?m))" if i: "i < length ?st" for i
  proof -
    have ne: "di_chunks d \<noteq> []" using i by (auto simp: stored_chunks_def)
    note e = bevy_entry [OF segment_in_count [OF cps i],
        of "base_name (di_naming d) (sm_stream_arn ?m)", THEN set_bevy_image]
    show ?thesis
      unfolding segment_held_def written_base [OF ok ne]
      using e [THEN image_lookup [OF ok], THEN read_archive_of] by blast
  qed
  moreover have "length ?st \<le> 2 ^ 63" using image_okD(8) [OF ok] by (simp add: stored_chunks_def)
  ultimately show ?thesis
    using cps k by (simp add: bevies_held_def list_all_iff stored_chunks_def)
qed

text \<open>An index entry in the archive is the index of one of the segments.\<close>

lemma index_in_archive:
  assumes ok: "image_ok d"
    and idx: "read_zip_entry_bytes (archive_of (image_entries enc d))
      (segment_name (rd_zip_base (written_reader enc d)) w @ ''.index'') = Inr index"
  obtains i where "i < segment_count (sm_chunks_per_segment (di_meta d)) (stored_chunks enc d)"
    and "w = word_of_nat i"
    and "index = packed_index index_entry
      (segment_chunks (sm_chunks_per_segment (di_meta d)) (stored_chunks enc d) i)"
proof -
  let ?m = "di_meta d" and ?b = "rd_zip_base (written_reader enc d)"
  let ?n = "segment_count (sm_chunks_per_segment ?m) (stored_chunks enc d)"
  from idx have "(segment_name ?b w @ ''.index'', index) \<in> set (image_entries enc d)"
    by (auto simp: read_zip_entry_bytes_def by_name_def archive_of_def read_to_end_def
        dest!: map_of_SomeD split: option.splits)
  then have in_bevy: "(segment_name ?b w @ ''.index'', index) \<in>
      set (bevy_entries (base_name (di_naming d) (sm_stream_arn ?m)) (sm_chunks_per_segment ?m) (stored_chunks enc d))"
    using segment_name_neq by (auto simp: image_entries_def Let_def map_files_def split: option.splits)
  then have "0 < ?n" by (cases "?n = 0") (simp_all add: bevy_entries_def)
  then have ne: "di_chunks d \<noteq> []"
    using image_okD(4) [OF ok]
    by (auto simp: segment_count_def stored_chunks_def word_less_nat_alt)
  from in_bevy obtain i where i: "i < ?n"
    "segment_name ?b w @ ''.index'' = segment_name ?b (word_of_nat i) @ ''.index''"
    "index = packed_index index_entry (segment_chunks (sm_chunks_per_segment ?m) (stored_chunks enc d) i)"
    unfolding written_base [OF ok ne] using segment_name_neq(1) [symmetric] by (auto simp: bevy_entries_def)
  then have "w = word_of_nat i" by simp
  with i show thesis by (intro that)
qed

text \<open>No other chunk can be read, so each that can has the full size.\<close>

lemma written_chunks_bounded:
  assumes ok: "image_ok d" and enc: "encodes cd (written_reader enc d) enc"
  shows "chunks_bounded oc cd (written_reader enc d)"
  unfolding chunks_bounded_def
proof (intro allI impI)
  fix w c assume c: "read_chunk oc cd (written_reader enc d) w = Inr c"
  let ?m = "di_meta d" and ?st = "stored_chunks enc d"
  let ?cps = "sm_chunks_per_segment ?m"
  have cps: "0 < unat ?cps" using image_okD(4) [OF ok] by (simp add: word_less_nat_alt)
  then have "?cps \<noteq> 0" by auto
  with c obtain index a b where
    idx: "read_zip_entry_bytes (archive_of (image_entries enc d))
      (segment_name (rd_zip_base (written_reader enc d)) (w div ?cps) @ ''.index'') = Inr index"
    and ab: "chunk_bounds_from_index oc index (w mod ?cps) = Inr (a, b)"
    by (auto simp: read_chunk_eq Let_def)
  from idx obtain i where i: "i < segment_count ?cps ?st" "w div ?cps = word_of_nat i"
    "index = packed_index index_entry (segment_chunks ?cps ?st i)"
    by (rule index_in_archive [OF ok])
  have st: "length ?st = length (di_chunks d)" by (simp add: stored_chunks_def)
  have "segment_count ?cps ?st < 2 ^ 63"
    using segment_count_le [OF image_okD(4) [OF ok], of ?st] image_okD(8) [OF ok] st by simp
  then have "unat w div unat ?cps = i"
    using i(1,2) unat_div [of w ?cps] by simp
  moreover have "12 * (unat (w mod ?cps) + 1) \<le> 12 * length (segment_chunks ?cps ?st i)"
    using bevy.bounds_held [OF ab] i(3) by simp
  then have "unat w mod unat ?cps < length ?st - i * unat ?cps"
    by (simp add: segment_chunks_def unat_mod)
  ultimately have "unat w div unat ?cps * unat ?cps + unat w mod unat ?cps < length ?st" by simp
  then have w: "unat w < length (di_chunks d)" using st by simp
  then have ws: "map (store_chunk enc) (di_chunks d) ! unat w = store_chunk enc (di_chunks d ! unat w)"
    by simp
  have len: "length (di_chunks d ! unat w) = unat (sm_chunk_size ?m)"
    using image_okD(7) [OF ok] w by simp
  have "read_chunk oc cd (written_reader enc d) (word_of_nat (unat w)) = Inr (di_chunks d ! unat w)"
    using read_chunk_held [OF written_held [OF ok, of enc], of "unat w" oc cd] w
      chunk_of_store [OF enc, of "di_chunks d ! unat w"] len image_okD(3) [OF ok]
    by simp
  with c len show "length c \<le> unat (rd_chunk_size (written_reader enc d))" by simp
qed

lemma written_full_chunks:
  "image_ok d \<Longrightarrow> list_all (\<lambda>c. length c = unat (rd_chunk_size (written_reader enc d))) (di_chunks d)"
  by (simp add: image_ok_def Let_def)

text \<open>The disk and the stream of the reader are those of the image.\<close>

lemma written_disk_byte:
  assumes ok: "image_ok d" and enc: "encodes cd (written_reader enc d) enc"
    and p: "p < unat (sm_virtual_size (di_meta d))"
  shows "disk_byte oc cd (written_reader enc d) p = Some (disk_content d ! p)"
proof -
  have loc: "locate_in (written_reader enc d) p = image_location d p"
    by (simp add: locate_in_def image_location_def)
  have "within (length (plaintext d)) (image_location d p)"
    using ok p by (simp add: image_ok_def Let_def list_all_iff)
  moreover have "stream_byte oc cd (written_reader enc d) q = Some (plaintext d ! q)"
    if "q < length (plaintext d)" for q
    using written_stream [OF written_held [OF ok] enc _ written_full_chunks [OF ok]] that image_okD(3) [OF ok]
    by (simp add: plaintext_def)
  ultimately have "location_byte oc cd (written_reader enc d) (image_location d p) =
      Some (location_content (plaintext d) (image_location d p))"
    by (cases "image_location d p") simp_all
  then show ?thesis using p by (simp add: disk_byte_def loc disk_content_def)
qed

lemma written_image_content:
  assumes ok: "image_ok d" and enc: "encodes cd (written_reader enc d) enc"
  shows "chunks_full oc cd (written_reader enc d)"
    and "image_content oc cd (written_reader enc d) =
      take (unat (sm_image_stream_size (di_meta d))) (plaintext d)"
proof -
  have "unat (sm_image_stream_size (di_meta d)) \<le> length (concat (di_chunks d))"
    using ok by (simp add: image_ok_def Let_def plaintext_def)
  then show "chunks_full oc cd (written_reader enc d)"
    "image_content oc cd (written_reader enc d) =
      take (unat (sm_image_stream_size (di_meta d))) (plaintext d)"
    using written_full [OF written_held [OF ok] enc _ written_full_chunks [OF ok], of oc]
      written_content [OF written_held [OF ok] enc _ written_full_chunks [OF ok], of oc] image_okD(3) [OF ok]
    by (simp_all add: plaintext_def)
qed

lemma written_reader_ok: "image_ok d \<Longrightarrow> reader_ok (written_reader enc d)"
  using image_okD(3,4,9) [of d] by (simp add: reader_ok_def split: option.split)

end
