(* ===== verification/Writer_Properties.thy ===== *)
theory Writer_Properties
  imports Image_Writer Image_Properties Audit_Properties
begin

text \<open>
  The properties that take a disk image from what it is to what the program makes of its bytes:
  written by the reference writer and opened, it has its metadata, its virtual disk and its
  digests.
\<close>

section \<open>A small mapped image\<close>

text \<open>
  Three chunks of four bytes in two segments; positions 0 to 4 of the disk are bytes 2 to 6 of the
  stream, 5 and 6 a gap of 0xFF, 7 to 9 unreadable, the rest a gap.
\<close>

definition small_meta_rec :: stream_meta where
  "small_meta_rec =
     \<lparr>sm_stream_arn = ''aff4://ab-1'', sm_virtual_size = 12, sm_image_stream_size = 10,
      sm_chunk_size = 4, sm_chunks_per_segment = 2, sm_compression = Lz4,
      sm_image_hashes = [\<lparr>algorithm = ''MD5'', hex = ''01''\<rparr>, \<lparr>algorithm = ''sha256'', hex = ''01''\<rparr>],
      sm_map_meta = Some \<lparr>mm_map_arn = ''aff4://cd-2'', mm_image_stream_arn = ''aff4://ab-1'',
        mm_gap_is_symbolic_ff = True\<rparr>\<rparr>"

definition small_image :: disk_image where
  "small_image =
     \<lparr>di_meta = small_meta_rec, di_naming = LiteralIri,
      di_chunks = [[1, 2, 3, 4], [5, 6, 7, 8], [9, 10, 0, 0]],
      di_entries =
        [\<lparr>me_map_offset = 0, me_length = 5, me_target_offset = 2, me_target_id = 0\<rparr>,
         \<lparr>me_map_offset = 7, me_length = 3, me_target_offset = 0, me_target_id = 1\<rparr>],
      di_targets = [ImageStream, Tile UnreadableTile]\<rparr>"

lemma small_meta_ok: "meta_ok small_meta_rec"
  by code_simp

lemma small_image_ok: "image_ok small_image"
  by code_simp

lemma small_codec:
  "length c = unat (sm_chunk_size (di_meta small_image)) \<Longrightarrow>
   decompress demo_codecs (sm_chunk_size (di_meta small_image)) (sm_compression (di_meta small_image)) (id c) = Inr c"
  by (simp add: small_image_def small_meta_rec_def demo_codecs_def decode_with_def with_capacity_def isize_max_def)

section \<open>Metadata\<close>

text \<open>
  C40. Metadata round trip: the turtle the reference writer makes of the metadata of a disk image
  parses to exactly that metadata, for every positive chunk geometry, codec, size and optional map
  over the stream. The names are \<^verbatim>\<open>aff4://\<close> and a text of lower-case hexadecimal digits and
  hyphens, the hash values lower-case hexadecimal, and the hash algorithms words over
  \<open>hash_alphabet\<close> that end in a letter or digit: the parser looks for its markers in whole blocks,
  so a name that contains one is read as something else.
\<close>

theorem metadata_round_trip:
  assumes "meta_ok m"
  shows "parse_turtle (render_turtle m) = Inr m"
  using assms by (rule parse_render_turtle)

lemma metadata_round_trip_witness:
  "parse_turtle (render_turtle small_meta_rec) = Inr small_meta_rec"
  by (rule metadata_round_trip [OF small_meta_ok])

section \<open>The disk\<close>

lemma codec_encodes:
  assumes "\<And>c. length c = unat (sm_chunk_size (di_meta d)) \<Longrightarrow>
      decompress cd (sm_chunk_size (di_meta d)) (sm_compression (di_meta d)) (enc c) = Inr c"
  shows "encodes cd (written_reader enc d) enc"
  using assms by (simp add: encodes_def)

text \<open>
  C12. Container round trip: a disk image the reference writer can describe (\<open>image_ok\<close>), mapped or
  not, of any codec the reader undoes and with any of the three ways to name its entries, opens
  from its bytes, and positioned reads of every offset below $2^{63}$ and every length give exactly
  the bytes of its virtual disk.
\<close>

theorem written_container_reads_back:
  fixes buf :: bytes
  assumes "image_ok d" and "safe_read_law sr"
    and "\<And>c. length c = unat (sm_chunk_size (di_meta d)) \<Longrightarrow>
      decompress cd (sm_chunk_size (di_meta d)) (sm_compression (di_meta d)) (enc c) = Inr c"
    and "zo backing = Inr (archive_of (image_entries enc d))" and "unat off < 2 ^ 63"
  shows "\<exists>r k. open_reader zo sr backing = Inr r \<and> k = min (length buf) (length (disk_content d) - unat off) \<and>
    fst (read_at oc cd (aff4_source_new r) off buf) = Inr k \<and>
    take k (fst (snd (read_at oc cd (aff4_source_new r) off buf))) =
      take k (drop (unat off) (disk_content d))"
proof -
  let ?r = "written_reader enc d"
  have enc: "encodes cd ?r enc" using assms(3) by (rule codec_encodes)
  have ok: "source_ok oc cd (aff4_source_new ?r)"
    using written_reader_ok [OF assms(1)] written_chunks_bounded [OF assms(1) enc]
    by (simp add: source_ok_def aff4_source_new_def virtual_disk_size_def)
  have len: "unat (src_len (aff4_source_new ?r)) = length (disk_content d)"
    by (simp add: aff4_source_new_def virtual_disk_size_def disk_content_def)
  have "disk_byte oc cd (src_inner (aff4_source_new ?r)) p = Some (disk_content d ! p)"
    if "p < unat (src_len (aff4_source_new ?r))" for p
    using written_disk_byte [OF assms(1) enc] that
    by (simp add: aff4_source_new_def virtual_disk_size_def)
  from read_at_whole [OF ok assms(5) this, of buf] written_opens [of d sr zo backing enc, OF assms(1,2,4)] len
  show ?thesis by auto
qed

lemma written_container_reads_back_witness:
  "\<exists>r. open_reader (\<lambda>_. Inr (archive_of (image_entries id small_image))) safe_read_impl [] = Inr r \<and>
    take 6 (fst (snd (read_at True demo_codecs (aff4_source_new r) (3 :: u64) (replicate 6 0)))) =
      [6, 7, 0xFF, 0xFF, 0x55, 0x4E]"
proof -
  have c: "take 6 (drop 3 (disk_content small_image)) = [6, 7, 0xFF, 0xFF, 0x55, 0x4E]"
    and l: "min 6 (length (disk_content small_image) - 3) = 6"
    by code_simp+
  have off: "unat (3 :: u64) < 2 ^ 63" by simp
  show ?thesis
    using written_container_reads_back [OF small_image_ok safe_read_impl_law small_codec refl off,
      where buf = "replicate 6 0" and oc = True and backing = "[]"] c l
    by (auto simp: id_def)
qed

section \<open>The digests\<close>

lemma to_hex_inject [simp]: "to_hex a = to_hex b \<longleftrightarrow> a = b"
  by (metis hex_decode_eq hex_decode_render old.sum.inject(2) option.inject to_hex_def)

text \<open>
  C21. The audit detects tampering: a disk image declares the digests of its original content and
  holds chunks of some content; auditing the file reports, beside the unreadable regions of its
  map, exactly the declared algorithms the audit knows under which the two contents have
  different digests, with both digests. In particular an untouched image has no mismatch.
\<close>

theorem audit_detects_tampering:
  assumes "digests_law ds H" and "safe_read_law sr" and "image_ok d"
    and "\<And>c. length c = unat (sm_chunk_size (di_meta d)) \<Longrightarrow>
      decompress cd (sm_chunk_size (di_meta d)) (sm_compression (di_meta d)) (enc c) = Inr c"
    and "sm_image_hashes (di_meta d) =
      map (\<lambda>a. \<lparr>algorithm = a, hex = to_hex (H (to_ascii_uppercase a) original)\<rparr>) algs"
    and "fs path = Inr backing" and "zo backing = Inr (archive_of (image_entries enc d))"
  defines "held \<equiv> take (unat (sm_image_stream_size (di_meta d))) (plaintext d)"
  shows "audit_image oc cd ds to_finding fs zo sr path =
    Inr (map (to_finding audit_source)
      ((case image_map d of
          None \<Rightarrow> []
        | Some lm \<Rightarrow> map (\<lambda>(off, n). HashUnreadable off n) (unreadable_regions lm)) @
       map (\<lambda>a. HashMismatch a (to_hex (H (to_ascii_uppercase a) original))
                  (to_hex (H (to_ascii_uppercase a) held)))
         (filter (\<lambda>a. to_ascii_uppercase a \<in> {''MD5'', ''SHA1'', ''SHA256'', ''SHA512'', ''BLAKE2B''} \<and>
                    H (to_ascii_uppercase a) held \<noteq> H (to_ascii_uppercase a) original) algs)))"
proof -
  let ?r = "written_reader enc d"
  have enc: "encodes cd ?r enc" using assms(4) by (rule codec_encodes)
  have open_r: "open_path fs zo sr path = Inr ?r"
    using written_opens [of d sr zo backing enc, OF assms(3,2,7)] assms(6)
    by (simp add: open_path_def open_file_def)
  have regions: "map (\<lambda>(off, n). HashUnreadable off n) (reader_unreadable_regions ?r) =
      (case image_map d of None \<Rightarrow> []
       | Some lm \<Rightarrow> map (\<lambda>(off, n). HashUnreadable off n) (unreadable_regions lm))"
    by (simp add: reader_unreadable_regions_def split: option.split)
  have cs: "0 < rd_chunk_size ?r" using image_okD(3) [OF assms(3)] by simp
  note c = written_image_content [OF assms(3) enc, folded held_def]
  show ?thesis
    unfolding audit_image_def open_r and_then_simps verify_report_filter [OF assms(1) cs c(1)] c(2) regions
    by (simp add: assms(5) filter_map comp_def recognised_def)
qed

text \<open>Digests that tell less and more: the first byte for SHA-256, the whole for the others.\<close>

definition first_digest :: "bytes digest" where
  "first_digest = \<lparr>dg_new = [], dg_update = (\<lambda>h p. take 1 (h @ p)), dg_finalize = (\<lambda>h. h)\<rparr>"

definition mixed_digests :: "bytes digests" where
  "mixed_digests = toy_digests\<lparr>dg_sha256 := first_digest\<rparr>"

definition mixed_hash :: "string \<Rightarrow> bytes \<Rightarrow> bytes" where
  "mixed_hash a c = (if a = ''SHA256'' then take 1 c else c)"

lemma mixed_digests_law: "digests_law mixed_digests mixed_hash"
proof -
  have "foldl (\<lambda>h p. take 1 (h @ p)) acc ps = take 1 (acc @ concat ps)" if "length acc \<le> 1" for acc :: bytes and ps
    using that
  proof (induction ps arbitrary: acc)
    case (Cons p ps)
    have "take 1 (take 1 (acc @ p) @ concat ps) = take 1 (acc @ p @ concat ps)"
      by (cases acc; cases p; simp)
    then show ?case using Cons.IH [of "take 1 (acc @ p)"] by (simp del: take_append)
  qed simp
  then show ?thesis
    using toy_digests_law
    by (simp add: digests_law_def digest_law_def mixed_digests_def first_digest_def mixed_hash_def)
qed

lemma audit_detects_tampering_witness:
  "audit_image True demo_codecs mixed_digests (\<lambda>_ a. a) (\<lambda>_. Inr [])
      (\<lambda>_. Inr (archive_of (image_entries id small_image))) safe_read_impl ''img'' =
    Inr [HashUnreadable 7 3, HashMismatch ''MD5'' ''01'' ''0102030405060708090a'']"
proof -
  let ?H = "\<lambda>a c. to_hex (mixed_hash (to_ascii_uppercase a) c)"
  let ?held = "take (unat (sm_image_stream_size (di_meta small_image))) (plaintext small_image)"
  have "sm_image_hashes (di_meta small_image) =
      map (\<lambda>a. \<lparr>algorithm = a, hex = ?H a [1]\<rparr>) [''MD5'', ''sha256'']"
    by code_simp
  note r = audit_detects_tampering [where backing = "[]" and fs = "\<lambda>_. Inr []" and oc = True
      and to_finding = "\<lambda>_ a. a" and path = "''img''",
      OF mixed_digests_law safe_read_impl_law small_image_ok small_codec this refl refl]
  have regions: "(case image_map small_image of None \<Rightarrow> []
      | Some lm \<Rightarrow> map (\<lambda>(off, n). HashUnreadable off n) (unreadable_regions lm)) = [HashUnreadable 7 3]"
    by code_simp
  have mism: "map (\<lambda>a. HashMismatch a (?H a [1]) (?H a ?held))
      (filter (\<lambda>a. to_ascii_uppercase a \<in> {''MD5'', ''SHA1'', ''SHA256'', ''SHA512'', ''BLAKE2B''} \<and>
         mixed_hash (to_ascii_uppercase a) ?held \<noteq> mixed_hash (to_ascii_uppercase a) [1]) [''MD5'', ''sha256'']) =
      [HashMismatch ''MD5'' ''01'' ''0102030405060708090a'']"
    by code_simp
  show ?thesis using r unfolding regions mism by (simp add: id_def)
qed

end
