(* ===== verification/Fuzz_Targets.thy ===== *)
theory Fuzz_Targets
  imports Crypto_Facts Forensic_Facts Container_Properties Audit_Properties
begin

text \<open>
  The four fuzz harnesses (\<^verbatim>\<open>fuzz/fuzz_targets\<close>), each the whole path from the bytes of a file
  to a discarded result, and the panics the harnesses can find. The temporary file is external:
  \<open>tmp\<close> gives, for the bytes written, the file system afterwards and the path of the file. Fuzz
  builds have overflow checks on; the flag \<open>oc\<close> stays free so that the statements also cover
  builds without.
\<close>

section \<open>The harnesses\<close>

type_synonym temp_file = "bytes \<Rightarrow> file_system \<times> string"

text \<open>\<^verbatim>\<open>let _ = x\<close>: a value and an error are both dropped; a panic unwinds through it.\<close>

fun dropped :: "('e, 'a) outcome \<Rightarrow> ('f, unit) outcome" where
  "dropped (Inl (Panic p)) = Inl (Panic p)"
| "dropped (Inl (Err e)) = Inr ()"
| "dropped (Inr a) = Inr ()"

definition fuzz_open :: "zip_opener \<Rightarrow> safe_read \<Rightarrow> temp_file \<Rightarrow> bytes \<Rightarrow> unit aff4_result" where
  "fuzz_open zo sr tmp data = (case tmp data of (fs, path) \<Rightarrow> dropped (open_path fs zo sr path))"

definition fuzz_audit ::
    "bool \<Rightarrow> codecs \<Rightarrow> 'd digests \<Rightarrow> (finding_source \<Rightarrow> aff4_anomaly \<Rightarrow> 'f) \<Rightarrow>
     zip_opener \<Rightarrow> safe_read \<Rightarrow> temp_file \<Rightarrow> bytes \<Rightarrow> unit aff4_result" where
  "fuzz_audit oc cd ds to_finding zo sr tmp data =
     (case tmp data of (fs, path) \<Rightarrow> dropped (audit_image oc cd ds to_finding fs zo sr path))"

definition fuzz_decrypt ::
    "bool \<Rightarrow> ciphers \<Rightarrow> zip_opener \<Rightarrow> temp_file \<Rightarrow> bytes \<Rightarrow> unit aff4_result" where
  "fuzz_decrypt oc ci zo tmp data =
     (case tmp data of (fs, path) \<Rightarrow>
        dropped (decrypt_encrypted_stream oc ci fs zo path ''password''))"

definition fuzz_logical :: "zip_opener \<Rightarrow> temp_file \<Rightarrow> bytes \<Rightarrow> unit aff4_result" where
  "fuzz_logical zo tmp data =
     (case tmp data of (fs, path) \<Rightarrow>
        (case logical_open fs zo path of
           Inr container \<Rightarrow>
             and_then (traverse (\<lambda>entry. dropped (read_file container entry)) (files container))
               (\<lambda>_. Inr ())
         | Inl e \<Rightarrow> dropped (Inl e :: logical_container aff4_result)))"

section \<open>Panics\<close>

lemma panics_in_dropped [simp]: "panics_in S (dropped m) = panics_in S m"
  by (cases m rule: dropped.cases) (simp_all add: panics_in_def)

lemma no_panic_dropped [simp]: "no_panic (dropped m) = no_panic m"
  by (cases m rule: dropped.cases) simp_all

lemma panics_in_with_capacity: "CapacityOverflow \<in> S \<Longrightarrow> panics_in S (with_capacity n)"
  by (simp add: with_capacity_def panics_in_def)

lemma panics_in_plain_add: "\<not> oc \<or> ArithmeticOverflow \<in> S \<Longrightarrow> panics_in S (plain_add oc a b)"
  by (auto simp: plain_add_def panics_in_def)

lemma panics_in_decompress: "CapacityOverflow \<in> S \<Longrightarrow> panics_in S (decompress cd cs c stored)"
  by (cases c) (auto simp: panics_in_no_panic intro!: panics_in_and_then panics_in_with_capacity)

lemma panics_in_chunk_bounds:
  "\<not> oc \<or> ArithmeticOverflow \<in> S \<Longrightarrow> panics_in S (chunk_bounds_from_index oc index k)"
  unfolding chunk_bounds_from_index_eq Let_def
  by (auto simp: panics_in_no_panic intro!: panics_in_and_then panics_in_plain_add)

text \<open>The panics of a chunk read, for any declared geometry whose segments are not empty.\<close>

lemma panics_in_read_chunk:
  assumes "0 < rd_chunks_per_segment r" and "CapacityOverflow \<in> S" and "\<not> oc \<or> ArithmeticOverflow \<in> S"
  shows "panics_in S (read_chunk oc cd r idx)"
proof -
  have "rd_chunks_per_segment r \<noteq> 0" using assms(1) by auto
  moreover have "panics_in S (Inl (bounds_error w a b n))" for w a b n by (simp add: bounds_error_def)
  ultimately show ?thesis unfolding read_chunk_eq Let_def
    using assms(2,3)
    by (auto simp: panics_in_no_panic intro!: panics_in_and_then panics_in_chunk_bounds
        panics_in_with_capacity panics_in_decompress split: prod.split)
qed

text \<open>The running count of the content loop stays within the size, so only a chunk can panic.\<close>

lemma panics_in_content_loop:
  assumes "\<And>i. panics_in S (f i)"
  shows "produced \<le> sz \<Longrightarrow> panics_in S (snd (content_loop f oc sz sink idxs produced s))"
proof (induction idxs arbitrary: produced s)
  case Nil
  then show ?case by simp
next
  case (Cons i idxs)
  show ?case
  proof (cases "f i")
    case (Inl e)
    then show ?thesis using assms [of i] by (simp add: panics_in_def)
  next
    case (Inr chunk)
    let ?k = "min (length chunk) (unat (sz - produced))"
    have sub: "(plain_sub oc sz produced :: u64 aff4_result) = Inr (sz - produced)"
      using Cons.prems by (auto simp: plain_sub_def)
    have k: "unat produced + ?k \<le> unat sz"
      using Cons.prems by (simp add: unat_sub word_le_nat_alt)
    have "unat sz < 2 ^ 64" using unat_bound [of sz] by simp
    with k have fits: "unat produced + ?k < 2 ^ 64" by linarith
    then have u: "unat (word_of_nat ?k :: u64) = ?k" by simp
    have add: "plain_add oc produced (word_of_nat ?k) = (Inr (produced + word_of_nat ?k) :: u64 aff4_result)"
      using fits u by (intro plain_add_small) simp
    have "unat (produced + word_of_nat ?k) = unat produced + ?k"
      using fits u by (subst unat_add_small) simp_all
    with k have "produced + word_of_nat ?k \<le> sz" by (simp add: word_le_nat_alt)
    from Cons.IH [OF this] show ?thesis by (simp add: Inr sub add Let_def)
  qed
qed

lemma panics_in_verify:
  assumes "0 < rd_chunks_per_segment r" and "CapacityOverflow \<in> S" and "\<not> oc \<or> ArithmeticOverflow \<in> S"
  shows "panics_in S (verify_image_hashes oc cd ds r)"
proof -
  have "panics_in S (snd (read_image_stream_content oc cd r sink s))" for sink :: "'b \<Rightarrow> bytes \<Rightarrow> 'b" and s
    by (auto simp: read_image_stream_content_def Let_def
        intro!: panics_in_content_loop panics_in_read_chunk assms)
  then have "panics_in S res"
    if "read_image_stream_content oc cd r (update_jobs ds) jobs = (jobs', res)" for jobs jobs' res
    using that by (metis snd_conv)
  then show ?thesis
    by (auto simp: verify_image_hashes_def Let_def intro!: panics_in_and_then split: prod.split)
qed

text \<open>
  C15. The fuzz harnesses assert that no input makes them panic. Opening and the logical path meet
  it for every input, as long as the ZIP reader returns entries of less than $2^{64}$ bytes. The
  audit can end in an oversized allocation, or with overflow checks in an overflow of the index
  arithmetic, and in no other panic; decryption in an oversized allocation or in the assertion of
  the cipher on a short sector. In particular no slice and no index of either is out of range, and
  no text is cut inside a character.
\<close>

theorem fuzz_targets_panic_only:
  assumes "\<And>a name d backing. zip_archive_new zo backing = Inr a \<Longrightarrow> read_entry a name = Inr d \<Longrightarrow>
      length d < 2 ^ 64"
  shows "no_panic (fuzz_open zo sr tmp data) \<and> no_panic (fuzz_logical zo tmp data) \<and>
    panics_in ({CapacityOverflow} \<union> (if oc then {ArithmeticOverflow} else {}))
      (fuzz_audit oc cd ds to_finding zo sr tmp data) \<and>
    panics_in {CapacityOverflow, CalleePanic ''xts-mode: data too short''}
      (fuzz_decrypt oc ci zo tmp data)"
proof (intro conjI)
  show "no_panic (fuzz_open zo sr tmp data)"
    by (auto simp: fuzz_open_def open_path_def split: prod.split)
  have "no_panic (logical_open fs zo path)" for fs path
    by (auto simp: logical_open_def)
  then have "no_panic (Inl e :: logical_container aff4_result)" if "logical_open fs zo path = Inl e"
    for fs path e using that by metis
  moreover have "no_panic (read_file c e)" for c e by (auto simp: read_file_def)
  ultimately show "no_panic (fuzz_logical zo tmp data)"
    by (auto simp: fuzz_logical_def intro!: no_panic_traverse split: prod.split sum.split)
  let ?S = "{CapacityOverflow} \<union> (if oc then {ArithmeticOverflow} else {})"
  have "panics_in ?S (verify_image_hashes oc cd ds r)" if "open_path fs zo sr path = Inr r" for fs path r
  proof (rule panics_in_verify)
    from that obtain backing where "open_reader zo sr backing = Inr r" by (auto simp: open_path_def)
    from open_reader_wf [OF this] show "0 < rd_chunks_per_segment r" by (simp add: reader_wf_def)
  qed auto
  then show "panics_in ?S (fuzz_audit oc cd ds to_finding zo sr tmp data)"
    by (auto simp: fuzz_audit_def audit_image_def open_path_def panics_in_no_panic
        intro!: panics_in_and_then split: prod.split)
  have "panics_in {CapacityOverflow, xts_panic} (decrypt_reader oc ci zo backing pw)" for backing pw
    by (rule panics_in_decrypt_reader) (use assms in \<open>auto simp: entries_fit_def\<close>)
  then show "panics_in {CapacityOverflow, CalleePanic ''xts-mode: data too short''}
      (fuzz_decrypt oc ci zo tmp data)"
    by (auto simp: fuzz_decrypt_def decrypt_encrypted_stream_def xts_panic_def panics_in_no_panic
        intro!: panics_in_and_then split: prod.split)
qed

lemma fuzz_targets_panic_only_witness:
  "let tmp = (\<lambda>d. (\<lambda>_. Inr d, ''tmp'')) in
   no_panic (fuzz_open enc_zip safe_read_impl tmp [1]) \<and> no_panic (fuzz_logical enc_zip tmp [1]) \<and>
   panics_in {ArithmeticOverflow, CapacityOverflow}
     (fuzz_audit True demo_codecs toy_digests (\<lambda>_ a. a) enc_zip safe_read_impl tmp [1]) \<and>
   panics_in {CapacityOverflow, CalleePanic ''xts-mode: data too short''}
     (fuzz_decrypt True toy_ciphers enc_zip tmp [1])"
proof -
  let ?tmp = "\<lambda>d :: bytes. (\<lambda>_ :: string. Inr d, ''tmp'')"
  have "no_panic (fuzz_open enc_zip safe_read_impl ?tmp [1]) \<and> no_panic (fuzz_logical enc_zip ?tmp [1]) \<and>
    panics_in ({CapacityOverflow} \<union> (if True then {ArithmeticOverflow} else {}))
      (fuzz_audit True demo_codecs toy_digests (\<lambda>_ a. a) enc_zip safe_read_impl ?tmp [1]) \<and>
    panics_in {CapacityOverflow, CalleePanic ''xts-mode: data too short''}
      (fuzz_decrypt True toy_ciphers enc_zip ?tmp [1])"
    by (rule fuzz_targets_panic_only) (rule enc_entries_fit)
  then show ?thesis by (simp add: Let_def)
qed

end
