(* ===== verification/Std_Read.thy ===== *)
theory Std_Read
  imports Sessions
begin

text \<open>
  The two loops of the standard library over \<^verbatim>\<open>Read::read\<close> that the users of a reader call:
  \<^verbatim>\<open>read_exact\<close>, which fills a buffer or fails, and \<^verbatim>\<open>read_to_end\<close>, which appends to a vector
  until a read returns nothing. The reader's own errors are never \<^verbatim>\<open>Interrupted\<close>, so neither
  loop retries.
\<close>

section \<open>Filling a buffer\<close>

definition unexpected_eof :: io_error where
  "unexpected_eof = \<lparr>io_kind = UnexpectedEof, io_message = ''failed to fill whole buffer''\<rparr>"

definition read_exact ::
    "bool \<Rightarrow> codecs \<Rightarrow> aff4_reader \<Rightarrow> bytes \<Rightarrow> unit io_result \<times> bytes \<times> aff4_reader" where
  "read_exact oc cd r buf =
     (case fill_loop (aff4_read oc cd) r buf 0 (length buf) of
        (Inl e, b, r') \<Rightarrow> (Inl e, b, r')
      | (Inr k, b, r') \<Rightarrow> (if k < length buf then Inl (Err unexpected_eof) else Inr (), b, r'))"

lemma read_exact_fills:
  assumes ok: "reader_ok r" "chunks_bounded oc cd r"
    and fits: "unat (rd_pos r) + length buf \<le> unat (rd_virtual_size r)"
    and bytes: "\<And>p. p < unat (rd_virtual_size r) \<Longrightarrow> disk_byte oc cd r p = Some (content ! p)"
    and len: "unat (rd_virtual_size r) \<le> length content"
  shows "\<exists>r'. read_exact oc cd r buf = (Inr (), take (length buf) (drop (unat (rd_pos r)) content), r')"
proof -
  have inv: "reader_ok r \<and> chunks_bounded oc cd r" using ok by simp
  have "\<exists>b r'. fill_loop (aff4_read oc cd) r buf 0 (length buf) = (Inr (length buf), b, r')"
    by (rule disk.fill_loop_complete) (use inv fits bytes in auto)
  then obtain b r' where loop: "fill_loop (aff4_read oc cd) r buf 0 (length buf) = (Inr (length buf), b, r')"
    by blast
  from disk.fill_loop_content [OF inv _ _ loop]
  have b: "length b = length buf"
    "map Some b = map (disk_byte oc cd r) [unat (rd_pos r)..<unat (rd_pos r) + length buf]"
    by (auto simp: subrange_def)
  have "map Some b = map Some (take (length buf) (drop (unat (rd_pos r)) content))"
    unfolding b(2) using bytes fits len by (intro nth_equalityI) auto
  then have "b = take (length buf) (drop (unat (rd_pos r)) content)" by (simp add: inj_map_eq_map)
  with loop show ?thesis by (simp add: read_exact_def)
qed

text \<open>One read that fills the buffer, or fails, decides the outcome.\<close>

lemma read_exact_once:
  assumes "buf \<noteq> []" and "aff4_read oc cd r buf = Inr (length buf, buf', r')"
  shows "read_exact oc cd r buf = (Inr (), buf', r')"
  using assms
  by (simp add: read_exact_def fill_loop.simps [of _ r] fill_loop.simps [of _ r'] subrange_def Let_def)

lemma read_exact_fails:
  assumes "buf \<noteq> []" and "aff4_read oc cd r buf = Inl e"
  shows "read_exact oc cd r buf = (Inl e, buf, r)"
  using assms by (simp add: read_exact_def fill_loop.simps [of _ r] subrange_def)

section \<open>Reading to the end\<close>

text \<open>
  The vector grows by a policy of the library that callers cannot rely on: \<open>room\<close> gives the
  length of the spare buffer for the number of bytes read so far. \<open>None\<close> is a loop that never ends.
\<close>

partial_function (option) read_to_vec ::
    "('s \<Rightarrow> bytes \<Rightarrow> (nat \<times> bytes \<times> 's) io_result) \<Rightarrow> (nat \<Rightarrow> nat) \<Rightarrow> 's \<Rightarrow> bytes \<Rightarrow>
     bytes io_result option" where
  "read_to_vec rd room s out =
     (case rd s (replicate (room (length out)) 0) of
        Inl e \<Rightarrow> Some (Inl e)
      | Inr x \<Rightarrow>
          (case x of (n, buf, s') \<Rightarrow>
             if n = 0 then Some (Inr out) else read_to_vec rd room s' (out @ take n buf)))"

context readable_stream
begin

lemma read_to_vec_complete:
  assumes "inv s" "pos_of s \<le> len_of s" "\<And>n. 0 < room n"
    and "\<And>p. pos_of s \<le> p \<Longrightarrow> p < len_of s \<Longrightarrow> byte_of s p \<noteq> None"
  shows "\<exists>data. read_to_vec rd room s out = Some (Inr (out @ data)) \<and>
    map Some data = map (byte_of s) [pos_of s..<len_of s]"
  using assms
proof (induction "len_of s - pos_of s" arbitrary: s out rule: less_induct)
  case less
  let ?buf = "replicate (room (length out)) 0"
  have ne: "?buf \<noteq> []" using less.prems(3) [of "length out"] by simp
  show ?case
  proof (cases "pos_of s < len_of s")
    case False
    with less.prems show ?thesis
      by (subst read_to_vec.simps) (simp add: rd_eof)
  next
    case True
    then have "byte_of s (pos_of s) \<noteq> None" using less.prems(4) by simp
    then obtain n buf t where r: "rd s ?buf = Inr (n, buf, t)" and n: "0 < n"
      using rd_progress [OF less.prems(1) ne True] by blast
    note t = rd_inv [OF less.prems(1) r] rd_frame [OF less.prems(1) r] rd_pos [OF less.prems(1) r]
    have e: "pos_of s + n \<le> len_of s" by (rule rd_end [OF less.prems(1) r n])
    have "\<exists>data. read_to_vec rd room t (out @ take n buf) = Some (Inr ((out @ take n buf) @ data)) \<and>
        map Some data = map (byte_of t) [pos_of t..<len_of t]"
      by (rule less.hyps) (use t n e True less.prems in auto)
    then obtain data where d: "read_to_vec rd room t (out @ take n buf) = Some (Inr ((out @ take n buf) @ data))"
      "map Some data = map (byte_of s) [pos_of s + n..<len_of s]"
      using t by auto
    have "[pos_of s..<len_of s] = [pos_of s..<pos_of s + n] @ [pos_of s + n..<len_of s]"
      using e upt_add_eq_append [of "pos_of s" "pos_of s + n" "len_of s - (pos_of s + n)"] by simp
    then have "map Some (take n buf @ data) = map (byte_of s) [pos_of s..<len_of s]"
      using rd_bytes [OF less.prems(1) r] d(2) by simp
    moreover have "read_to_vec rd room s out = Some (Inr (out @ take n buf @ data))"
      using r n d(1) by (subst read_to_vec.simps) simp
    ultimately show ?thesis by blast
  qed
qed

end

text \<open>
  On any reader, of a well-formed image or not, the loop ends: a read that returns bytes moves
  the position, and never past the virtual size.
\<close>

lemma read_to_vec_ends:
  "\<exists>res. read_to_vec (aff4_read oc cd) room r out = Some res"
proof (induction "unat (rd_virtual_size r) - unat (rd_pos r)" arbitrary: r out rule: less_induct)
  case less
  let ?buf = "replicate (room (length out)) 0"
  show ?case
  proof (cases "aff4_read oc cd r ?buf")
    case (Inl e)
    then show ?thesis by (subst read_to_vec.simps) simp
  next
    case (Inr x)
    obtain n buf r' where x: "x = (n, buf, r')" by (cases x)
    have sh: "read_shape r ?buf n buf r'" by (rule aff4_read_shape [OF Inr [unfolded x]])
    show ?thesis
    proof (cases "n = 0")
      case True
      with Inr x show ?thesis by (subst read_to_vec.simps) simp
    next
      case False
      have "\<exists>res. read_to_vec (aff4_read oc cd) room r' (out @ take n buf) = Some res"
        by (rule less) (use sh False in \<open>auto simp: read_shape_def\<close>)
      with Inr x False show ?thesis by (subst read_to_vec.simps) simp
    qed
  qed
qed

end
