(* ===== verification/Loop_Properties.thy ===== *)
theory Loop_Properties
  imports Std_Read Container_Properties Image_Properties
begin

text \<open>
  The loops of the program and of its callers: what a positioned read may do to its buffer, that
  reading to the end ends and what it returns, and how many segments decryption can look at.
\<close>

section \<open>The buffer of a positioned read\<close>

lemma fill_loop_shape:
  assumes "filled \<le> want" "want \<le> length buf"
    and "fill_loop (aff4_read oc cd) r buf filled want = (res, buf', r')"
  shows "length buf' = length buf \<and> take filled buf' = take filled buf \<and>
    drop want buf' = drop want buf \<and>
    (\<forall>k. res = Inr k \<longrightarrow> filled \<le> k \<and> k \<le> want \<and> drop k buf' = drop k buf)"
  using assms
proof (induction "want - filled" arbitrary: r buf filled rule: less_induct)
  case less
  show ?case
  proof (cases "filled < want")
    case False
    with less.prems show ?thesis by (subst (asm) fill_loop.simps) auto
  next
    case True
    let ?slot = "subrange buf filled want"
    show ?thesis
    proof (cases "aff4_read oc cd r ?slot")
      case (Inl e)
      with True less.prems show ?thesis by (subst (asm) fill_loop.simps) auto
    next
      case (Inr x)
      obtain n slot t where x: "x = (n, slot, t)" by (cases x)
      have sh: "n \<le> want - filled" "length slot = want - filled" "drop n slot = drop n ?slot"
        using aff4_read_shape [OF Inr [unfolded x]] less.prems True by (auto simp: read_shape_def)
      define b where "b = take filled buf @ slot @ drop want buf"
      have b: "length b = length buf" "take filled b = take filled buf" "drop want b = drop want buf"
        using less.prems True sh by (simp_all add: b_def)
      have tail: "drop (filled + n) b = drop (filled + n) buf"
      proof -
        have "drop (filled + n) b = drop n slot @ drop want buf"
          using less.prems True sh by (simp add: b_def)
        also have "\<dots> = drop n (?slot @ drop want buf)"
          using less.prems True sh by simp
        also have "?slot @ drop want buf = drop filled buf"
          using True append_take_drop_id [of "want - filled" "drop filled buf"]
          by (simp add: subrange_def)
        finally show ?thesis by (simp add: add.commute)
      qed
      show ?thesis
      proof (cases "n = 0")
        case n0: True
        with less.prems True Inr x b tail show ?thesis
          by (subst (asm) fill_loop.simps) (auto simp: Let_def b_def [symmetric])
      next
        case False
        with less.prems True Inr x have
          eq: "fill_loop (aff4_read oc cd) t b (filled + n) want = (res, buf', r')"
          by (subst (asm) fill_loop.simps) (simp add: Let_def b_def)
        have IH: "length buf' = length b \<and> take (filled + n) buf' = take (filled + n) b \<and>
            drop want buf' = drop want b \<and>
            (\<forall>k. res = Inr k \<longrightarrow> filled + n \<le> k \<and> k \<le> want \<and> drop k buf' = drop k b)"
          by (rule less.hyps [OF _ _ _ eq]) (use False sh True b less.prems in auto)
        have "drop k b = drop k buf" if "filled + n \<le> k" for k
          using arg_cong [OF tail, of "drop (k - (filled + n))"] that by simp
        moreover have "take filled buf' = take filled buf"
        proof -
          have "take (filled + n) buf' = take (filled + n) b" using IH by blast
          from arg_cong [OF this, of "take filled"] b(2) show ?thesis by (simp add: min_def)
        qed
        ultimately show ?thesis using IH b by auto
      qed
    qed
  qed
qed

text \<open>
  C32. The type of \<open>read_at\<close>, on every source, well-formed or not, and with every outcome: the
  buffer keeps its length, what lies past the disk or past the bytes returned is untouched, the
  count is at most what the buffer holds and the disk has left, and the source is the same image
  with the same length.
\<close>

theorem read_at_keeps_frame:
  "case read_at oc cd src off buf of (res, buf', src') \<Rightarrow>
     length buf' = length buf \<and> same_source src src' \<and>
     drop (wanted src off buf) buf' = drop (wanted src off buf) buf \<and>
     (case res of Inl e \<Rightarrow> True
      | Inr k \<Rightarrow> k \<le> wanted src off buf \<and> drop k buf' = drop k buf)"
proof -
  obtain res buf' src' where r: "read_at oc cd src off buf = (res, buf', src')"
    by (metis prod_cases3)
  have frame: "length buf' = length buf \<and> drop (wanted src off buf) buf' = drop (wanted src off buf) buf \<and>
     (\<forall>k. res = Inr k \<longrightarrow> k \<le> wanted src off buf \<and> drop k buf' = drop k buf)"
  proof (cases "unat (src_len src) \<le> unat off \<or> 2 ^ 63 \<le> unat off")
    case True
    with r show ?thesis by (auto simp: read_at_unfold split: if_splits)
  next
    case False
    obtain lres b r' where loop: "fill_loop (aff4_read oc cd) ((src_inner src)\<lparr>rd_pos := off\<rparr>) buf 0
        (wanted src off buf) = (lres, b, r')"
      by (metis prod_cases3)
    have "wanted src off buf \<le> length buf" by (simp add: wanted_def)
    from fill_loop_shape [OF _ this loop] False r loop show ?thesis
      by (auto simp: read_at_unfold)
  qed
  with read_at_same_source [OF r] show ?thesis by (simp add: r split: sum.split)
qed

section \<open>Reading to the end\<close>

text \<open>
  C35. Reading a disk to its end ends: on every reader, whatever the map, the codec and the way the
  vector grows, the loop of \<^verbatim>\<open>read_to_end\<close> over the reader's \<^verbatim>\<open>read\<close> returns, with a result or an error.
\<close>

theorem read_to_end_terminates:
  "\<exists>res. read_to_vec (aff4_read oc cd) room r out = Some res"
  by (rule read_to_vec_ends)

text \<open>
  C28. What it returns: on a well-formed image all of whose positions from the current one on hold
  bytes, exactly those bytes up to the virtual size, after what the vector held.
\<close>

theorem read_to_end_reads_disk:
  assumes "reader_ok r" and "chunks_bounded oc cd r" and "\<And>n. 0 < room n"
    and "unat (rd_pos r) \<le> unat (rd_virtual_size r)"
    and "\<And>p. unat (rd_pos r) \<le> p \<Longrightarrow> p < unat (rd_virtual_size r) \<Longrightarrow> disk_byte oc cd r p \<noteq> None"
  shows "\<exists>data. read_to_vec (aff4_read oc cd) room r out = Some (Inr (out @ data)) \<and>
    map Some data = map (disk_byte oc cd r) [unat (rd_pos r)..<unat (rd_virtual_size r)]"
  using assms by (intro disk.read_to_vec_complete) auto

lemma demo_gap_byte:
  assumes "20 \<le> p" shows "disk_byte oc cd demo_reader p = Some 255"
proof -
  have "find (\<lambda>e. covers e p) (lm_entries demo_map) = None"
    using assms by (simp add: demo_map_def covers_def)
  then have "locate demo_map p = loc_of (Fill 255) 0"
    by (simp add: locate_def) (simp add: demo_map_def)
  then show ?thesis by (simp add: disk_byte_def locate_in_def)
qed

lemma read_to_end_reads_disk_witness:
  "read_to_vec (aff4_read True demo_codecs) (\<lambda>_. 32) (demo_reader\<lparr>rd_pos := 22\<rparr>) [1] =
     Some (Inr [1, 255, 255])"
proof -
  let ?r = "demo_reader\<lparr>rd_pos := 22\<rparr>"
  have "\<exists>data. read_to_vec (aff4_read True demo_codecs) (\<lambda>_. 32) ?r [1] = Some (Inr ([1] @ data)) \<and>
    map Some data = map (disk_byte True demo_codecs ?r) [unat (rd_pos ?r)..<unat (rd_virtual_size ?r)]"
    by (rule read_to_end_reads_disk)
      (simp_all add: demo_reader_ok demo_chunks_bounded demo_gap_byte)
  then obtain data where d: "read_to_vec (aff4_read True demo_codecs) (\<lambda>_. 32) ?r [1] = Some (Inr ([1] @ data))"
    "map Some data = map (disk_byte True demo_codecs demo_reader) [22..<24]"
    by auto
  have "[22..<24 :: nat] = [22, 23]" by (simp add: upt_rec)
  with d(2) have "map Some data = map Some [255, 255]" by (simp add: demo_gap_byte)
  then have "data = [255, 255]" by (simp only: inj_map_eq_map inj_Some)
  with d(1) show ?thesis by simp
qed

section \<open>The segments of an encrypted stream\<close>

text \<open>The segment loop with a bound on the rounds, \<open>None\<close> when it is used up.\<close>

fun decrypt_rounds ::
    "nat \<Rightarrow> (u64 \<Rightarrow> u64 \<Rightarrow> bytes \<Rightarrow> (u64 \<times> bytes) aff4_result) \<Rightarrow> u64 \<Rightarrow> u64 \<Rightarrow> u64 \<Rightarrow> bytes \<Rightarrow>
     bytes aff4_result option" where
  "decrypt_rounds 0 step sz segment produced out = None"
| "decrypt_rounds (Suc n) step sz segment produced out =
     (if produced < sz then
        (case step segment produced out of
           Inl e \<Rightarrow> Some (Inl e)
         | Inr (produced', out') \<Rightarrow>
             (case checked_add segment 1 of
                None \<Rightarrow> Some (Inl (bad_format ''encrypted segment index overflow''))
              | Some next_segment \<Rightarrow> decrypt_rounds n step sz next_segment produced' out'))
      else Some (Inr out))"

lemma decrypt_rounds_result:
  "decrypt_rounds n step sz segment produced out = Some x \<Longrightarrow>
   decrypt_loop step sz segment produced out = x"
proof (induction n arbitrary: segment produced out)
  case 0
  then show ?case by simp
next
  case (Suc n)
  then show ?case
    by (subst decrypt_loop.simps) (auto split: if_splits sum.splits option.splits)
qed

text \<open>The documented behaviour of the ZIP reader: an entry that can be read is listed.\<close>

definition entries_listed :: "zip_archive \<Rightarrow> bool" where
  "entries_listed a \<longleftrightarrow> (\<forall>name d. read_entry a name = Inr d \<longrightarrow> name \<in> set (za_file_names a))"

definition segment_files :: "string \<Rightarrow> nat \<Rightarrow> string set" where
  "segment_files zb k =
     (\<lambda>j. segment_name zb (word_of_nat j)) ` {..<k} \<union>
     (\<lambda>j. segment_name zb (word_of_nat j) @ ''.index'') ` {..<k}"

lemma card_segment_files:
  assumes "k \<le> 2 ^ 64"
  shows "card (segment_files zb k) = 2 * k"
proof -
  have w: "(word_of_nat i :: u64) = word_of_nat j \<longleftrightarrow> i = j" if "i < k" "j < k" for i j
    using that assms unat_of_nat_small [of i] unat_of_nat_small [of j] by (metis order_less_le_trans)
  have "inj_on (\<lambda>j. segment_name zb (word_of_nat j)) {..<k}"
    "inj_on (\<lambda>j. segment_name zb (word_of_nat j) @ ''.index'') {..<k}"
    using w by (auto simp: inj_on_def segment_names_distinct)
  moreover have "(\<lambda>j. segment_name zb (word_of_nat j)) ` {..<k} \<inter>
      (\<lambda>j. segment_name zb (word_of_nat j) @ ''.index'') ` {..<k} = {}"
    using segment_names_distinct by auto
  ultimately show ?thesis
    by (simp add: segment_files_def card_Un_disjoint card_image)
qed

lemma decrypt_segment_listed:
  assumes "entries_listed a" and "decrypt_segment oc xts a zb cps sz segment produced out = Inr x"
  shows "segment_name zb segment \<in> set (za_file_names a)"
    and "segment_name zb segment @ ''.index'' \<in> set (za_file_names a)"
  using assms by (auto simp: decrypt_segment_def Let_def entries_listed_def split: if_splits)

lemma decrypt_rounds_enough:
  assumes listed: "entries_listed a"
  shows "segment_files zb (unat segment) \<subseteq> set (za_file_names a) \<Longrightarrow>
    length (za_file_names a) div 2 < n + unat segment \<Longrightarrow>
    \<exists>x. decrypt_rounds n (decrypt_segment oc xts a zb cps sz) sz segment produced out = Some x"
proof (induction n arbitrary: segment produced out)
  case 0
  have "2 * unat segment = card (segment_files zb (unat segment))"
    by (rule card_segment_files [symmetric]) (rule less_imp_le, simp)
  also have "\<dots> \<le> card (set (za_file_names a))" by (rule card_mono) (use 0 in auto)
  also have "\<dots> \<le> length (za_file_names a)" by (rule card_length)
  finally show ?case using "0.prems"(2) by simp
next
  case (Suc n)
  show ?case
  proof (cases "produced < sz")
    case False
    then show ?thesis by simp
  next
    case True
    show ?thesis
    proof (cases "decrypt_segment oc xts a zb cps sz segment produced out")
      case (Inl e)
      with True show ?thesis by simp
    next
      case (Inr x)
      obtain p u where x: "x = (p, u)" by (cases x)
      show ?thesis
      proof (cases "checked_add segment 1")
        case None
        with True Inr x show ?thesis by simp
      next
        case (Some s)
        then have u: "unat s = Suc (unat segment)" by (auto simp: checked_add_Some unat_add_small)
        have "segment_files zb (unat s) = segment_files zb (unat segment) \<union>
            {segment_name zb segment, segment_name zb segment @ ''.index''}"
          by (auto simp: segment_files_def u lessThan_Suc)
        then have "segment_files zb (unat s) \<subseteq> set (za_file_names a)"
          using Suc.prems(1) decrypt_segment_listed [OF listed Inr] by simp
        from Suc.IH [OF this, of p u] Suc.prems(2) u
        have "\<exists>x. decrypt_rounds n (decrypt_segment oc xts a zb cps sz) sz s p u = Some x" by simp
        with True Inr x Some show ?thesis by simp
      qed
    qed
  qed
qed

text \<open>
  C31. Decryption looks at no more segments than the archive has pairs of entries for, and one
  more: whatever the declared size, the segment loop ends within that many rounds, with the
  result of the unbounded loop.
\<close>

theorem decrypt_rounds_bounded:
  assumes "entries_listed archive"
  shows "decrypt_rounds (Suc (length (za_file_names archive) div 2))
      (decrypt_segment oc xts archive zip_base cps sz) sz 0 0 [] =
    Some (decrypt_loop (decrypt_segment oc xts archive zip_base cps sz) sz 0 0 [])"
proof -
  have "segment_files zip_base (unat (0 :: u64)) \<subseteq> set (za_file_names archive)"
    by (simp add: segment_files_def)
  from decrypt_rounds_enough [OF assms this, of _ oc xts cps sz 0 "[]"]
  obtain x where "decrypt_rounds (Suc (length (za_file_names archive) div 2))
      (decrypt_segment oc xts archive zip_base cps sz) sz 0 0 [] = Some x"
    by fastforce
  with decrypt_rounds_result [OF this] show ?thesis by simp
qed

lemma archive_of_listed: "entries_listed (archive_of es)"
  by (auto simp: entries_listed_def read_entry_def by_name_def archive_of_def split: option.splits
      dest!: map_of_SomeD)
    (metis fst_conv image_eqI)

lemma decrypt_rounds_bounded_witness:
  "decrypt_rounds 1 (decrypt_segment True (\<lambda>_. Some) (archive_of []) ''s'' 1 5) 5 0 0 [] =
     Some (Inl (Err (Zip ''entry not found'')))"
proof -
  have "decrypt_loop (decrypt_segment True (\<lambda>_. Some) (archive_of []) ''s'' 1 5) 5 0 0 [] =
      Inl (Err (Zip ''entry not found''))"
    by (subst decrypt_loop.simps) (simp add: decrypt_segment_def read_entry_def by_name_def archive_of_def)
  with decrypt_rounds_bounded [OF archive_of_listed [of "[]"], of True "\<lambda>_. Some" "''s''" 1 5]
  show ?thesis by (simp add: archive_of_def)
qed

end
