(* ===== verification/Unit_Tests.thy ===== *)
theory Unit_Tests
  imports Logical Crypto Forensic Bevy_Index
begin

text \<open>
  The unit tests of the sources that touch no file: each test function as the conjunction of its
  assertions on the model, and the evaluation that they hold. They tie the definitions to the
  behaviour the authors recorded. \<^verbatim>\<open>unwrap\<close> is equality with \<open>Inr\<close>, \<^verbatim>\<open>is_err\<close> is \<open>is_err\<close>.
\<close>

fun is_err :: "('e, 'a) outcome \<Rightarrow> bool" where
  "is_err (Inl (Err e)) = True"
| "is_err _ = False"

text \<open>\<^verbatim>\<open>matches!(err, Aff4Error::BadFormat(m) if m.contains(w))\<close>.\<close>

fun bad_format_with :: "'a aff4_result \<Rightarrow> string \<Rightarrow> bool" where
  "bad_format_with (Inl (Err (BadFormat m))) w = contains m w"
| "bad_format_with _ w = False"

definition quoted :: "string \<Rightarrow> string" where
  "quoted s = [CHR 0x22] @ s @ [CHR 0x22]"

section \<open>map.rs\<close>

definition unreadable_tile_bytes :: bool where
  "unreadable_tile_bytes \<longleftrightarrow>
     tile_seed UnreadableTile = bytes_of_string ''UNREADABLEDATA'' \<and>
     traverse (\<lambda>i. tile_byte_at UnreadableTile (word_of_nat i)) [0..<14] =
       (Inr (bytes_of_string ''UNREADABLEDATA'') :: bytes aff4_result) \<and>
     tile_byte_at UnreadableTile (1024 * 1024) = (Inr 85 :: u8 aff4_result)"

definition classify_target_variants :: bool where
  "classify_target_variants \<longleftrightarrow>
     (let arn = ''aff4://image-stream'' in
      classify_target arn arn = ImageStream \<and>
      classify_target ''http://aff4.org/Schema#Zero'' arn = Fill 0 \<and>
      classify_target ''http://aff4.org/Schema#SymbolicStream61'' arn = Fill 0x61 \<and>
      classify_target ''http://aff4.org/Schema#UnknownData'' arn = Tile UnknownTile \<and>
      classify_target ''http://aff4.org/Schema#UnreadableData'' arn = Tile UnreadableTile \<and>
      classify_target ''aff4://some-other-stream'' arn = Unknown \<and>
      classify_target ''http://aff4.org/Schema#SymbolicStreamZZ'' arn = Unknown)"

definition symbolic_stream_byte_afflib_form :: bool where
  "symbolic_stream_byte_afflib_form \<longleftrightarrow>
     symbolic_stream_byte ''http://afflib.org/2012/SymbolicStream#FF'' = Some 0xFF \<and>
     symbolic_stream_byte ''no symbolic here'' = None"

definition resolve_inside_entry_and_gap_after_entry :: "bool \<Rightarrow> bool" where
  "resolve_inside_entry_and_gap_after_entry oc \<longleftrightarrow>
     (let m = \<lparr>lm_entries =
                 [\<lparr>me_map_offset = 0, me_length = 256, me_target_offset = 0, me_target_id = 0\<rparr>],
               lm_targets = [ImageStream], lm_gap_default = Fill 0\<rparr> in
      (case (resolve oc m 100 1024 :: resolved_region io_result) of
         Inr inside \<Rightarrow> rr_kind inside = ImageStream \<and> rr_target_offset inside = 100
       | Inl _ \<Rightarrow> False) \<and>
      (case (resolve oc m 300 1024 :: resolved_region io_result) of
         Inr gap \<Rightarrow> rr_kind gap = Fill 0
       | Inl _ \<Rightarrow> False))"

lemma map_tests_pass:
  "unreadable_tile_bytes" "classify_target_variants" "symbolic_stream_byte_afflib_form"
  "resolve_inside_entry_and_gap_after_entry True" "resolve_inside_entry_and_gap_after_entry False"
  by code_simp+

section \<open>meta.rs\<close>

definition no_image_stream_is_err :: bool where
  "no_image_stream_is_err \<longleftrightarrow>
     bad_format_with (parse_turtle ''<x> rdf:type aff4:Something .'') ''ImageStream''"

definition map_without_dependent_stream_is_err :: bool where
  "map_without_dependent_stream_is_err \<longleftrightarrow>
     bad_format_with (parse_turtle ''<aff4://m> rdf:type aff4:Map ; aff4:size 1024 .'')
       ''dependentStream''"

definition map_with_missing_dependent_image_stream_is_err :: bool where
  "map_with_missing_dependent_image_stream_is_err \<longleftrightarrow>
     bad_format_with
       (parse_turtle (''<aff4://m> rdf:type aff4:Map ; aff4:size 1024 ; '' @
          ''aff4:dependentStream <aff4://s> .''))
       ''dependent ImageStream''"

definition map_iri_missing_is_err :: bool where
  "map_iri_missing_is_err \<longleftrightarrow>
     bad_format_with (parse_turtle ''aff4:Map aff4:size 10 .'') ''Map IRI''"

definition detect_compression_all_branches :: bool where
  "detect_compression_all_branches \<longleftrightarrow>
     detect_compression ''x snappy'' = Snappy \<and> detect_compression ''x rfc1950'' = Deflate \<and>
     detect_compression ''x DeflateCompressor'' = Deflate \<and>
     detect_compression ''x github.com/lz4'' = Lz4 \<and> detect_compression ''x NullCompressor'' = Null"

definition extract_pred_u64_errors :: bool where
  "extract_pred_u64_errors \<longleftrightarrow>
     is_err (extract_pred_u64 ''aff4:size notanumber'' ''aff4:size'') \<and>
     is_err (extract_pred_u64 ''no predicate here'' ''aff4:size'') \<and>
     is_err (extract_pred_u64 ''aff4:size 99999999999999999999999999'' ''aff4:size'')"

definition extract_iri_none_when_absent :: bool where
  "extract_iri_none_when_absent \<longleftrightarrow> extract_iri ''no angle brackets'' = Inr None"

definition extract_pred_iri_none_when_value_not_iri :: bool where
  "extract_pred_iri_none_when_value_not_iri \<longleftrightarrow>
     extract_pred_iri ''aff4:dependentStream plain'' ''aff4:dependentStream'' = Inr None"

definition parse_hash_term_rejects_non_hash :: bool where
  "parse_hash_term_rejects_non_hash \<longleftrightarrow>
     parse_hash_term ''notquoted'' = None \<and>
     parse_hash_term (quoted [] @ ''^^aff4:MD5'') = None \<and>
     parse_hash_term (quoted ''zz'' @ ''^^aff4:MD5'') = None \<and>
     parse_hash_term (quoted ''ab'' @ ''^^aff4:,'') = None"

definition parse_logical_files_empty_when_no_file_image :: bool where
  "parse_logical_files_empty_when_no_file_image \<longleftrightarrow>
     parse_logical_files ''<x> rdf:type aff4:ImageStream .'' = Inr []"

text \<open>The turtle the encryption tests omit or corrupt one field of.\<close>

definition test_enc_turtle :: "string \<Rightarrow> string \<Rightarrow> string" where
  "test_enc_turtle stream_extra keybag_body =
     ''<aff4://s> a aff4:EncryptedStream ; aff4:chunkSize 512 ; '' @
     ''aff4:chunksInSegment 2048 ; aff4:size 100 ; aff4:keyBag <aff4://kb> '' @ stream_extra @
     '' . <aff4://kb> a aff4:PasswordWrappedKeyBag ; '' @ keybag_body @ '' .''"

definition good_keybag :: string where
  "good_keybag =
     ''aff4:iterations 1000 ; aff4:keySizeInBytes 32 ; aff4:salt '' @
     quoted ''00112233445566778899aabbccddeeff'' @ '' ; aff4:wrappedKey '' @
     quoted ''00112233445566778899aabbccddeeff0011223344556677''"

definition parse_encrypted_meta_happy :: bool where
  "parse_encrypted_meta_happy \<longleftrightarrow>
     (case parse_encrypted_meta (test_enc_turtle [] good_keybag) of
        Inr m \<Rightarrow> em_stream_arn m = ''aff4://s'' \<and> em_iterations m = 1000 \<and> em_key_size m = 32 \<and>
          length (em_salt m) = 16
      | Inl _ \<Rightarrow> False)"

definition parse_encrypted_meta_error_paths :: bool where
  "parse_encrypted_meta_error_paths \<longleftrightarrow>
     is_bad_format (parse_encrypted_meta ''<x> a aff4:ImageStream .'') \<and>
     is_encrypted (parse_encrypted_meta
       (''<aff4://s> a aff4:EncryptedStream ; aff4:chunkSize 512 ; '' @
        ''aff4:chunksInSegment 1 ; aff4:size 1 ; aff4:keyBag <aff4://kb> . '' @
        ''<aff4://kb> a aff4:CertEncryptedKeyBag .'')) \<and>
     is_err (parse_encrypted_meta
       (''<aff4://s> a aff4:EncryptedStream ; aff4:chunkSize 512 ; '' @
        ''aff4:chunksInSegment 1 ; aff4:size 1 .'')) \<and>
     is_err (parse_encrypted_meta
       (''<aff4://s> a aff4:EncryptedStream ; aff4:chunkSize 0 ; '' @
        ''aff4:chunksInSegment 1 ; aff4:size 1 ; aff4:keyBag <aff4://kb> .'')) \<and>
     is_err (parse_encrypted_meta (test_enc_turtle []
       (''aff4:iterations 1 ; aff4:keySizeInBytes 32 ; aff4:salt '' @ quoted ''zz'' @
        '' ; aff4:wrappedKey '' @ quoted ''0011''))) \<and>
     is_err (parse_encrypted_meta (test_enc_turtle []
       (''aff4:iterations 1 ; aff4:keySizeInBytes 32 ; aff4:salt '' @ quoted ''0011'')))"

definition hex_decode_edges :: bool where
  "hex_decode_edges \<longleftrightarrow>
     hex_decode ''00ff'' = Inr (Some [0x00, 0xFF]) \<and> hex_decode ''abc'' = Inr None \<and>
     hex_decode ''zz'' = Inr None"

lemma meta_tests_pass:
  "no_image_stream_is_err" "map_without_dependent_stream_is_err"
  "map_with_missing_dependent_image_stream_is_err" "map_iri_missing_is_err"
  "detect_compression_all_branches" "extract_pred_u64_errors" "extract_iri_none_when_absent"
  "extract_pred_iri_none_when_value_not_iri" "parse_hash_term_rejects_non_hash"
  "parse_logical_files_empty_when_no_file_image" "hex_decode_edges"
  by code_simp+

lemma parse_encrypted_meta_happy_passes: "parse_encrypted_meta_happy"
proof -
  have "parse_encrypted_meta (test_enc_turtle [] good_keybag) = Inr
    \<lparr>em_stream_arn = ''aff4://s'', em_chunks_per_segment = 2048, em_size = 100,
     em_salt = [0x00, 0x11, 0x22, 0x33, 0x44, 0x55, 0x66, 0x77, 0x88, 0x99, 0xAA, 0xBB, 0xCC, 0xDD, 0xEE, 0xFF],
     em_iterations = 1000, em_key_size = 32,
     em_wrapped_key = [0x00, 0x11, 0x22, 0x33, 0x44, 0x55, 0x66, 0x77, 0x88, 0x99, 0xAA, 0xBB, 0xCC, 0xDD,
       0xEE, 0xFF, 0x00, 0x11, 0x22, 0x33, 0x44, 0x55, 0x66, 0x77]\<rparr>"
    by code_simp
  then show ?thesis by (simp add: parse_encrypted_meta_happy_def)
qed

lemma no_stream_is_bad_format: "is_bad_format (parse_encrypted_meta ''<x> a aff4:ImageStream .'')"
  by code_simp

lemma cert_keybag_is_encrypted: "is_encrypted (parse_encrypted_meta
       (''<aff4://s> a aff4:EncryptedStream ; aff4:chunkSize 512 ; '' @
        ''aff4:chunksInSegment 1 ; aff4:size 1 ; aff4:keyBag <aff4://kb> . '' @
        ''<aff4://kb> a aff4:CertEncryptedKeyBag .''))"
  by code_simp

lemma no_keybag_is_err: "is_err (parse_encrypted_meta
       (''<aff4://s> a aff4:EncryptedStream ; aff4:chunkSize 512 ; '' @
        ''aff4:chunksInSegment 1 ; aff4:size 1 .''))"
  by code_simp

lemma zero_geometry_is_err: "is_err (parse_encrypted_meta
       (''<aff4://s> a aff4:EncryptedStream ; aff4:chunkSize 0 ; '' @
        ''aff4:chunksInSegment 1 ; aff4:size 1 ; aff4:keyBag <aff4://kb> .''))"
  by code_simp

lemma bad_salt_is_err: "is_err (parse_encrypted_meta (test_enc_turtle []
       (''aff4:iterations 1 ; aff4:keySizeInBytes 32 ; aff4:salt '' @ quoted ''zz'' @
        '' ; aff4:wrappedKey '' @ quoted ''0011'')))"
  by code_simp

lemma no_wrapped_key_is_err: "is_err (parse_encrypted_meta (test_enc_turtle []
       (''aff4:iterations 1 ; aff4:keySizeInBytes 32 ; aff4:salt '' @ quoted ''0011'')))"
  by code_simp

lemma parse_encrypted_meta_error_paths_passes: "parse_encrypted_meta_error_paths"
  unfolding parse_encrypted_meta_error_paths_def
  by (intro conjI no_stream_is_bad_format cert_keybag_is_encrypted no_keybag_is_err
      zero_geometry_is_err bad_salt_is_err no_wrapped_key_is_err)

section \<open>logical.rs, lib.rs, crypto.rs and the audit\<close>

definition resolve_segment_branches :: bool where
  "resolve_segment_branches \<longleftrightarrow>
     (let names = [''dir/dream.txt'', ''aff4%3A%2F%2Fu/enc.txt''] in
      resolve_segment names ''aff4://vol/dir/dream.txt'' = Inr (Some ''dir/dream.txt'') \<and>
      resolve_segment names ''aff4://u/enc.txt'' = Inr (Some ''aff4%3A%2F%2Fu/enc.txt'') \<and>
      resolve_segment names ''aff4://noslash'' = Inr None) \<and>
     resolve_segment [''a/b/c/dream.txt''] ''aff4://vol/dream.txt'' = Inr (Some ''a/b/c/dream.txt'')"

definition build_index :: "(u64 \<times> u32) list \<Rightarrow> bytes" where
  "build_index entries = concat (map (\<lambda>(off, len). u64_to_le off @ u32_to_le len) entries)"

definition chunk_bounds_from_index_single_chunk :: "bool \<Rightarrow> bool" where
  "chunk_bounds_from_index_single_chunk oc \<longleftrightarrow>
     chunk_bounds_from_index oc (build_index [(0, 512)]) 0 = Inr (0, 512)"

definition chunk_bounds_from_index_second_chunk :: "bool \<Rightarrow> bool" where
  "chunk_bounds_from_index_second_chunk oc \<longleftrightarrow>
     chunk_bounds_from_index oc (build_index [(0, 100), (100, 120)]) 1 = Inr (100, 220)"

definition chunk_bounds_from_index_out_of_range_errs :: "bool \<Rightarrow> bool" where
  "chunk_bounds_from_index_out_of_range_errs oc \<longleftrightarrow>
     is_err (chunk_bounds_from_index oc (build_index [(0, 512)]) 5)"

definition unsupported_key_size_is_refused :: "ciphers \<Rightarrow> bool" where
  "unsupported_key_size_is_refused ci \<longleftrightarrow>
     is_encrypted (derive_vek ci ''pw''
       \<lparr>em_stream_arn = ''aff4://s'', em_chunks_per_segment = 1, em_size = 1,
        em_salt = replicate 16 0, em_iterations = 1, em_key_size = 16,
        em_wrapped_key = replicate 24 0\<rparr>)"

definition for_algorithm_maps_supported_and_rejects_unknown :: "'d digests \<Rightarrow> bool" where
  "for_algorithm_maps_supported_and_rejects_unknown ds \<longleftrightarrow>
     list_all (\<lambda>a. for_algorithm ds a \<noteq> None)
       [''MD5'', ''sha1'', ''SHA256'', ''sha512'', ''Blake2b''] \<and>
     for_algorithm ds ''CRC32'' = None"

definition anomaly_notes_are_observations :: bool where
  "anomaly_notes_are_observations \<longleftrightarrow>
     (let mismatch = HashMismatch ''MD5'' ''aa'' ''bb''; unreadable = HashUnreadable 100 512 in
      anomaly_code mismatch = ''AFF4-HASH-MISMATCH'' \<and>
      contains (anomaly_note mismatch) ''consistent with'' \<and>
      anomaly_code unreadable = ''AFF4-HASH-UNREADABLE'' \<and>
      contains (anomaly_note unreadable) ''could not be acquired'')"

lemma lookup_tests_pass:
  "resolve_segment_branches" "anomaly_notes_are_observations"
  by code_simp+

lemma bounds_tests_pass:
  "chunk_bounds_from_index_single_chunk oc" "chunk_bounds_from_index_second_chunk oc"
  "chunk_bounds_from_index_out_of_range_errs oc"
proof -
  have b: "build_index es = concat (map (\<lambda>(off, len). index_entry off len) es)" for es
    by (simp add: build_index_def index_entry_def)
  show "chunk_bounds_from_index_single_chunk oc"
    using bevy.bounds_entry [of 0 "[(0, 512)]" 0 512 oc]
    by (simp add: chunk_bounds_from_index_single_chunk_def b)
  show "chunk_bounds_from_index_second_chunk oc"
    using bevy.bounds_entry [of 1 "[(0, 100), (100, 120)]" 100 120 oc]
    by (simp add: chunk_bounds_from_index_second_chunk_def b)
  show "chunk_bounds_from_index_out_of_range_errs oc"
    by (simp add: chunk_bounds_from_index_out_of_range_errs_def b chunk_bounds_from_index_eq
        checked_mul_def plain_add_def get_range_def)
qed

lemma key_size_test_passes: "unsupported_key_size_is_refused ci"
  by (simp add: unsupported_key_size_is_refused_def derive_vek_def)

lemma algorithm_test_passes: "for_algorithm_maps_supported_and_rejects_unknown ds"
proof -
  have up: "to_ascii_uppercase ''MD5'' = ''MD5''" "to_ascii_uppercase ''sha1'' = ''SHA1''"
    "to_ascii_uppercase ''SHA256'' = ''SHA256''" "to_ascii_uppercase ''sha512'' = ''SHA512''"
    "to_ascii_uppercase ''Blake2b'' = ''BLAKE2B''" "to_ascii_uppercase ''CRC32'' = ''CRC32''"
    by code_simp+
  show ?thesis
    by (simp add: for_algorithm_maps_supported_and_rejects_unknown_def for_algorithm_def up)
qed

end
