(* ===== verification/Map_Fixture.thy ===== *)
theory Map_Fixture
  imports Image_Properties
begin

text \<open>
  The map-backed fixture, \<open>test_aff4_map\<close>, from its bytes to its disk: the whole path through
  the turtle of two blocks, the \<^verbatim>\<open>/map\<close> and \<^verbatim>\<open>/idx\<close> files, the map lookup, the bevy index and the
  positioned read, for every content of its chunk.
\<close>

section \<open>The parts of the image\<close>

definition map_fixture_turtle :: string where
  "map_fixture_turtle =
     turtle_prefixes @
     image_stream_turtle image_stream_arn_const chunk_size_const chunk_size_const 1
       ''aff4:NullCompressor'' @
     ''<'' @ map_arn_const @ ''> rdf:type aff4:Map ; '' @
     ''aff4:size '' @ dec 1024 @ '' ; '' @
     ''aff4:dependentStream <'' @ image_stream_arn_const @ ''> ; '' @
     ''aff4:mapGapDefaultStream aff4:Zero .'' @ line_feed"

definition map_fixture_entry :: map_entry where
  "map_fixture_entry =
     \<lparr>me_map_offset = 512, me_length = 512, me_target_offset = 0, me_target_id = 0\<rparr>"

definition map_fixture_map :: loaded_map where
  "map_fixture_map =
     \<lparr>lm_entries = [map_fixture_entry], lm_targets = [ImageStream], lm_gap_default = Fill 0\<rparr>"

definition map_fixture_reader :: "bytes \<Rightarrow> aff4_reader" where
  "map_fixture_reader data =
     \<lparr>rd_archive = archive_of (map_entries data), rd_zip_base = image_zip_base_const,
      rd_virtual_size = 1024, rd_image_stream_size = 512, rd_chunk_size = 512,
      rd_chunks_per_segment = 1, rd_compression = Null, rd_image_hashes = [],
      rd_pos = 0, rd_loaded_map = Some map_fixture_map\<rparr>"

definition map_fixture_meta :: stream_meta where
  "map_fixture_meta =
     \<lparr>sm_stream_arn = image_stream_arn_const, sm_virtual_size = 1024, sm_image_stream_size = 512,
      sm_chunk_size = 512, sm_chunks_per_segment = 1, sm_compression = Null, sm_image_hashes = [],
      sm_map_meta = Some \<lparr>mm_map_arn = map_arn_const, mm_image_stream_arn = image_stream_arn_const,
        mm_gap_is_symbolic_ff = False\<rparr>\<rparr>"

lemma map_fixture_parses: "parse_turtle map_fixture_turtle = Inr map_fixture_meta"
  by code_simp

lemma map_fixture_names:
  "za_file_names (archive_of (map_entries data)) =
     [''information.turtle'', image_zip_base_const @ ''/00000000'',
      image_zip_base_const @ ''/00000000.index'', map_zip_base_const @ ''/map'',
      map_zip_base_const @ ''/idx'']"
  by (simp add: archive_of_def map_entries_def)

lemma map_fixture_entry_list:
  "map_entries data =
     [(''information.turtle'', bytes_of_string map_fixture_turtle),
      (image_zip_base_const @ ''/00000000'', padded_chunk data),
      (image_zip_base_const @ ''/00000000.index'', index_entry 0 512),
      (map_zip_base_const @ ''/map'', encode_map_entry map_fixture_entry),
      (map_zip_base_const @ ''/idx'', bytes_of_string (image_stream_arn_const @ line_feed))]"
  by (simp add: map_entries_def map_fixture_turtle_def encode_map_entry_def map_fixture_entry_def
      chunk_size_const_def)

lemma map_fixture_distinct:
  "distinct [''information.turtle'', image_zip_base_const @ ''/00000000'',
      image_zip_base_const @ ''/00000000.index'', map_zip_base_const @ ''/map'',
      map_zip_base_const @ ''/idx'']"
  by code_simp

lemma map_fixture_lookup:
  "map_of (map_entries data) ''information.turtle'' = Some (bytes_of_string map_fixture_turtle)"
  "map_of (map_entries data) (image_zip_base_const @ ''/00000000'') = Some (padded_chunk data)"
  "map_of (map_entries data) (image_zip_base_const @ ''/00000000.index'') = Some (index_entry 0 512)"
  "map_of (map_entries data) (map_zip_base_const @ ''/map'') = Some (encode_map_entry map_fixture_entry)"
  "map_of (map_entries data) (map_zip_base_const @ ''/idx'') =
     Some (bytes_of_string (image_stream_arn_const @ line_feed))"
proof -
  have "distinct (map fst (map_entries data))"
    unfolding map_fixture_entry_list using map_fixture_distinct by simp
  note at = map_of_is_SomeI [OF this]
  show
    "map_of (map_entries data) ''information.turtle'' = Some (bytes_of_string map_fixture_turtle)"
    "map_of (map_entries data) (image_zip_base_const @ ''/00000000'') = Some (padded_chunk data)"
    "map_of (map_entries data) (image_zip_base_const @ ''/00000000.index'') = Some (index_entry 0 512)"
    "map_of (map_entries data) (map_zip_base_const @ ''/map'') = Some (encode_map_entry map_fixture_entry)"
    "map_of (map_entries data) (map_zip_base_const @ ''/idx'') =
       Some (bytes_of_string (image_stream_arn_const @ line_feed))"
    by (rule at, simp add: map_fixture_entry_list)+
qed

lemma map_fixture_bases:
  "base_of (archive_of (map_entries data)) image_stream_arn_const = image_zip_base_const"
  "base_of (archive_of (map_entries data)) map_arn_const = map_zip_base_const"
  unfolding base_of_def map_fixture_names by code_simp+

section \<open>Opening\<close>

lemma map_fixture_loads:
  assumes "safe_read_law sr"
  shows "load_map sr (archive_of (map_entries data))
      \<lparr>mm_map_arn = map_arn_const, mm_image_stream_arn = image_stream_arn_const,
        mm_gap_is_symbolic_ff = False\<rparr> = Inr map_fixture_map"
proof -
  have "read_to_string (Inr (bytes_of_string (image_stream_arn_const @ line_feed))) =
      Inr (image_stream_arn_const @ line_feed)"
    by code_simp
  moreover have "by_name (archive_of (map_entries data)) (map_zip_base_const @ ''/idx'') =
      Inr (Inr (bytes_of_string (image_stream_arn_const @ line_feed)))"
    by (simp add: by_name_def archive_of_def map_fixture_lookup)
  moreover have "parse_idx (image_stream_arn_const @ line_feed) image_stream_arn_const = [ImageStream]"
    by code_simp
  moreover have "parse_map_entries sr (encode_map_entry map_fixture_entry) = [map_fixture_entry]"
    using parse_encoded_entries [OF assms, of "[]" "[map_fixture_entry]"]
    by (simp add: map_fixture_entry_def)
  ultimately show ?thesis
    by (simp add: load_map_def map_fixture_bases read_archive_of [OF map_fixture_lookup(4)]
        map_fixture_map_def Let_def)
qed

lemma map_fixture_opens:
  assumes "zo backing = Inr (archive_of (map_entries data))" and "safe_read_law sr"
  shows "open_reader zo sr backing = Inr (map_fixture_reader data)"
proof -
  have "ascii_text map_fixture_turtle" by code_simp
  then have t: "information_turtle (archive_of (map_entries data)) = Inr map_fixture_turtle"
    by (rule read_text_entry [OF map_fixture_lookup(1)])
  have z: "zip_archive_new zo backing = Inr (archive_of (map_entries data))"
    by (simp add: zip_archive_new_def assms(1))
  show ?thesis
    unfolding open_reader_def z t and_then_simps map_fixture_parses
    by (simp add: map_fixture_meta_def map_fixture_loads [OF assms(2)] map_fixture_bases
        map_fixture_reader_def)
qed

section \<open>The disk\<close>

lemma map_fixture_fields [simp]:
  "rd_archive (map_fixture_reader data) = archive_of (map_entries data)"
  "rd_zip_base (map_fixture_reader data) = image_zip_base_const"
  "rd_virtual_size (map_fixture_reader data) = 1024" "rd_chunk_size (map_fixture_reader data) = 512"
  "rd_chunks_per_segment (map_fixture_reader data) = 1"
  "rd_compression (map_fixture_reader data) = Null"
  "rd_loaded_map (map_fixture_reader data) = Some map_fixture_map"
  by (simp_all add: map_fixture_reader_def)

lemma map_fixture_map_ok: "map_ok map_fixture_map"
  by (simp add: map_ok_def map_fixture_map_def entry_ok_def map_fixture_entry_def)

lemma map_fixture_held: "chunks_held (map_fixture_reader data) [padded_chunk data]"
proof -
  have "hex08 0 = ''00000000''" by code_simp
  then have name: "segment_name image_zip_base_const (word_of_nat 0) = image_zip_base_const @ ''/00000000''"
    by (simp add: segment_name_def)
  have seg: "segment_chunks 1 [padded_chunk data] 0 = [padded_chunk data]"
    by (simp add: segment_chunks_def)
  have "segment_held (archive_of (map_entries data)) image_zip_base_const 1 [padded_chunk data] 0"
    unfolding segment_held_def seg name
    using map_fixture_lookup(2,3) [of data, THEN read_archive_of] by (simp add: packed_index_def)
  then show ?thesis by (simp add: bevies_held_def)
qed

text \<open>
  No entry under the stream's directory is longer than a chunk; the turtle is, but its name is not
  one of a segment.
\<close>

lemma map_fixture_bounded: "chunks_bounded oc cd (map_fixture_reader data)"
  unfolding chunks_bounded_def
proof (intro allI impI)
  fix i c
  assume res: "read_chunk oc cd (map_fixture_reader data) i = Inr c"
  have entry: "length d \<le> 512"
    if "read_zip_entry_bytes (archive_of (map_entries data)) (segment_name image_zip_base_const k) = Inr d"
    for k d
  proof -
    have other: "segment_name image_zip_base_const k \<noteq> ''information.turtle''"
      by (simp add: segment_name_def image_zip_base_const_def)
    have idx: "length (bytes_of_string (image_stream_arn_const @ line_feed)) \<le> 512" by code_simp
    from that have "map_of (map_entries data) (segment_name image_zip_base_const k) = Some d"
      by (auto simp: read_zip_entry_bytes_def by_name_def archive_of_def read_to_end_def
          split: option.splits)
    then have "(segment_name image_zip_base_const k, d) \<in> set (map_entries data)"
      by (rule map_of_SomeD)
    with other idx show ?thesis by (auto simp: map_fixture_entry_list)
  qed
  with res show "length c \<le> unat (rd_chunk_size (map_fixture_reader data))"
    by (auto simp: read_chunk_eq Let_def split: if_splits dest!: entry)
qed

lemma map_fixture_byte:
  assumes "p < 1024"
  shows "disk_byte oc cd (map_fixture_reader data) p = Some ((replicate 512 0 @ padded_chunk data) ! p)"
proof (cases "p < 512")
  case True
  then have "\<not> covers map_fixture_entry p" by (simp add: covers_def map_fixture_entry_def)
  then have "locate map_fixture_map p = Constant 0"
    by (subst locate_gap) (auto simp: map_fixture_map_def)
  with True show ?thesis by (simp add: disk_byte_def locate_in_def nth_append)
next
  case False
  then have "covers map_fixture_entry p"
    using assms by (simp add: covers_def map_fixture_entry_def)
  with locate_covered [OF map_fixture_map_ok _ this] have "locate map_fixture_map p = InStream (p - 512)"
    by (simp add: map_fixture_map_def kind_of_def target_of_def get_at_def map_fixture_entry_def)
  moreover have "stream_byte oc cd (map_fixture_reader data) (p - 512) = Some (concat [padded_chunk data] ! (p - 512))"
  proof (rule written_stream [where enc = id])
    show "chunks_held (map_fixture_reader data) (map (store_chunk id) [padded_chunk data])"
      using map_fixture_held by simp
  qed (use assms False in \<open>simp_all add: encodes_def\<close>)
  ultimately show ?thesis
    using False by (simp add: disk_byte_def locate_in_def nth_append)
qed

text \<open>
  C30. The map-backed fixture, for every data: its bytes open as a disk of 1024 bytes, and every
  positioned read gives the gap's 512 zeros followed by the data, cut or padded with zeros to 512
  bytes; a read may cross from the gap into the stream.
\<close>

theorem map_fixture_reads_back:
  assumes "zo (test_aff4_map zip_pack data) = Inr (archive_of (map_entries data))"
    and "safe_read_law sr"
  shows "\<exists>r. open_reader zo sr (test_aff4_map zip_pack data) = Inr r \<and> virtual_disk_size r = 1024 \<and>
    (\<forall>off buf k. unat off < 2 ^ 63 \<longrightarrow> k = min (length buf) (1024 - unat off) \<longrightarrow>
       fst (read_at oc cd (aff4_source_new r) off buf) = Inr k \<and>
       take k (fst (snd (read_at oc cd (aff4_source_new r) off buf))) =
         take k (drop (unat off)
           (replicate 512 0 @ take 512 data @ replicate (512 - length data) 0)))"
proof -
  define r where "r = map_fixture_reader data"
  have ok: "source_ok oc cd (aff4_source_new r)"
    using map_fixture_bounded map_fixture_map_ok
    by (simp add: source_ok_def aff4_source_new_def virtual_disk_size_def r_def reader_ok_def
        word_less_nat_alt)
  have len: "unat (src_len (aff4_source_new r)) = 1024"
    by (simp add: aff4_source_new_def virtual_disk_size_def r_def)
  have bytes: "disk_byte oc cd (src_inner (aff4_source_new r)) p =
      Some ((replicate 512 0 @ padded_chunk data) ! p)"
    if "p < unat (src_len (aff4_source_new r))" for p
    using map_fixture_byte that len by (simp add: aff4_source_new_def r_def)
  have lenp: "unat (src_len (aff4_source_new r)) \<le> length (replicate 512 0 @ padded_chunk data)"
    by (simp add: len)
  have pad: "padded_chunk data = take 512 data @ replicate (512 - length data) 0"
    by (simp add: padded_chunk_def chunk_size_const_def)
  have "fst (read_at oc cd (aff4_source_new r) off buf) = Inr k \<and>
      take k (fst (snd (read_at oc cd (aff4_source_new r) off buf))) =
        take k (drop (unat off) (replicate 512 0 @ padded_chunk data))"
    if "unat off < 2 ^ 63" "k = min (length buf) (1024 - unat off)" for off buf k
    using read_at_whole [OF ok that(1) bytes lenp, of buf] that(2) by (simp only: len simp_thms)
  moreover have "open_reader zo sr (test_aff4_map zip_pack data) = Inr r"
    unfolding r_def by (rule map_fixture_opens) (rule assms)+
  moreover have "virtual_disk_size r = 1024" by (simp add: virtual_disk_size_def r_def)
  ultimately show ?thesis unfolding pad by blast
qed

lemma map_fixture_reads_back_witness:
  "\<exists>r. open_reader (\<lambda>_. Inr (archive_of (map_entries [7, 8]))) safe_read_impl
      (test_aff4_map (\<lambda>_. []) [7, 8]) = Inr r \<and>
    fst (read_at True demo_codecs (aff4_source_new r) 511 [9, 9, 9]) = Inr 3 \<and>
    take 3 (fst (snd (read_at True demo_codecs (aff4_source_new r) 511 [9, 9, 9]))) = [0, 7, 8]"
proof -
  let ?zo = "\<lambda>_ :: bytes. Inr (archive_of (map_entries [7, 8]))"
  have "?zo (test_aff4_map (\<lambda>_. []) [7, 8]) = (Inr (archive_of (map_entries [7, 8])) :: string + zip_archive)"
    by (rule refl)
  from map_fixture_reads_back [of ?zo "\<lambda>_. []" "[7, 8]", OF this safe_read_impl_law, of True demo_codecs]
  obtain r where o: "open_reader ?zo safe_read_impl (test_aff4_map (\<lambda>_. []) [7, 8]) = Inr r"
    and rd: "\<And>off buf k. unat off < 2 ^ 63 \<Longrightarrow> k = min (length buf) (1024 - unat off) \<Longrightarrow>
       fst (read_at True demo_codecs (aff4_source_new r) off buf) = Inr k \<and>
       take k (fst (snd (read_at True demo_codecs (aff4_source_new r) off buf))) =
         take k (drop (unat off)
           (replicate 512 0 @ take 512 [7, 8] @ replicate (512 - length [7 :: u8, 8]) 0))"
    by blast
  have "fst (read_at True demo_codecs (aff4_source_new r) 511 [9, 9, 9]) = Inr 3 \<and>
      take 3 (fst (snd (read_at True demo_codecs (aff4_source_new r) 511 [9, 9, 9]))) =
        take 3 (drop (unat (511 :: u64))
          (replicate 512 0 @ take 512 [7, 8] @ replicate (512 - length [7 :: u8, 8]) 0))"
    by (rule rd) simp_all
  moreover have "take 3 (drop (unat (511 :: u64))
      (replicate 512 0 @ take 512 [7, 8] @ replicate (512 - length [7 :: u8, 8]) 0)) = [0, 7, 8 :: u8]"
    by (simp add: numeral_3_eq_3)
  ultimately show ?thesis using o by auto
qed

end
