(* ===== verification/File_Tests.thy ===== *)
theory File_Tests
  imports Unit_Tests Map_Fixture Fuzz_Targets Std_Read
begin

text \<open>
  The unit tests that open a fixture from a file, as their assertions on the model, and that they
  hold. The temporary file and the ZIP writer and reader are parameters with the law the tests
  rely on: a written file reads back, and the archive has the entries that were written.
\<close>

section \<open>What the tests use\<close>

definition temp_ok :: "temp_file \<Rightarrow> bool" where
  "temp_ok tmp \<longleftrightarrow> (\<forall>data. case tmp data of (fs, path) \<Rightarrow> fs path = Inr data)"

definition zip_ok :: "zip_writer \<Rightarrow> zip_opener \<Rightarrow> (string \<times> bytes) list \<Rightarrow> bool" where
  "zip_ok zip_pack zo es \<longleftrightarrow> zo (zip_pack es) = Inr (archive_of es)"

definition open_tmp :: "zip_opener \<Rightarrow> safe_read \<Rightarrow> temp_file \<Rightarrow> bytes \<Rightarrow> aff4_reader aff4_result" where
  "open_tmp zo sr tmp data = (case tmp data of (fs, path) \<Rightarrow> open_path fs zo sr path)"

definition kind_tmp :: "zip_opener \<Rightarrow> temp_file \<Rightarrow> bytes \<Rightarrow> kind_of_container aff4_result" where
  "kind_tmp zo tmp data = (case tmp data of (fs, path) \<Rightarrow> container_kind fs zo path)"

lemma open_tmp_reader:
  assumes "temp_ok tmp"
  shows "open_tmp zo sr tmp data = open_reader zo sr data"
proof -
  obtain fs path where t: "tmp data = (fs, path)" by fastforce
  have "fs path = Inr data" using assms spec [of "\<lambda>d. case tmp d of (fs, path) \<Rightarrow> fs path = Inr d" data] t
    by (simp add: temp_ok_def)
  with t show ?thesis by (simp add: open_tmp_def open_path_def open_file_def)
qed

lemma kind_tmp_open:
  assumes "temp_ok tmp"
  shows "kind_tmp zo tmp data =
    and_then (zip_archive_new zo data) (\<lambda>archive.
    and_then (information_turtle archive) (\<lambda>turtle.
    and_then (parse_logical_files turtle) (\<lambda>files.
      if files \<noteq> [] then Inr Logical
      else (case parse_turtle turtle of
              Inr _ \<Rightarrow> Inr Disk
            | Inl (Err (Encrypted _)) \<Rightarrow> Inr EncryptedContainer
            | Inl e \<Rightarrow> Inl e))))"
proof -
  obtain fs path where t: "tmp data = (fs, path)" by fastforce
  have "fs path = Inr data" using assms spec [of "\<lambda>d. case tmp d of (fs, path) \<Rightarrow> fs path = Inr d" data] t
    by (simp add: temp_ok_def)
  with t show ?thesis by (simp add: kind_tmp_def container_kind_def open_file_def)
qed

lemma kind_tmp_unfold:
  assumes "temp_ok tmp" and "zo data = Inr a" and "information_turtle a = Inr t"
  shows "kind_tmp zo tmp data =
     and_then (parse_logical_files t) (\<lambda>parsed.
       if parsed \<noteq> [] then Inr Logical
       else (case parse_turtle t of Inr _ \<Rightarrow> Inr Disk
             | Inl (Err (Encrypted _)) \<Rightarrow> Inr EncryptedContainer | Inl e \<Rightarrow> Inl e))"
  using assms(2,3) by (simp add: kind_tmp_open [OF assms(1)] zip_archive_new_def)

section \<open>The tests of lib.rs\<close>

text \<open>The file-based tests run in one environment: the temporary file, the ZIP crates, the codecs.\<close>

definition container_kind_classifies_disk_image :: "temp_file \<Rightarrow> zip_writer \<Rightarrow> zip_opener \<Rightarrow> bool" where
  "container_kind_classifies_disk_image tmp zip_pack zo \<longleftrightarrow>
     kind_tmp zo tmp (test_aff4 zip_pack (replicate 512 0)) = Inr Disk"

definition container_kind_classifies_encrypted :: "temp_file \<Rightarrow> zip_writer \<Rightarrow> zip_opener \<Rightarrow> bool" where
  "container_kind_classifies_encrypted tmp zip_pack zo \<longleftrightarrow>
     kind_tmp zo tmp (test_aff4_encrypted zip_pack) = Inr EncryptedContainer"

definition container_kind_rejects_non_aff4 :: "temp_file \<Rightarrow> zip_writer \<Rightarrow> zip_opener \<Rightarrow> bool" where
  "container_kind_rejects_non_aff4 tmp zip_pack zo \<longleftrightarrow>
     is_err (kind_tmp zo tmp (zip_pack [(''random.txt'', bytes_of_string ''nope'')]))"

definition case_notes_turtle :: string where
  "case_notes_turtle =
     ''@prefix aff4: <http://aff4.org/Schema#> .'' @ line_feed @
     ''<aff4://x> a aff4:CaseNotes .'' @ line_feed"

definition container_kind_errors_on_unclassifiable_turtle ::
    "temp_file \<Rightarrow> zip_writer \<Rightarrow> zip_opener \<Rightarrow> bool" where
  "container_kind_errors_on_unclassifiable_turtle tmp zip_pack zo \<longleftrightarrow>
     is_bad_format (kind_tmp zo tmp
       (zip_pack [(''information.turtle'', bytes_of_string case_notes_turtle)]))"

definition chunk_size_zero_rejected ::
    "temp_file \<Rightarrow> zip_writer \<Rightarrow> zip_opener \<Rightarrow> safe_read \<Rightarrow> bool" where
  "chunk_size_zero_rejected tmp zip_pack zo sr \<longleftrightarrow>
     is_err (open_tmp zo sr tmp (test_aff4_with_geometry zip_pack 0 1))"

definition chunks_per_segment_zero_rejected ::
    "temp_file \<Rightarrow> zip_writer \<Rightarrow> zip_opener \<Rightarrow> safe_read \<Rightarrow> bool" where
  "chunks_per_segment_zero_rejected tmp zip_pack zo sr \<longleftrightarrow>
     is_err (open_tmp zo sr tmp (test_aff4_with_geometry zip_pack 512 0))"

definition open_nonexistent_returns_err :: "file_system \<Rightarrow> zip_opener \<Rightarrow> safe_read \<Rightarrow> bool" where
  "open_nonexistent_returns_err fs zo sr \<longleftrightarrow>
     is_err (open_path fs zo sr ''/tmp/nope_aff4_issen.aff4'')"

definition open_non_zip_returns_err :: "temp_file \<Rightarrow> zip_opener \<Rightarrow> safe_read \<Rightarrow> bool" where
  "open_non_zip_returns_err tmp zo sr \<longleftrightarrow> is_err (open_tmp zo sr tmp (replicate 1024 0))"

definition open_zip_without_turtle_returns_err ::
    "temp_file \<Rightarrow> zip_writer \<Rightarrow> zip_opener \<Rightarrow> safe_read \<Rightarrow> bool" where
  "open_zip_without_turtle_returns_err tmp zip_pack zo sr \<longleftrightarrow>
     is_err (open_tmp zo sr tmp (zip_pack [(''dummy.txt'', [])]))"

definition encrypted_stream_is_detected_and_refused ::
    "temp_file \<Rightarrow> zip_writer \<Rightarrow> zip_opener \<Rightarrow> safe_read \<Rightarrow> bool" where
  "encrypted_stream_is_detected_and_refused tmp zip_pack zo sr \<longleftrightarrow>
     (case open_tmp zo sr tmp (test_aff4_encrypted zip_pack) of
        Inl (Err e) \<Rightarrow> (case e of Encrypted _ \<Rightarrow> True | _ \<Rightarrow> False) \<and>
          contains (to_ascii_lowercase (aff4_error_display e)) ''encrypt''
      | _ \<Rightarrow> False)"

definition virtual_disk_size_matches_metadata ::
    "temp_file \<Rightarrow> zip_writer \<Rightarrow> zip_opener \<Rightarrow> safe_read \<Rightarrow> bool" where
  "virtual_disk_size_matches_metadata tmp zip_pack zo sr \<longleftrightarrow>
     (case open_tmp zo sr tmp (test_aff4 zip_pack (replicate 512 0)) of
        Inr reader \<Rightarrow> virtual_disk_size reader = word_of_nat chunk_size_const
      | Inl _ \<Rightarrow> False)"

text \<open>Seek, then read exactly: the outcome and the buffer.\<close>

definition seek_and_read ::
    "bool \<Rightarrow> codecs \<Rightarrow> aff4_reader aff4_result \<Rightarrow> seek_from \<Rightarrow> bytes \<Rightarrow> (u64 \<times> bytes) option" where
  "seek_and_read oc cd opened whence buf =
     (case opened of
        Inr reader \<Rightarrow>
          (case aff4_seek oc reader whence of
             Inr (pos, reader') \<Rightarrow>
               (case read_exact oc cd reader' buf of (Inr _, buf', _) \<Rightarrow> Some (pos, buf') | _ \<Rightarrow> None)
           | Inl _ \<Rightarrow> None)
      | Inl _ \<Rightarrow> None)"

definition cafe_data :: bytes where
  "cafe_data = (replicate 512 0)[10 := 0xCA, 11 := 0xFE]"

definition read_returns_correct_bytes ::
    "bool \<Rightarrow> codecs \<Rightarrow> temp_file \<Rightarrow> zip_writer \<Rightarrow> zip_opener \<Rightarrow> safe_read \<Rightarrow> bool" where
  "read_returns_correct_bytes oc cd tmp zip_pack zo sr \<longleftrightarrow>
     seek_and_read oc cd (open_tmp zo sr tmp (test_aff4 zip_pack cafe_data)) (Start 10) [0, 0] =
       Some (10, [0xCA, 0xFE])"

definition seek_from_end_works ::
    "bool \<Rightarrow> codecs \<Rightarrow> temp_file \<Rightarrow> zip_writer \<Rightarrow> zip_opener \<Rightarrow> safe_read \<Rightarrow> bool" where
  "seek_from_end_works oc cd tmp zip_pack zo sr \<longleftrightarrow>
     seek_and_read oc cd (open_tmp zo sr tmp (test_aff4 zip_pack (replicate 512 0xAB)))
       (End (- 1)) [0] = Some (511, [0xAB])"

definition read_past_end_returns_zero_bytes ::
    "bool \<Rightarrow> codecs \<Rightarrow> temp_file \<Rightarrow> zip_writer \<Rightarrow> zip_opener \<Rightarrow> safe_read \<Rightarrow> bool" where
  "read_past_end_returns_zero_bytes oc cd tmp zip_pack zo sr \<longleftrightarrow>
     (case open_tmp zo sr tmp (test_aff4 zip_pack (replicate 512 0)) of
        Inr reader \<Rightarrow>
          (case aff4_seek oc reader (Start 512) of
             Inr (_, reader') \<Rightarrow>
               (case aff4_read oc cd reader' [0, 0, 0, 0] of Inr (n, _, _) \<Rightarrow> n = 0 | Inl _ \<Rightarrow> False)
           | Inl _ \<Rightarrow> False)
      | Inl _ \<Rightarrow> False)"

definition seek_before_start_is_err ::
    "bool \<Rightarrow> temp_file \<Rightarrow> zip_writer \<Rightarrow> zip_opener \<Rightarrow> safe_read \<Rightarrow> bool" where
  "seek_before_start_is_err oc tmp zip_pack zo sr \<longleftrightarrow>
     (case open_tmp zo sr tmp (test_aff4 zip_pack (replicate 512 0)) of
        Inr reader \<Rightarrow> is_err (aff4_seek oc reader (Current (- 1)))
      | Inl _ \<Rightarrow> False)"

definition map_virtual_size_from_map_block_not_image_stream ::
    "temp_file \<Rightarrow> zip_writer \<Rightarrow> zip_opener \<Rightarrow> safe_read \<Rightarrow> bool" where
  "map_virtual_size_from_map_block_not_image_stream tmp zip_pack zo sr \<longleftrightarrow>
     (case open_tmp zo sr tmp (test_aff4_map zip_pack (replicate 512 0)) of
        Inr reader \<Rightarrow> virtual_disk_size reader = 1024
      | Inl _ \<Rightarrow> False)"

definition map_stream_gap_reads_zeros ::
    "bool \<Rightarrow> codecs \<Rightarrow> temp_file \<Rightarrow> zip_writer \<Rightarrow> zip_opener \<Rightarrow> safe_read \<Rightarrow> bool" where
  "map_stream_gap_reads_zeros oc cd tmp zip_pack zo sr \<longleftrightarrow>
     (case open_tmp zo sr tmp (test_aff4_map zip_pack (replicate 512 0xDD)) of
        Inr reader \<Rightarrow>
          (case read_exact oc cd reader (replicate 512 0xFF) of
             (Inr _, buf, _) \<Rightarrow> buf = replicate 512 0
           | _ \<Rightarrow> False)
      | Inl _ \<Rightarrow> False)"

definition map_stream_image_region_reads_correct_data ::
    "bool \<Rightarrow> codecs \<Rightarrow> temp_file \<Rightarrow> zip_writer \<Rightarrow> zip_opener \<Rightarrow> safe_read \<Rightarrow> bool" where
  "map_stream_image_region_reads_correct_data oc cd tmp zip_pack zo sr \<longleftrightarrow>
     seek_and_read oc cd (open_tmp zo sr tmp (test_aff4_map zip_pack (replicate 512 0xDD)))
       (Start 512) (replicate 512 0) = Some (512, replicate 512 0xDD)"

section \<open>They hold\<close>

lemma seek_and_read_disk:
  assumes "opened = Inr r" and "reader_ok r" "chunks_bounded oc cd r"
    and "aff4_seek oc r whence = Inr (p, r\<lparr>rd_pos := p\<rparr>)"
    and "unat p + length buf \<le> unat (rd_virtual_size r)"
    and "\<And>q. q < unat (rd_virtual_size r) \<Longrightarrow> disk_byte oc cd r q = Some (content ! q)"
    and "unat (rd_virtual_size r) \<le> length content"
  shows "seek_and_read oc cd opened whence buf = Some (p, take (length buf) (drop (unat p) content))"
proof -
  have "\<exists>r'. read_exact oc cd (r\<lparr>rd_pos := p\<rparr>) buf =
      (Inr (), take (length buf) (drop (unat (rd_pos (r\<lparr>rd_pos := p\<rparr>))) content), r')"
  proof (rule read_exact_fills)
    fix q assume "q < unat (rd_virtual_size (r\<lparr>rd_pos := p\<rparr>))"
    then show "disk_byte oc cd (r\<lparr>rd_pos := p\<rparr>) q = Some (content ! q)"
      using assms(6) [of q] by simp
  qed (use assms(2,3,5,7) in simp_all)
  then obtain r' where "read_exact oc cd (r\<lparr>rd_pos := p\<rparr>) buf =
      (Inr (), take (length buf) (drop (unat p) content), r')"
    by auto
  then show ?thesis by (simp add: seek_and_read_def assms(1,4))
qed

abbreviation null_entries :: "bytes \<Rightarrow> (string \<times> bytes) list" where
  "null_entries data \<equiv> single_chunk_entries ''aff4:NullCompressor'' (padded_chunk data)"

definition null_reader :: "bytes \<Rightarrow> aff4_reader" where
  "null_reader data = stream_reader (null_entries data) 512 512 1"

lemma open_test_aff4:
  assumes "temp_ok tmp" and "zip_ok zip_pack zo (null_entries data)"
  shows "open_tmp zo sr tmp (test_aff4 zip_pack data) = Inr (null_reader data)"
  using assms unfolding open_tmp_reader [OF assms(1)] null_reader_def
  by (intro fixture_opens_reader) (simp add: zip_ok_def test_aff4_def)

lemma null_reader_fields [simp]:
  "rd_virtual_size (null_reader data) = 512" "rd_pos (null_reader data) = 0"
  by (simp_all add: null_reader_def stream_reader_def)

lemma padded_full: "length data = 512 \<Longrightarrow> padded_chunk data = data"
  by (simp add: padded_chunk_def chunk_size_const_def)

lemma null_turtle:
  "information_turtle (archive_of (null_entries data)) = Inr (stream_turtle 512 512 1)"
  by (rule read_text_entry [OF single_chunk_turtle ascii_stream_turtle])

lemma no_logical_files: "parse_logical_files (stream_turtle 512 512 1) = Inr []"
  by code_simp

lemma disk_image_test_passes:
  assumes "temp_ok tmp" and "zip_ok zip_pack zo (null_entries (replicate 512 0))"
  shows "container_kind_classifies_disk_image tmp zip_pack zo"
proof -
  have z: "zo (test_aff4 zip_pack (replicate 512 0)) = Inr (archive_of (null_entries (replicate 512 0)))"
    using assms(2) by (simp add: zip_ok_def test_aff4_def)
  show ?thesis
    using kind_tmp_unfold [of tmp zo "test_aff4 zip_pack (replicate 512 0)"
        "archive_of (null_entries (replicate 512 0))" "stream_turtle 512 512 1"] assms(1) z null_turtle
    by (simp add: container_kind_classifies_disk_image_def no_logical_files parse_stream_turtle [of 512 512 1]
        del: One_nat_def)
qed

definition encrypted_fixture_turtle :: string where
  "encrypted_fixture_turtle =
     turtle_prefixes @
     ''<'' @ stream_arn_const @ ''> rdf:type aff4:EncryptedStream ; '' @
     ''aff4:size 4096 ; '' @
     ''aff4:chunkSize '' @ dec chunk_size_const @ '' ; '' @
     ''aff4:chunksInSegment 1 ; '' @
     ''aff4:keyBag <'' @ stream_arn_const @ ''/keybag> ; '' @
     ''aff4:compressionMethod aff4:NullCompressor .'' @ line_feed @
     ''<'' @ stream_arn_const @ ''/keybag> rdf:type aff4:PasswordWrappedKeyBag ; '' @
     ''aff4:keySizeInBytes 32 ; '' @
     ''aff4:salt '' @ [CHR 0x22] @ ''00112233445566778899aabbccddeeff'' @ [CHR 0x22] @ '' ; '' @
     ''aff4:wrappedKey '' @ [CHR 0x22] @ ''deadbeef'' @ [CHR 0x22] @ '' .'' @ line_feed"

lemma encrypted_fixture_turtle:
  "information_turtle (archive_of encrypted_entries) = Inr encrypted_fixture_turtle"
proof -
  have "ascii_text encrypted_fixture_turtle" by code_simp
  then show ?thesis
    by (intro read_text_entry) (simp_all add: encrypted_entries_def encrypted_fixture_turtle_def)
qed

lemma encrypted_fixture_parses:
  "parse_turtle encrypted_fixture_turtle =
     Inl (Err (Encrypted (encrypted_refusal ''aff4://issen-test-stream'')))"
  "parse_logical_files encrypted_fixture_turtle = Inr []"
proof -
  let ?enc = "\<lambda>b. contains b ''aff4:EncryptedStream''"
  have a: "ascii_text encrypted_fixture_turtle" by code_simp
  have "map_option first_iri (find ?enc (turtle_blocks encrypted_fixture_turtle)) =
      Some (Some ''aff4://issen-test-stream'')"
    by code_simp
  then obtain b where b: "find ?enc (turtle_blocks encrypted_fixture_turtle) = Some b"
    and iri: "first_iri b = Some ''aff4://issen-test-stream''" by auto
  then show "parse_turtle encrypted_fixture_turtle =
     Inl (Err (Encrypted (encrypted_refusal ''aff4://issen-test-stream'')))"
    by (simp add: parse_turtle_def extract_iri_eq [OF ascii_block_ok [OF a found_block [OF b]]])
  have "filter (\<lambda>b. contains b ''aff4:FileImage'') (turtle_blocks encrypted_fixture_turtle) = []"
    by code_simp
  then show "parse_logical_files encrypted_fixture_turtle = Inr []"
    by (simp add: parse_logical_files_def)
qed

lemma encrypted_tests_pass:
  assumes "temp_ok tmp" and "zip_ok zip_pack zo encrypted_entries"
  shows "container_kind_classifies_encrypted tmp zip_pack zo"
    and "encrypted_stream_is_detected_and_refused tmp zip_pack zo sr"
proof -
  have z: "zo (test_aff4_encrypted zip_pack) = Inr (archive_of encrypted_entries)"
    using assms(2) by (simp add: zip_ok_def test_aff4_encrypted_def)
  show "container_kind_classifies_encrypted tmp zip_pack zo"
    using kind_tmp_unfold [of tmp zo "test_aff4_encrypted zip_pack" "archive_of encrypted_entries"
        encrypted_fixture_turtle] assms(1) z encrypted_fixture_turtle
    by (simp add: container_kind_classifies_encrypted_def encrypted_fixture_parses)
  have "contains (to_ascii_lowercase (aff4_error_display
      (Encrypted (encrypted_refusal ''aff4://issen-test-stream'')))) ''encrypt''"
    by code_simp
  moreover have "open_reader zo sr (test_aff4_encrypted zip_pack) =
      Inl (Err (Encrypted (encrypted_refusal ''aff4://issen-test-stream'')))"
    by (simp add: open_reader_def zip_archive_new_def z encrypted_fixture_turtle encrypted_fixture_parses)
  ultimately show "encrypted_stream_is_detected_and_refused tmp zip_pack zo sr"
    by (simp add: encrypted_stream_is_detected_and_refused_def open_tmp_reader [OF assms(1)])
qed

lemma zip_without_turtle_tests_pass:
  assumes "temp_ok tmp"
  shows "zip_ok zip_pack zo [(''random.txt'', bytes_of_string ''nope'')] \<Longrightarrow>
      container_kind_rejects_non_aff4 tmp zip_pack zo"
    and "zip_ok zip_pack zo [(''dummy.txt'', [])] \<Longrightarrow>
      open_zip_without_turtle_returns_err tmp zip_pack zo sr"
proof -
  have missing: "information_turtle (archive_of [(n, d)]) = Inl (Err (Zip ''entry not found''))"
    if "n \<noteq> ''information.turtle''" for n d
    using that by (simp add: information_turtle_def by_name_def archive_of_def)
  show "container_kind_rejects_non_aff4 tmp zip_pack zo"
    if "zip_ok zip_pack zo [(''random.txt'', bytes_of_string ''nope'')]"
    using that
    by (simp add: container_kind_rejects_non_aff4_def kind_tmp_open [OF assms] zip_ok_def
        zip_archive_new_def missing)
  show "open_zip_without_turtle_returns_err tmp zip_pack zo sr"
    if "zip_ok zip_pack zo [(''dummy.txt'', [])]"
    using that
    by (simp add: open_zip_without_turtle_returns_err_def open_tmp_reader [OF assms] zip_ok_def
        open_reader_def zip_archive_new_def missing)
qed

lemma not_a_container_tests_pass:
  "fs ''/tmp/nope_aff4_issen.aff4'' = Inl e \<Longrightarrow> open_nonexistent_returns_err fs zo sr"
  "temp_ok tmp \<Longrightarrow> zo (replicate 1024 0) = Inl m \<Longrightarrow> open_non_zip_returns_err tmp zo sr"
  by (simp_all add: open_nonexistent_returns_err_def open_non_zip_returns_err_def open_tmp_reader
      open_path_def open_file_def open_reader_def zip_archive_new_def)

lemma unclassifiable_test_passes:
  assumes "temp_ok tmp"
    and "zip_ok zip_pack zo [(''information.turtle'', bytes_of_string case_notes_turtle)]"
  shows "container_kind_errors_on_unclassifiable_turtle tmp zip_pack zo"
proof -
  let ?a = "archive_of [(''information.turtle'', bytes_of_string case_notes_turtle)]"
  have "ascii_text case_notes_turtle" by code_simp
  then have t: "information_turtle ?a = Inr case_notes_turtle" by (intro read_text_entry) simp_all
  have "parse_logical_files case_notes_turtle = Inr []" by code_simp
  moreover have "parse_turtle case_notes_turtle = Inl (bad_format ''no aff4:ImageStream found in metadata'')"
    by code_simp
  ultimately show ?thesis
    using kind_tmp_unfold [of tmp zo _ ?a case_notes_turtle, OF assms(1) _ t] assms(2)
    by (simp add: container_kind_errors_on_unclassifiable_turtle_def zip_ok_def)
qed

lemma geometry_tests_pass:
  assumes "temp_ok tmp"
  shows "zip_ok zip_pack zo (geometry_entries 0 1) \<Longrightarrow> chunk_size_zero_rejected tmp zip_pack zo sr"
    and "zip_ok zip_pack zo (geometry_entries 512 0) \<Longrightarrow>
      chunks_per_segment_zero_rejected tmp zip_pack zo sr"
proof -
  have rejected: "is_err (open_reader zo sr (test_aff4_with_geometry zip_pack cs cps))"
    if "zip_ok zip_pack zo (geometry_entries cs cps)" "cs = 0 \<or> cps = 0" for cs cps
  proof -
    have z: "zo (test_aff4_with_geometry zip_pack cs cps) = Inr (archive_of (geometry_entries cs cps))"
      using that(1) by (simp add: zip_ok_def test_aff4_with_geometry_def)
    have "open_reader zo sr (test_aff4_with_geometry zip_pack cs cps) =
      (if unat cs = 0 then Inl (bad_format ''aff4:chunkSize must be > 0'')
       else if unat cps = 0 then Inl (bad_format ''aff4:chunksInSegment must be > 0'')
       else Inr (stream_reader (geometry_entries cs cps) 512 (unat cs) (unat cps)))"
      by (rule open_stream_archive) (rule z, rule geometry_turtle, simp_all)
    with that(2) show ?thesis by auto
  qed
  show "chunk_size_zero_rejected tmp zip_pack zo sr" if "zip_ok zip_pack zo (geometry_entries 0 1)"
    using rejected [OF that] by (simp add: chunk_size_zero_rejected_def open_tmp_reader [OF assms])
  show "chunks_per_segment_zero_rejected tmp zip_pack zo sr"
    if "zip_ok zip_pack zo (geometry_entries 512 0)"
    using rejected [OF that] by (simp add: chunks_per_segment_zero_rejected_def open_tmp_reader [OF assms])
qed

text \<open>The tests on the single-chunk image.\<close>

lemma null_reader_disk:
  assumes "length data = 512"
  shows "reader_ok (null_reader data)" and "chunks_bounded oc cd (null_reader data)"
    and "q < 512 \<Longrightarrow> disk_byte oc cd (null_reader data) q = Some (data ! q)"
proof -
  have "length (padded_chunk data) = 512" by simp
  note disk = single_chunk_disk [OF this, folded null_reader_def]
  show "reader_ok (null_reader data)" "chunks_bounded oc cd (null_reader data)" by (rule disk)+
  show "q < 512 \<Longrightarrow> disk_byte oc cd (null_reader data) q = Some (data ! q)"
    using disk(3) [of q oc cd] by (simp add: padded_full [OF assms])
qed

lemma size_test_passes:
  assumes "temp_ok tmp" and "zip_ok zip_pack zo (null_entries (replicate 512 0))"
  shows "virtual_disk_size_matches_metadata tmp zip_pack zo sr"
    and "seek_before_start_is_err oc tmp zip_pack zo sr"
    and "read_past_end_returns_zero_bytes oc cd tmp zip_pack zo sr"
proof -
  let ?r = "null_reader (replicate 512 0)"
  note o = open_test_aff4 [OF assms, of sr]
  show "virtual_disk_size_matches_metadata tmp zip_pack zo sr"
    by (simp add: virtual_disk_size_matches_metadata_def o virtual_disk_size_def
        chunk_size_const_def)
  have "aff4_seek oc ?r (Current (- 1)) = Inl (Err seek_error)"
    by (subst aff4_seek_eq) simp_all
  then show "seek_before_start_is_err oc tmp zip_pack zo sr"
    by (simp add: seek_before_start_is_err_def o)
  have "aff4_seek oc ?r (Start 512) = Inr (512, ?r\<lparr>rd_pos := 512\<rparr>)"
    by (simp add: aff4_seek_start)
  moreover have "aff4_read oc cd (?r\<lparr>rd_pos := 512\<rparr>) [0, 0, 0, 0] = Inr (0, [0, 0, 0, 0], ?r\<lparr>rd_pos := 512\<rparr>)"
    by (simp add: aff4_read_eq)
  ultimately show "read_past_end_returns_zero_bytes oc cd tmp zip_pack zo sr"
    by (simp add: read_past_end_returns_zero_bytes_def o)
qed

lemma read_test_passes:
  assumes "temp_ok tmp" and "zip_ok zip_pack zo (null_entries cafe_data)"
  shows "read_returns_correct_bytes oc cd tmp zip_pack zo sr"
proof -
  have len: "length cafe_data = 512" by (simp add: cafe_data_def)
  have "seek_and_read oc cd (open_tmp zo sr tmp (test_aff4 zip_pack cafe_data)) (Start 10) [0, 0] =
      Some (10, take (length [0 :: u8, 0]) (drop (unat (10 :: u64)) cafe_data))"
    by (rule seek_and_read_disk [OF open_test_aff4 [OF assms] null_reader_disk(1,2) [OF len]])
      (simp_all add: aff4_seek_start len null_reader_disk(3) [OF len])
  moreover have "take 2 (drop 10 cafe_data) = [cafe_data ! 10, cafe_data ! 11]"
    by (rule nth_equalityI) (auto simp: len less_2_cases_iff)
  moreover have "cafe_data ! 10 = 0xCA" "cafe_data ! 11 = 0xFE" by (simp_all add: cafe_data_def)
  moreover have "length [0 :: u8, 0] = 2" "unat (10 :: u64) = 10" by simp_all
  ultimately show ?thesis by (simp only: read_returns_correct_bytes_def)
qed

lemma seek_end_test_passes:
  assumes "temp_ok tmp" and "zip_ok zip_pack zo (null_entries (replicate 512 0xAB))"
  shows "seek_from_end_works oc cd tmp zip_pack zo sr"
proof -
  have len: "length (replicate 512 (0xAB :: u8)) = 512" by simp
  have "aff4_seek oc (null_reader (replicate 512 0xAB)) (End (- 1)) =
      Inr (511, (null_reader (replicate 512 0xAB))\<lparr>rd_pos := 511\<rparr>)"
    by (subst aff4_seek_eq) simp_all
  from seek_and_read_disk [OF open_test_aff4 [OF assms] null_reader_disk(1,2) [OF len] this,
      where buf = "[0]" and content = "replicate 512 0xAB"]
  show ?thesis
    by (simp add: seek_from_end_works_def null_reader_disk(3))
qed

text \<open>The tests on the map-backed image.\<close>

lemma map_tests_on_files_pass:
  assumes "temp_ok tmp" and "zip_ok zip_pack zo (map_entries data)" and "safe_read_law sr"
  shows "data = replicate 512 0 \<Longrightarrow> map_virtual_size_from_map_block_not_image_stream tmp zip_pack zo sr"
    and "data = replicate 512 0xDD \<Longrightarrow> map_stream_gap_reads_zeros oc cd tmp zip_pack zo sr"
    and "data = replicate 512 0xDD \<Longrightarrow>
      map_stream_image_region_reads_correct_data oc cd tmp zip_pack zo sr"
proof -
  let ?r = "map_fixture_reader data" and ?c = "replicate 512 0 @ padded_chunk data"
  have "zo (test_aff4_map zip_pack data) = Inr (archive_of (map_entries data))"
    using assms(2) by (simp add: zip_ok_def test_aff4_map_def)
  then have o: "open_tmp zo sr tmp (test_aff4_map zip_pack data) = Inr ?r"
    unfolding open_tmp_reader [OF assms(1)] by (rule map_fixture_opens) (rule assms(3))
  have ok: "reader_ok ?r" using map_fixture_map_ok by (simp add: reader_ok_def)
  note disk = ok map_fixture_bounded [of oc cd data]
  have bytes: "disk_byte oc cd ?r q = Some (?c ! q)" if "q < unat (rd_virtual_size ?r)" for q
    using map_fixture_byte that by simp
  show "map_virtual_size_from_map_block_not_image_stream tmp zip_pack zo sr"
    if "data = replicate 512 0"
    using o that by (simp add: map_virtual_size_from_map_block_not_image_stream_def virtual_disk_size_def)
  have pos: "rd_pos ?r = 0" by (simp add: map_fixture_reader_def)
  have front: "take (length buf) (drop (unat (rd_pos ?r)) ?c) = replicate 512 0"
    if "length buf = 512" for buf :: bytes
    using that by (simp add: pos)
  have "\<exists>r'. read_exact oc cd ?r (replicate 512 0xFF) =
      (Inr (), take (length (replicate 512 (0xFF :: u8))) (drop (unat (rd_pos ?r)) ?c), r')"
    by (rule read_exact_fills [OF disk _ bytes]) (simp_all add: pos)
  then obtain r' where "read_exact oc cd ?r (replicate 512 0xFF) = (Inr (), replicate 512 0, r')"
    unfolding front [OF length_replicate] by blast
  then show "map_stream_gap_reads_zeros oc cd tmp zip_pack zo sr" if "data = replicate 512 0xDD"
    unfolding map_stream_gap_reads_zeros_def o [unfolded that] that by (simp only: sum.case prod.case)
  have second: "take (length buf) (drop (unat (512 :: u64)) ?c) = padded_chunk data"
    if "length buf = 512" for buf :: bytes
    using that by simp
  have "seek_and_read oc cd (open_tmp zo sr tmp (test_aff4_map zip_pack data)) (Start 512) (replicate 512 0) =
      Some (512, take (length (replicate 512 (0 :: u8))) (drop (unat (512 :: u64)) ?c))"
  proof (rule seek_and_read_disk [OF o disk _ _ bytes])
    show "aff4_seek oc ?r (Start 512) = Inr (512, ?r\<lparr>rd_pos := 512\<rparr>)"
      by (subst aff4_seek_start) simp
  qed simp_all
  then show "map_stream_image_region_reads_correct_data oc cd tmp zip_pack zo sr"
    if "data = replicate 512 0xDD"
    unfolding map_stream_image_region_reads_correct_data_def second [OF length_replicate]
    using that padded_full [of data] by simp
qed

section \<open>The tests of logical.rs and of the audit\<close>

definition open_logical_tmp :: "zip_opener \<Rightarrow> temp_file \<Rightarrow> bytes \<Rightarrow> logical_container aff4_result" where
  "open_logical_tmp zo tmp data = (case tmp data of (fs, path) \<Rightarrow> logical_open fs zo path)"

definition open_disk_image_as_logical_is_err :: "temp_file \<Rightarrow> zip_writer \<Rightarrow> zip_opener \<Rightarrow> bool" where
  "open_disk_image_as_logical_is_err tmp zip_pack zo \<longleftrightarrow>
     bad_format_with (open_logical_tmp zo tmp (test_aff4 zip_pack (replicate 512 0))) ''FileImage''"

definition missing_segment_turtle :: string where
  "missing_segment_turtle =
     turtle_prefixes @ ''<aff4://vol/missing.txt> rdf:type aff4:FileImage ; aff4:size 3 .'' @ line_feed"

definition file_image_without_segment_is_err :: "temp_file \<Rightarrow> zip_writer \<Rightarrow> zip_opener \<Rightarrow> bool" where
  "file_image_without_segment_is_err tmp zip_pack zo \<longleftrightarrow>
     bad_format_with (open_logical_tmp zo tmp
       (zip_pack [(''information.turtle'', bytes_of_string missing_segment_turtle)]))
       ''no matching ZIP segment''"

definition audit_image_without_hashes_has_no_findings ::
    "bool \<Rightarrow> codecs \<Rightarrow> 'd digests \<Rightarrow> (finding_source \<Rightarrow> aff4_anomaly \<Rightarrow> 'f) \<Rightarrow> temp_file \<Rightarrow>
     zip_writer \<Rightarrow> zip_opener \<Rightarrow> safe_read \<Rightarrow> bool" where
  "audit_image_without_hashes_has_no_findings oc cd ds to_finding tmp zip_pack zo sr \<longleftrightarrow>
     (case tmp (test_aff4 zip_pack (replicate 512 0)) of (fs, path) \<Rightarrow>
        (case audit_image oc cd ds to_finding fs zo sr path of
           Inr findings \<Rightarrow> length findings = 0
         | Inl _ \<Rightarrow> False))"

lemma open_logical_tmp_reader:
  assumes "temp_ok tmp"
  shows "open_logical_tmp zo tmp data = logical_open_reader zo data"
proof -
  obtain fs path where t: "tmp data = (fs, path)" by fastforce
  have "fs path = Inr data" using assms spec [of "\<lambda>d. case tmp d of (fs, path) \<Rightarrow> fs path = Inr d" data] t
    by (simp add: temp_ok_def)
  with t show ?thesis by (simp add: open_logical_tmp_def logical_open_def open_file_def)
qed

lemma disk_image_as_logical_test_passes:
  assumes "temp_ok tmp" and "zip_ok zip_pack zo (null_entries (replicate 512 0))"
  shows "open_disk_image_as_logical_is_err tmp zip_pack zo"
proof -
  have z: "zip_archive_new zo (test_aff4 zip_pack (replicate 512 0)) =
      Inr (archive_of (null_entries (replicate 512 0)))"
    using assms(2) by (simp add: zip_ok_def test_aff4_def zip_archive_new_def)
  have m: "contains (''no aff4:FileImage entries found '' @ [CHR 0xE2, CHR 0x80, CHR 0x94] @
      '' not an AFF4-Logical container'') ''FileImage''"
    by code_simp
  show ?thesis
    unfolding open_disk_image_as_logical_is_err_def open_logical_tmp_reader [OF assms(1)]
      logical_open_reader_def z and_then_simps null_turtle no_logical_files
    using m by (simp only: simp_thms if_True bad_format_with.simps)
qed

lemma missing_segment_test_passes:
  assumes "temp_ok tmp"
    and "zip_ok zip_pack zo [(''information.turtle'', bytes_of_string missing_segment_turtle)]"
  shows "file_image_without_segment_is_err tmp zip_pack zo"
proof -
  let ?es = "[(''information.turtle'', bytes_of_string missing_segment_turtle)]"
  let ?f = "\<lparr>lf_arn = ''aff4://vol/missing.txt'', lf_original_file_name = ''aff4://vol/missing.txt'',
      lf_size = 3, lf_hashes = [], lf_last_written = None\<rparr>"
  have z: "zip_archive_new zo (zip_pack ?es) = Inr (archive_of ?es)"
    using assms(2) by (simp add: zip_ok_def zip_archive_new_def)
  have "ascii_text missing_segment_turtle" by code_simp
  then have t: "information_turtle (archive_of ?es) = Inr missing_segment_turtle"
    by (intro read_text_entry) simp_all
  have f: "parse_logical_files missing_segment_turtle = Inr [?f]" by code_simp
  have "resolve_segment [''information.turtle''] ''aff4://vol/missing.txt'' = Inr None" by code_simp
  then have r: "resolve_file (za_file_names (archive_of ?es)) ?f =
      Inl (bad_format (''FileImage '' @ ''aff4://vol/missing.txt'' @ '' has no matching ZIP segment''))"
    by (simp add: resolve_file_def archive_of_def)
  have m: "contains (''FileImage '' @ ''aff4://vol/missing.txt'' @ '' has no matching ZIP segment'')
      ''no matching ZIP segment''"
    by code_simp
  show ?thesis
    unfolding file_image_without_segment_is_err_def open_logical_tmp_reader [OF assms(1)]
      logical_open_reader_def z and_then_simps t f traverse.simps r list.simps if_False
    using m by (simp only: list.distinct if_False bad_format_with.simps)
qed

lemma audit_test_passes:
  assumes "temp_ok tmp" and "zip_ok zip_pack zo (null_entries (replicate 512 0))"
  shows "audit_image_without_hashes_has_no_findings oc cd ds to_finding tmp zip_pack zo sr"
proof -
  obtain fs path where t: "tmp (test_aff4 zip_pack (replicate 512 0)) = (fs, path)" by fastforce
  have "open_path fs zo sr path = Inr (null_reader (replicate 512 0))"
    using open_test_aff4 [OF assms, of sr] t by (simp add: open_tmp_def)
  moreover have "rd_image_hashes (null_reader d) = []" "rd_loaded_map (null_reader d) = None" for d
    by (simp_all add: null_reader_def stream_reader_def)
  ultimately show ?thesis
    by (simp add: audit_image_without_hashes_has_no_findings_def t audit_image_def
        verify_image_hashes_def stored_image_hashes_def reader_unreadable_regions_def hash_jobs_def
        List.map_filter_simps)
qed

end
