(* ===== verification/Image_Tests.thy ===== *)
theory Image_Tests
  imports File_Tests Logical_Fixture Meta_Properties
begin

text \<open>
  The unit tests of \<^verbatim>\<open>lib.rs\<close> that write their own small image: compressed, sparse and partial
  chunks, an index that lies about its bevy, gaps and unknown targets of a map, an AFF4-Logical
  container. The compressors are parameters, with the law that their output is decompressed again.
\<close>

section \<open>The first chunk of an image\<close>

lemma index_entry_bounds:
  assumes "n < 2 ^ 32"
  shows "chunk_bounds_from_index oc (index_entry 0 (word_of_nat n)) 0 = Inr (0, word_of_nat n)"
proof -
  have u: "unat (word_of_nat n :: u32) = n"
    using assms by (simp add: unat_of_nat take_bit_nat_eq_self)
  have "unat (ucast (word_of_nat n :: u32) :: u64) = unat (word_of_nat n :: u64)"
    using assms u by simp
  then have "(ucast (word_of_nat n :: u32) :: u64) = word_of_nat n" by (simp only: word_unat_eq_iff)
  then show ?thesis
    using bevy.bounds_entry [of 0 "[(0, word_of_nat n)]" 0 "word_of_nat n" oc] assms u by simp
qed

lemma read_chunk_first:
  assumes a: "rd_archive r = archive_of es" "rd_zip_base r = zb" "rd_chunks_per_segment r = 1"
    and index: "map_of es (zb @ ''/00000000.index'') = Some (index_entry 0 (word_of_nat n))"
    and bevy: "map_of es (zb @ ''/00000000'') = Some bevy"
    and n: "n < 2 ^ 32"
  shows "read_chunk oc cd r 0 =
    (if n = 0 then and_then (with_capacity (rd_chunk_size r)) (\<lambda>_. Inr (replicate (unat (rd_chunk_size r)) 0))
     else if length bevy < n then Inl (bounds_error ''chunk'' 0 (word_of_nat n) (length bevy))
     else if n = unat (rd_chunk_size r) then Inr (take n bevy)
     else decompress cd (rd_chunk_size r) (rd_compression r) (take n bevy))"
proof -
  have name: "segment_name zb 0 = zb @ ''/00000000''"
    by (simp add: segment_name_def) code_simp
  have u: "unat (word_of_nat n :: u64) = n" using n by simp
  then have z: "(word_of_nat n :: u64) = 0 \<longleftrightarrow> n = 0" by (metis unat_0 word_unat_eq_iff)
  have "read_zip_entry_bytes (archive_of es) ((zb @ ''/00000000'') @ ''.index'') =
      Inr (index_entry 0 (word_of_nat n))"
    using read_archive_of [OF index] by simp
  then show ?thesis
    using index_entry_bounds [OF n, of oc] read_archive_of [OF bevy]
    by (simp add: read_chunk_eq a Let_def name z u subrange_def)
qed

lemma read_first_chunk:
  assumes "rd_loaded_map r = None" "rd_pos r = 0" "rd_chunk_size r \<noteq> 0"
    and "read_chunk oc cd r 0 = Inr chunk"
    and "buf \<noteq> []" "length buf \<le> unat (rd_virtual_size r)" "length buf \<le> length chunk"
  shows "\<exists>r'. read_exact oc cd r buf = (Inr (), take (length buf) chunk, r')"
proof -
  let ?n = "length buf"
  have n: "?n < 2 ^ 64" by (rule le_less_trans [OF assms(6)]) simp
  have v: "\<not> rd_virtual_size r \<le> 0" using assms(5,6) by auto
  have big: "unat (0xFFFFFFFFFFFFFFFF :: u64) = 2 ^ 64 - 1" by simp
  have "aff4_read oc cd r buf = advance oc r buf (take ?n chunk)"
    using assms n v
    by (simp add: aff4_read_eq Let_def region_at_def subrange_def min_def)
  also have "\<dots> = Inr (?n, take ?n chunk, r\<lparr>rd_pos := word_of_nat ?n\<rparr>)"
    using assms n by (simp add: advance_def)
  finally show ?thesis using read_exact_once [OF assms(5)] by blast
qed

text \<open>A read that lies in one fill, or in an unknown target, fills the whole buffer.\<close>

lemma read_filled:
  assumes "region_at oc r = Inr g" "rr_kind g = Fill b \<or> rr_kind g = Unknown \<and> b = 0" "rd_pos r = 0"
    and "buf \<noteq> []" "length buf \<le> unat (rd_virtual_size r)" "length buf \<le> unat (rr_bytes g)"
  shows "\<exists>r'. read_exact oc cd r buf = (Inr (), replicate (length buf) b, r')"
proof -
  let ?n = "length buf"
  have n: "?n < 2 ^ 64" by (rule le_less_trans [OF assms(5)]) simp
  have v: "\<not> rd_virtual_size r \<le> 0" using assms(4,5) by auto
  have "aff4_read oc cd r buf = advance oc r buf (replicate ?n b)"
    using assms n v by (auto simp: aff4_read_eq Let_def min_def)
  also have "\<dots> = Inr (?n, replicate ?n b, r\<lparr>rd_pos := word_of_nat ?n\<rparr>)"
    using assms n by (simp add: advance_def)
  finally show ?thesis using read_exact_once [of buf oc cd r "replicate ?n b"] assms(4) by blast
qed

section \<open>Images of one segment\<close>

definition index12 :: "u64 \<Rightarrow> u32 \<Rightarrow> bytes" where
  "index12 off len = u64_to_le off @ u32_to_le len"

definition build_image :: "zip_writer \<Rightarrow> string \<Rightarrow> string \<Rightarrow> bytes \<Rightarrow> bytes \<Rightarrow> bytes" where
  "build_image zip_pack turtle base bevy index =
     zip_pack
       [(''information.turtle'', bytes_of_string turtle),
        (base @ ''/00000000'', bevy),
        (base @ ''/00000000.index'', index)]"

text \<open>The turtle of these tests, for a size and a compressor as text.\<close>

definition small_turtle :: "string \<Rightarrow> string \<Rightarrow> string" where
  "small_turtle size_text compressor =
     ''@prefix aff4: <http://aff4.org/Schema#> .'' @ line_feed @
     ''<aff4://s> rdf:type aff4:ImageStream ; aff4:size '' @ size_text @ '' ; aff4:chunkSize 512 ; '' @
     ''aff4:chunksInSegment 1 ; aff4:compressionMethod '' @ compressor @ '' .'' @ line_feed"

text \<open>\<^verbatim>\<open>read_exact\<close> from the start of an opened image, \<open>None\<close> for a failed \<^verbatim>\<open>expect\<close>.\<close>

definition read_first :: "bool \<Rightarrow> codecs \<Rightarrow> aff4_reader aff4_result \<Rightarrow> bytes \<Rightarrow> bytes option" where
  "read_first oc cd opened buf =
     (case opened of
        Inr reader \<Rightarrow> (case read_exact oc cd reader buf of (Inr _, buf', _) \<Rightarrow> Some buf' | _ \<Rightarrow> None)
      | Inl _ \<Rightarrow> None)"

definition deflate_chunk_reads_decompressed ::
    "bool \<Rightarrow> codecs \<Rightarrow> (bytes \<Rightarrow> bytes) \<Rightarrow> temp_file \<Rightarrow> zip_writer \<Rightarrow> zip_opener \<Rightarrow> safe_read \<Rightarrow> bool" where
  "deflate_chunk_reads_decompressed oc cd zlib tmp zip_pack zo sr \<longleftrightarrow>
     (let compressed = zlib (replicate 512 0x7A);
          img = build_image zip_pack (small_turtle ''512'' ''aff4:DeflateCompressor'') ''s'' compressed
            (index12 0 (word_of_nat (length compressed))) in
      read_first oc cd (open_tmp zo sr tmp img) (replicate 512 0) = Some (replicate 512 0x7A))"

definition chunk_bounds_exceeding_bevy_is_err ::
    "bool \<Rightarrow> codecs \<Rightarrow> temp_file \<Rightarrow> zip_writer \<Rightarrow> zip_opener \<Rightarrow> safe_read \<Rightarrow> bool" where
  "chunk_bounds_exceeding_bevy_is_err oc cd tmp zip_pack zo sr \<longleftrightarrow>
     (case open_tmp zo sr tmp (build_image zip_pack (small_turtle ''512'' ''aff4:NullCompressor'') ''s''
        (replicate 512 0) (index12 0 999999)) of
        Inr reader \<Rightarrow> is_err (fst (read_exact oc cd reader (replicate 512 0)))
      | Inl _ \<Rightarrow> False)"

definition sparse_chunk_reads_zeros ::
    "bool \<Rightarrow> codecs \<Rightarrow> temp_file \<Rightarrow> zip_writer \<Rightarrow> zip_opener \<Rightarrow> safe_read \<Rightarrow> bool" where
  "sparse_chunk_reads_zeros oc cd tmp zip_pack zo sr \<longleftrightarrow>
     read_first oc cd
       (open_tmp zo sr tmp (build_image zip_pack (small_turtle ''512'' ''aff4:NullCompressor'') ''s'' []
          (index12 0 0)))
       (replicate 512 0xAB) = Some (replicate 512 0)"

definition null_partial_chunk_reads_stored_bytes ::
    "bool \<Rightarrow> codecs \<Rightarrow> temp_file \<Rightarrow> zip_writer \<Rightarrow> zip_opener \<Rightarrow> safe_read \<Rightarrow> bool" where
  "null_partial_chunk_reads_stored_bytes oc cd tmp zip_pack zo sr \<longleftrightarrow>
     read_first oc cd
       (open_tmp zo sr tmp (build_image zip_pack (small_turtle ''100'' ''aff4:NullCompressor'') ''s''
          (replicate 100 0x5A) (index12 0 100)))
       (replicate 100 0) = Some (replicate 100 0x5A)"

abbreviation small_entries :: "string \<Rightarrow> string \<Rightarrow> bytes \<Rightarrow> nat \<Rightarrow> (string \<times> bytes) list" where
  "small_entries size_text compressor bevy n \<equiv>
     [(''information.turtle'', bytes_of_string (small_turtle size_text compressor)),
      (''s/00000000'', bevy), (''s/00000000.index'', index_entry 0 (word_of_nat n))]"

definition small_reader :: "(string \<times> bytes) list \<Rightarrow> u64 \<Rightarrow> compression \<Rightarrow> aff4_reader" where
  "small_reader es vs c =
     \<lparr>rd_archive = archive_of es, rd_zip_base = ''s'', rd_virtual_size = vs,
      rd_image_stream_size = vs, rd_chunk_size = 512, rd_chunks_per_segment = 1,
      rd_compression = c, rd_image_hashes = [], rd_pos = 0, rd_loaded_map = None\<rparr>"

definition small_meta :: "u64 \<Rightarrow> compression \<Rightarrow> stream_meta" where
  "small_meta vs c =
     \<lparr>sm_stream_arn = ''aff4://s'', sm_virtual_size = vs, sm_image_stream_size = vs,
      sm_chunk_size = 512, sm_chunks_per_segment = 1, sm_compression = c, sm_image_hashes = [],
      sm_map_meta = None\<rparr>"

lemma small_turtle_512:
  "parse_turtle (small_turtle ''512'' ''aff4:NullCompressor'') = Inr (small_meta 512 Null)"
  by code_simp

lemma small_turtle_100:
  "parse_turtle (small_turtle ''100'' ''aff4:NullCompressor'') = Inr (small_meta 100 Null)"
  by code_simp

lemma small_turtle_deflate:
  "parse_turtle (small_turtle ''512'' ''aff4:DeflateCompressor'') = Inr (small_meta 512 Deflate)"
  by code_simp

lemma small_turtle_ascii:
  "ascii_text (small_turtle ''512'' ''aff4:NullCompressor'')"
  "ascii_text (small_turtle ''100'' ''aff4:NullCompressor'')"
  "ascii_text (small_turtle ''512'' ''aff4:DeflateCompressor'')"
  by code_simp+

lemma open_small:
  assumes "temp_ok tmp" and "zip_ok zip_pack zo (small_entries st cmp bevy n)"
    and "parse_turtle (small_turtle st cmp) = Inr (small_meta vs c)" "ascii_text (small_turtle st cmp)"
  shows "open_tmp zo sr tmp (build_image zip_pack (small_turtle st cmp) ''s'' bevy
      (index12 0 (word_of_nat n))) = Inr (small_reader (small_entries st cmp bevy n) vs c)"
proof -
  let ?es = "small_entries st cmp bevy n"
  have img: "build_image zip_pack (small_turtle st cmp) ''s'' bevy (index12 0 (word_of_nat n)) = zip_pack ?es"
    by (simp add: build_image_def index12_def index_entry_def)
  have z: "zip_archive_new zo (zip_pack ?es) = Inr (archive_of ?es)"
    using assms(2) by (simp add: zip_ok_def zip_archive_new_def)
  have t: "information_turtle (archive_of ?es) = Inr (small_turtle st cmp)"
    by (rule read_text_entry [OF _ assms(4)]) simp
  have names: "za_file_names (archive_of ?es) = [''information.turtle'', ''s/00000000'', ''s/00000000.index'']"
    by (simp add: archive_of_def)
  have b: "base_of (archive_of ?es) ''aff4://s'' = ''s''"
    unfolding base_of_def names by code_simp
  show ?thesis
    unfolding open_tmp_reader [OF assms(1)] img open_reader_def z t and_then_simps assms(3)
    by (simp add: small_meta_def small_reader_def b)
qed

lemma small_chunk:
  assumes "n < 2 ^ 32"
  shows "read_chunk oc cd (small_reader (small_entries st cmp bevy n) vs c) 0 =
    (if n = 0 then Inr (replicate 512 0)
     else if length bevy < n then Inl (bounds_error ''chunk'' 0 (word_of_nat n) (length bevy))
     else if n = 512 then Inr (take n bevy)
     else decompress cd 512 c (take n bevy))"
  by (subst read_chunk_first [where es = "small_entries st cmp bevy n" and zb = "''s''" and n = n and bevy = bevy])
    (use assms in \<open>simp_all add: small_reader_def with_capacity_def isize_max_def\<close>)

lemma read_first_small:
  assumes "temp_ok tmp" and "zip_ok zip_pack zo (small_entries st cmp bevy n)"
    and "parse_turtle (small_turtle st cmp) = Inr (small_meta vs c)" "ascii_text (small_turtle st cmp)"
    and "read_chunk oc cd (small_reader (small_entries st cmp bevy n) vs c) 0 = Inr chunk"
    and "buf \<noteq> []" "length buf \<le> unat vs" "length buf \<le> length chunk"
  shows "read_first oc cd (open_tmp zo sr tmp (build_image zip_pack (small_turtle st cmp) ''s'' bevy
      (index12 0 (word_of_nat n)))) buf = Some (take (length buf) chunk)"
proof -
  have "\<exists>r'. read_exact oc cd (small_reader (small_entries st cmp bevy n) vs c) buf =
      (Inr (), take (length buf) chunk, r')"
    by (rule read_first_chunk [OF _ _ _ assms(5)]) (use assms in \<open>simp_all add: small_reader_def\<close>)
  then show ?thesis by (auto simp: read_first_def open_small [OF assms(1-4)])
qed

text \<open>What the zlib and LZ4 encoders promise of a chunk that gets shorter.\<close>

definition shrinks :: "(bytes \<Rightarrow> string + bytes) \<Rightarrow> (bytes \<Rightarrow> bytes) \<Rightarrow> bytes \<Rightarrow> bool" where
  "shrinks decode encode chunk \<longleftrightarrow>
     0 < length (encode chunk) \<and> length (encode chunk) < length chunk \<and> decode (encode chunk) = Inr chunk"

lemma deflate_test_passes:
  assumes "temp_ok tmp" and law: "shrinks (zlib_decode cd) zlib (replicate 512 0x7A)"
    and "zip_ok zip_pack zo (small_entries ''512'' ''aff4:DeflateCompressor'' (zlib (replicate 512 0x7A))
      (length (zlib (replicate 512 0x7A))))"
  shows "deflate_chunk_reads_decompressed oc cd zlib tmp zip_pack zo sr"
proof -
  let ?c = "zlib (replicate 512 0x7A)"
  have l: "0 < length ?c" "length ?c < 512" "zlib_decode cd ?c = Inr (replicate 512 0x7A)"
    using law by (simp_all add: shrinks_def)
  have "read_chunk oc cd (small_reader (small_entries ''512'' ''aff4:DeflateCompressor'' ?c (length ?c))
      512 Deflate) 0 = Inr (replicate 512 0x7A)"
    using l by (subst small_chunk) (simp_all add: with_capacity_def isize_max_def decode_with_def)
  from read_first_small [OF assms(1,3) small_turtle_deflate small_turtle_ascii(3) this,
      of "replicate 512 0" sr]
  show ?thesis by (simp add: deflate_chunk_reads_decompressed_def Let_def)
qed

lemma null_image_tests_pass:
  assumes "temp_ok tmp"
  shows "zip_ok zip_pack zo (small_entries ''512'' ''aff4:NullCompressor'' [] 0) \<Longrightarrow>
      sparse_chunk_reads_zeros oc cd tmp zip_pack zo sr"
    and "zip_ok zip_pack zo (small_entries ''100'' ''aff4:NullCompressor'' (replicate 100 0x5A) 100) \<Longrightarrow>
      null_partial_chunk_reads_stored_bytes oc cd tmp zip_pack zo sr"
    and "zip_ok zip_pack zo (small_entries ''512'' ''aff4:NullCompressor'' (replicate 512 0) 999999) \<Longrightarrow>
      chunk_bounds_exceeding_bevy_is_err oc cd tmp zip_pack zo sr"
proof -
  show "sparse_chunk_reads_zeros oc cd tmp zip_pack zo sr"
    if "zip_ok zip_pack zo (small_entries ''512'' ''aff4:NullCompressor'' [] 0)"
  proof -
    have "read_chunk oc cd (small_reader (small_entries ''512'' ''aff4:NullCompressor'' [] 0) 512 Null) 0 =
        Inr (replicate 512 0)"
      by (subst small_chunk) simp_all
    from read_first_small [OF assms that small_turtle_512 small_turtle_ascii(1) this,
        of "replicate 512 0xAB" sr]
    show ?thesis by (simp add: sparse_chunk_reads_zeros_def)
  qed
  show "null_partial_chunk_reads_stored_bytes oc cd tmp zip_pack zo sr"
    if "zip_ok zip_pack zo (small_entries ''100'' ''aff4:NullCompressor'' (replicate 100 0x5A) 100)"
  proof -
    have "read_chunk oc cd (small_reader (small_entries ''100'' ''aff4:NullCompressor''
        (replicate 100 0x5A) 100) 100 Null) 0 = Inr (replicate 100 0x5A)"
      by (subst small_chunk) simp_all
    from read_first_small [OF assms that small_turtle_100 small_turtle_ascii(2) this,
        of "replicate 100 0" sr]
    show ?thesis by (simp add: null_partial_chunk_reads_stored_bytes_def)
  qed
  show "chunk_bounds_exceeding_bevy_is_err oc cd tmp zip_pack zo sr"
    if z: "zip_ok zip_pack zo (small_entries ''512'' ''aff4:NullCompressor'' (replicate 512 0) 999999)"
  proof -
    let ?r = "small_reader (small_entries ''512'' ''aff4:NullCompressor'' (replicate 512 0) 999999) 512 Null"
    let ?e = "bounds_error ''chunk'' 0 (word_of_nat 999999) 512"
    have c: "read_chunk oc cd ?r 0 = Inl ?e"
      by (subst small_chunk) simp_all
    have "region_at oc ?r = Inr \<lparr>rr_kind = ImageStream, rr_target_offset = 0, rr_bytes = 0xFFFFFFFFFFFFFFFF\<rparr>"
      "rd_virtual_size ?r = 512" "rd_pos ?r = 0" "rd_chunk_size ?r = 512"
      by (simp_all add: region_at_def small_reader_def)
    then have "\<exists>e. aff4_read oc cd ?r (replicate 512 0) = Inl (Err e)"
      using c by (simp add: aff4_read_eq Let_def bounds_error_def)
    then obtain e where "read_exact oc cd ?r (replicate 512 0) = (Inl (Err e), replicate 512 0, ?r)"
      using read_exact_fails [of "replicate 512 0" oc cd ?r] by fastforce
    moreover have "open_tmp zo sr tmp (build_image zip_pack (small_turtle ''512'' ''aff4:NullCompressor'') ''s''
        (replicate 512 0) (index12 0 999999)) = Inr ?r"
      using open_small [OF assms z small_turtle_512 small_turtle_ascii(1), of sr] by simp
    ultimately show ?thesis by (simp add: chunk_bounds_exceeding_bevy_is_err_def)
  qed
qed

section \<open>Images with a map\<close>

text \<open>The image of the map tests: a chunk of 0xDD, one map entry, and the file that names its target.\<close>

definition map_image_turtle :: "string \<Rightarrow> string \<Rightarrow> string" where
  "map_image_turtle size_text gap =
     ''@prefix aff4: <http://aff4.org/Schema#> .'' @ line_feed @
     ''<aff4://img> rdf:type aff4:ImageStream ; aff4:size 512 ; aff4:chunkSize 512 ; '' @
     ''aff4:chunksInSegment 1 ; aff4:compressionMethod aff4:NullCompressor .'' @ line_feed @
     ''<aff4://map> rdf:type aff4:Map ; aff4:size '' @ size_text @ '' ; '' @
     ''aff4:dependentStream <aff4://img> ; aff4:mapGapDefaultStream '' @ gap @ '' .'' @ line_feed"

definition map_image_entries :: "string \<Rightarrow> u64 \<Rightarrow> string \<Rightarrow> (string \<times> bytes) list" where
  "map_image_entries turtle map_offset target =
     [(''information.turtle'', bytes_of_string turtle),
      (''img/00000000'', replicate 512 0xDD),
      (''img/00000000.index'', index12 0 512),
      (''map/map'', u64_to_le map_offset @ u64_to_le 512 @ u64_to_le 0 @ u32_to_le 0),
      (''map/idx'', bytes_of_string (target @ line_feed))]"

definition map_gap_symbolic_ff_reads_0xff ::
    "bool \<Rightarrow> codecs \<Rightarrow> temp_file \<Rightarrow> zip_writer \<Rightarrow> zip_opener \<Rightarrow> safe_read \<Rightarrow> bool" where
  "map_gap_symbolic_ff_reads_0xff oc cd tmp zip_pack zo sr \<longleftrightarrow>
     read_first oc cd
       (open_tmp zo sr tmp (zip_pack (map_image_entries
          (map_image_turtle ''1024'' ''aff4:SymbolicStreamFF'') 512 ''aff4://img'')))
       (replicate 512 0) = Some (replicate 512 0xFF)"

definition unknown_map_target_reads_zeros ::
    "bool \<Rightarrow> codecs \<Rightarrow> temp_file \<Rightarrow> zip_writer \<Rightarrow> zip_opener \<Rightarrow> safe_read \<Rightarrow> bool" where
  "unknown_map_target_reads_zeros oc cd tmp zip_pack zo sr \<longleftrightarrow>
     read_first oc cd
       (open_tmp zo sr tmp (zip_pack (map_image_entries
          (map_image_turtle ''512'' ''aff4:Zero'') 0 ''aff4://an-unknown-stream'')))
       (replicate 512 0xFF) = Some (replicate 512 0)"

definition map_image_meta :: "u64 \<Rightarrow> bool \<Rightarrow> stream_meta" where
  "map_image_meta vs ff =
     \<lparr>sm_stream_arn = ''aff4://img'', sm_virtual_size = vs, sm_image_stream_size = 512,
      sm_chunk_size = 512, sm_chunks_per_segment = 1, sm_compression = Null, sm_image_hashes = [],
      sm_map_meta = Some \<lparr>mm_map_arn = ''aff4://map'', mm_image_stream_arn = ''aff4://img'',
        mm_gap_is_symbolic_ff = ff\<rparr>\<rparr>"

definition map_image_map :: "u64 \<Rightarrow> target_kind \<Rightarrow> bool \<Rightarrow> loaded_map" where
  "map_image_map map_offset kind ff =
     \<lparr>lm_entries = [\<lparr>me_map_offset = map_offset, me_length = 512, me_target_offset = 0,
        me_target_id = 0\<rparr>],
      lm_targets = [kind], lm_gap_default = (if ff then Fill 0xFF else Fill 0)\<rparr>"

lemma map_image_turtle_ff:
  "parse_turtle (map_image_turtle ''1024'' ''aff4:SymbolicStreamFF'') = Inr (map_image_meta 1024 True)"
  by code_simp

lemma map_image_turtle_zero:
  "parse_turtle (map_image_turtle ''512'' ''aff4:Zero'') = Inr (map_image_meta 512 False)"
  by code_simp

lemma map_image_ascii:
  "ascii_text (map_image_turtle ''1024'' ''aff4:SymbolicStreamFF'')"
  "ascii_text (map_image_turtle ''512'' ''aff4:Zero'')"
  by code_simp+

definition map_image_reader :: "(string \<times> bytes) list \<Rightarrow> u64 \<Rightarrow> loaded_map \<Rightarrow> aff4_reader" where
  "map_image_reader es vs lm =
     \<lparr>rd_archive = archive_of es, rd_zip_base = ''img'', rd_virtual_size = vs,
      rd_image_stream_size = 512, rd_chunk_size = 512, rd_chunks_per_segment = 1,
      rd_compression = Null, rd_image_hashes = [], rd_pos = 0, rd_loaded_map = Some lm\<rparr>"

lemma open_map_image:
  assumes "temp_ok tmp" and "zip_ok zip_pack zo (map_image_entries t mo target)" and "safe_read_law sr"
    and t: "parse_turtle t = Inr (map_image_meta vs ff)" "ascii_text t"
    and idx: "ascii_text target" "parse_idx (target @ line_feed) ''aff4://img'' = [kind]"
  shows "open_tmp zo sr tmp (zip_pack (map_image_entries t mo target)) =
    Inr (map_image_reader (map_image_entries t mo target) vs (map_image_map mo kind ff))"
proof -
  let ?es = "map_image_entries t mo target"
  let ?e = "\<lparr>me_map_offset = mo, me_length = 512, me_target_offset = 0, me_target_id = 0\<rparr> :: map_entry"
  have z: "zip_archive_new zo (zip_pack ?es) = Inr (archive_of ?es)"
    using assms(2) by (simp add: zip_ok_def zip_archive_new_def)
  have i: "information_turtle (archive_of ?es) = Inr t"
    by (rule read_text_entry [OF _ t(2)]) (simp add: map_image_entries_def)
  have names: "za_file_names (archive_of ?es) =
      [''information.turtle'', ''img/00000000'', ''img/00000000.index'', ''map/map'', ''map/idx'']"
    by (simp add: archive_of_def map_image_entries_def)
  have b: "base_of (archive_of ?es) ''aff4://img'' = ''img''"
    "base_of (archive_of ?es) ''aff4://map'' = ''map''"
    unfolding base_of_def names by code_simp+
  have m: "read_zip_entry_bytes (archive_of ?es) ''map/map'' = Inr (encode_map_entry ?e)"
    by (rule read_archive_of) (simp add: map_image_entries_def encode_map_entry_def)
  have "ascii_text line_feed" by code_simp
  then have "ascii_text (target @ line_feed)" using idx(1) by simp
  then have x: "read_to_string (Inr (bytes_of_string (target @ line_feed))) = Inr (target @ line_feed)"
    by (simp only: read_to_string_def sum.case utf8_valid_text if_True string_bytes_round_trip)
  have bn: "by_name (archive_of ?es) ''map/idx'' = Inr (Inr (bytes_of_string (target @ line_feed)))"
    by (simp add: by_name_def archive_of_def map_image_entries_def)
  have e: "parse_map_entries sr (encode_map_entry ?e) = [?e]"
    using parse_encoded_entries [OF assms(3), of "[]" "[?e]"] by simp
  have "load_map sr (archive_of ?es) \<lparr>mm_map_arn = ''aff4://map'', mm_image_stream_arn = ''aff4://img'',
        mm_gap_is_symbolic_ff = ff\<rparr> = Inr (map_image_map mo kind ff)"
    using m bn x e idx(2) by (simp add: load_map_def Let_def b map_image_map_def)
  then show ?thesis
    unfolding open_tmp_reader [OF assms(1)] open_reader_def z i and_then_simps t(1)
    by (simp add: map_image_meta_def map_image_reader_def b)
qed

lemma map_image_tests_pass:
  assumes "temp_ok tmp" and "safe_read_law sr"
  shows "zip_ok zip_pack zo (map_image_entries (map_image_turtle ''1024'' ''aff4:SymbolicStreamFF'')
        512 ''aff4://img'') \<Longrightarrow>
      map_gap_symbolic_ff_reads_0xff oc cd tmp zip_pack zo sr"
    and "zip_ok zip_pack zo (map_image_entries (map_image_turtle ''512'' ''aff4:Zero'')
        0 ''aff4://an-unknown-stream'') \<Longrightarrow>
      unknown_map_target_reads_zeros oc cd tmp zip_pack zo sr"
proof -
  have ok: "map_ok (map_image_map mo kind ff)" if "unat mo + 512 < 2 ^ 64" for mo kind ff
    using that by (simp add: map_ok_def map_image_map_def entry_ok_def)
  have fill: "read_first oc cd (Inr r) (replicate 512 x) = Some (replicate 512 y)"
    if "region_at oc r = Inr g" "rr_kind g = Fill y \<or> rr_kind g = Unknown \<and> y = 0" "rd_pos r = 0"
      "512 \<le> unat (rd_virtual_size r)" "512 \<le> unat (rr_bytes g)" for r g and x y :: u8
    using read_filled [OF that(1-3), of "replicate 512 x" cd] that(4,5)
    by (auto simp: read_first_def)
  show "map_gap_symbolic_ff_reads_0xff oc cd tmp zip_pack zo sr"
    if z: "zip_ok zip_pack zo (map_image_entries (map_image_turtle ''1024'' ''aff4:SymbolicStreamFF'')
        512 ''aff4://img'')"
  proof -
    have "ascii_text ''aff4://img''" "parse_idx (''aff4://img'' @ line_feed) ''aff4://img'' = [ImageStream]"
      by code_simp+
    note o = open_map_image [OF assms(1) z assms(2) map_image_turtle_ff map_image_ascii(1) this]
    have "(resolve oc (map_image_map 512 ImageStream True) 0 1024 :: resolved_region io_result) =
        Inr \<lparr>rr_kind = Fill 0xFF, rr_target_offset = 0, rr_bytes = 512\<rparr>"
      by (subst resolve_unfold [OF ok]) (simp_all add: map_image_map_def split_index_def gap_region_def get_at_def saturating_sub_def)
    then show ?thesis
      unfolding map_gap_symbolic_ff_reads_0xff_def o
      by (intro fill) (auto simp: region_at_def map_image_reader_def)
  qed
  show "unknown_map_target_reads_zeros oc cd tmp zip_pack zo sr"
    if z: "zip_ok zip_pack zo (map_image_entries (map_image_turtle ''512'' ''aff4:Zero'')
        0 ''aff4://an-unknown-stream'')"
  proof -
    have "ascii_text ''aff4://an-unknown-stream''"
      "parse_idx (''aff4://an-unknown-stream'' @ line_feed) ''aff4://img'' = [Unknown]"
      by code_simp+
    note o = open_map_image [OF assms(1) z assms(2) map_image_turtle_zero map_image_ascii(2) this]
    have "(resolve oc (map_image_map 0 Unknown False) 0 512 :: resolved_region io_result) =
        Inr \<lparr>rr_kind = Unknown, rr_target_offset = 0, rr_bytes = 512\<rparr>"
      by (subst resolve_unfold [OF ok])
        (simp_all add: map_image_map_def split_index_def covers_def kind_of_def target_of_def get_at_def)
    then show ?thesis
      unfolding unknown_map_target_reads_zeros_def o
      by (intro fill) (auto simp: region_at_def map_image_reader_def)
  qed
qed

section \<open>LZ4 chunks\<close>

definition lz4_compressed_chunk_reads_decompressed_data ::
    "bool \<Rightarrow> codecs \<Rightarrow> (bytes \<Rightarrow> bytes) \<Rightarrow> temp_file \<Rightarrow> zip_writer \<Rightarrow> zip_opener \<Rightarrow> safe_read \<Rightarrow> bool" where
  "lz4_compressed_chunk_reads_decompressed_data oc cd lz4_frame tmp zip_pack zo sr \<longleftrightarrow>
     read_first oc cd (open_tmp zo sr tmp (test_aff4_lz4 zip_pack lz4_frame (replicate 512 0xCC)))
       (replicate 512 0) = Some (replicate 512 0xCC)"

definition lz4_turtle :: string where
  "lz4_turtle = turtle_prefixes @
     image_stream_turtle stream_arn_const chunk_size_const chunk_size_const 1
       ''<https://github.com/lz4/lz4>''"

definition lz4_reader :: "(string \<times> bytes) list \<Rightarrow> aff4_reader" where
  "lz4_reader es =
     \<lparr>rd_archive = archive_of es, rd_zip_base = zip_base_const, rd_virtual_size = 512,
      rd_image_stream_size = 512, rd_chunk_size = 512, rd_chunks_per_segment = 1,
      rd_compression = Lz4, rd_image_hashes = [], rd_pos = 0, rd_loaded_map = None\<rparr>"

lemma lz4_turtle_parses:
  "parse_turtle lz4_turtle = Inr
     \<lparr>sm_stream_arn = stream_arn_const, sm_virtual_size = 512, sm_image_stream_size = 512,
      sm_chunk_size = 512, sm_chunks_per_segment = 1, sm_compression = Lz4, sm_image_hashes = [],
      sm_map_meta = None\<rparr>"
  by code_simp

lemma open_lz4:
  assumes "temp_ok tmp"
    and z: "zip_ok zip_pack zo (single_chunk_entries ''<https://github.com/lz4/lz4>'' (enc (padded_chunk data)))"
  shows "open_tmp zo sr tmp (test_aff4_lz4 zip_pack enc data) =
    Inr (lz4_reader (single_chunk_entries ''<https://github.com/lz4/lz4>'' (enc (padded_chunk data))))"
proof -
  let ?es = "single_chunk_entries ''<https://github.com/lz4/lz4>'' (enc (padded_chunk data))"
  have z: "zip_archive_new zo (test_aff4_lz4 zip_pack enc data) = Inr (archive_of ?es)"
    using z by (simp add: zip_ok_def zip_archive_new_def test_aff4_lz4_def)
  have "ascii_text lz4_turtle" by code_simp
  then have t: "information_turtle (archive_of ?es) = Inr lz4_turtle"
    by (intro read_text_entry) (simp_all add: single_chunk_entries_def lz4_turtle_def)
  show ?thesis
    unfolding open_tmp_reader [OF assms(1)] open_reader_def z t and_then_simps lz4_turtle_parses
    by (simp add: lz4_reader_def single_chunk_base)
qed

lemma lz4_test_passes:
  assumes "temp_ok tmp" and law: "shrinks (lz4_decode cd) lz4_frame (replicate 512 0xCC)"
    and "zip_ok zip_pack zo (single_chunk_entries ''<https://github.com/lz4/lz4>''
      (lz4_frame (replicate 512 0xCC)))"
  shows "lz4_compressed_chunk_reads_decompressed_data oc cd lz4_frame tmp zip_pack zo sr"
proof -
  let ?c = "lz4_frame (replicate 512 0xCC)"
  let ?es = "single_chunk_entries ''<https://github.com/lz4/lz4>'' ?c"
  have pad: "padded_chunk (replicate 512 0xCC) = replicate 512 0xCC" by (simp add: padded_full)
  have o: "open_tmp zo sr tmp (test_aff4_lz4 zip_pack lz4_frame (replicate 512 0xCC)) = Inr (lz4_reader ?es)"
    using open_lz4 [OF assms(1), of zip_pack zo lz4_frame "replicate 512 0xCC" sr] assms(3) by (simp add: pad)
  have l: "0 < length ?c" "length ?c < 512" "lz4_decode cd ?c = Inr (replicate 512 0xCC)"
    using law by (simp_all add: shrinks_def)
  have ne: "zip_base_const @ ''/00000000'' \<noteq> ''information.turtle''"
    "zip_base_const @ ''/00000000.index'' \<noteq> ''information.turtle''"
    "zip_base_const @ ''/00000000.index'' \<noteq> zip_base_const @ ''/00000000''"
    by code_simp+
  have e: "map_of ?es (zip_base_const @ ''/00000000.index'') = Some (index_entry 0 (word_of_nat (length ?c)))"
    "map_of ?es (zip_base_const @ ''/00000000'') = Some ?c"
    using ne by (simp_all add: single_chunk_entries_def)
  have "read_chunk oc cd (lz4_reader ?es) 0 = Inr (replicate 512 0xCC)"
    by (subst read_chunk_first [OF _ _ _ e])
      (use l in \<open>simp_all add: lz4_reader_def with_capacity_def isize_max_def decode_with_def\<close>)
  then have "\<exists>r'. read_exact oc cd (lz4_reader ?es) (replicate 512 0) =
      (Inr (), take (length (replicate 512 (0 :: u8))) (replicate 512 0xCC), r')"
    by (intro read_first_chunk) (simp_all add: lz4_reader_def)
  then show ?thesis
    by (auto simp: lz4_compressed_chunk_reads_decompressed_data_def o read_first_def)
qed

section \<open>Logical containers\<close>

definition md5_text :: "'d digests \<Rightarrow> bytes \<Rightarrow> string" where
  "md5_text ds content = to_hex (dg_finalize (dg_md5 ds) (dg_update (dg_md5 ds) (dg_new (dg_md5 ds)) content))"

definition md5_law :: "'d digests \<Rightarrow> bool" where
  "md5_law ds \<longleftrightarrow> (\<forall>d. length (dg_finalize (dg_md5 ds) d) = 16)"

definition dream_content :: bytes where
  "dream_content = bytes_of_string (''I have a Dream, delivered 1963.'' @ line_feed)"

definition container_kind_classifies_logical ::
    "'d digests \<Rightarrow> temp_file \<Rightarrow> zip_writer \<Rightarrow> zip_opener \<Rightarrow> bool" where
  "container_kind_classifies_logical ds tmp zip_pack zo \<longleftrightarrow>
     (let content = bytes_of_string (''logical file body'' @ line_feed) in
      kind_tmp zo tmp (test_aff4_logical zip_pack ''dir/a.txt'' content (md5_text ds content)) = Inr Logical)"

definition logical_container_lists_and_reads_files ::
    "'d digests \<Rightarrow> temp_file \<Rightarrow> zip_writer \<Rightarrow> zip_opener \<Rightarrow> bool" where
  "logical_container_lists_and_reads_files ds tmp zip_pack zo \<longleftrightarrow>
     (let md5 = md5_text ds dream_content in
      (case open_logical_tmp zo tmp (test_aff4_logical zip_pack ''dir/dream.txt'' dream_content md5) of
         Inr container \<Rightarrow>
           (case files container of
              [entry] \<Rightarrow>
                le_original_file_name entry = ''./dir/dream.txt'' \<and>
                le_size entry = word_of_nat (length dream_content) \<and>
                list_ex (\<lambda>h. to_ascii_lowercase (algorithm h) = to_ascii_lowercase ''MD5'' \<and> hex h = md5)
                  (le_hashes entry) \<and>
                read_file container entry = Inr dream_content
            | _ \<Rightarrow> False)
       | Inl _ \<Rightarrow> False))"

lemma md5_text_hex:
  assumes "md5_law ds"
  shows "md5_text ds c \<noteq> []" "list_all is_ascii_hexdigit (md5_text ds c)"
    "to_ascii_lowercase (md5_text ds c) = md5_text ds c"
proof -
  let ?d = "dg_finalize (dg_md5 ds) (dg_update (dg_md5 ds) (dg_new (dg_md5 ds)) c)"
  have "?d \<noteq> []" using assms by (metis md5_law_def list.size(3) zero_neq_numeral)
  then show "md5_text ds c \<noteq> []"
    unfolding md5_text_def by (cases ?d) (auto simp: to_hex_def hex02_two_digits)
  show "list_all is_ascii_hexdigit (md5_text ds c)" "to_ascii_lowercase (md5_text ds c) = md5_text ds c"
    by (simp_all add: md5_text_def to_hex_hexdigits to_hex_lower)
qed

lemma logical_tests_pass:
  assumes "temp_ok tmp" and "md5_law ds"
  shows "zip_ok zip_pack zo (logical_entries ''dir/dream.txt'' dream_content (md5_text ds dream_content)) \<Longrightarrow>
      logical_container_lists_and_reads_files ds tmp zip_pack zo"
    and "content = bytes_of_string (''logical file body'' @ line_feed) \<Longrightarrow>
      zip_ok zip_pack zo (logical_entries ''dir/a.txt'' content (md5_text ds content)) \<Longrightarrow>
      container_kind_classifies_logical ds tmp zip_pack zo"
proof -
  note hex = md5_text_hex [OF assms(2)]
  have seg: "segment_ok ''dir/dream.txt''" "segment_ok ''dir/a.txt''" by code_simp+
  have len: "length dream_content < 2 ^ 64" by (simp add: dream_content_def bytes_of_string_def line_feed_def)
  show "logical_container_lists_and_reads_files ds tmp zip_pack zo"
    if "zip_ok zip_pack zo (logical_entries ''dir/dream.txt'' dream_content (md5_text ds dream_content))"
  proof -
    let ?data = "test_aff4_logical zip_pack ''dir/dream.txt'' dream_content (md5_text ds dream_content)"
    have "zo ?data = Inr (archive_of (logical_entries ''dir/dream.txt'' dream_content (md5_text ds dream_content)))"
      using that by (simp add: zip_ok_def test_aff4_logical_def)
    from logical_fixture_opens [of zo ?data, OF this seg(1) hex(2,1) len]
    have "open_logical_tmp zo tmp ?data =
        Inr (file_container ''dir/dream.txt'' dream_content (md5_text ds dream_content))"
      by (simp add: open_logical_tmp_reader [OF assms(1)])
    then show ?thesis
      using logical_fixture_file [OF seg(1), of dream_content "md5_text ds dream_content" "length dream_content"]
      by (simp add: logical_container_lists_and_reads_files_def files_def Let_def)
        (simp add: file_container_def file_entry_def hex(3))
  qed
  show "container_kind_classifies_logical ds tmp zip_pack zo"
    if c: "content = bytes_of_string (''logical file body'' @ line_feed)"
      and "zip_ok zip_pack zo (logical_entries ''dir/a.txt'' content (md5_text ds content))"
  proof -
    let ?data = "test_aff4_logical zip_pack ''dir/a.txt'' content (md5_text ds content)"
    have z: "zo ?data = Inr (archive_of (logical_entries ''dir/a.txt'' content (md5_text ds content)))"
      using that(2) by (simp add: zip_ok_def test_aff4_logical_def)
    have "length content < 2 ^ 64" by (simp add: c bytes_of_string_def line_feed_def)
    from parse_logical_turtle [OF seg(2) hex(2,1) this]
      kind_tmp_unfold [of tmp zo ?data, OF assms(1) z logical_fixture_turtle [OF seg(2) hex(2)]]
    have "kind_tmp zo tmp ?data = Inr Logical" by simp
    then show ?thesis by (simp add: container_kind_classifies_logical_def Let_def c)
  qed
qed

section \<open>Opening from memory, and any bytes\<close>

definition open_reader_over_cursor_matches_open_path ::
    "bool \<Rightarrow> codecs \<Rightarrow> (nat \<Rightarrow> nat) \<Rightarrow> temp_file \<Rightarrow> zip_writer \<Rightarrow> zip_opener \<Rightarrow> safe_read \<Rightarrow> bool" where
  "open_reader_over_cursor_matches_open_path oc cd room tmp zip_pack zo sr \<longleftrightarrow>
     (let img = test_aff4 zip_pack cafe_data in
      (case (open_tmp zo sr tmp img, open_reader zo sr img) of
         (Inr via_path, Inr via_reader) \<Rightarrow>
           (case (read_to_vec (aff4_read oc cd) room via_path [],
                  read_to_vec (aff4_read oc cd) room via_reader []) of
              (Some (Inr want), Some (Inr got)) \<Rightarrow>
                got = want \<and> virtual_disk_size via_reader = virtual_disk_size via_path
            | _ \<Rightarrow> False)
       | _ \<Rightarrow> False))"

lemma cursor_test_passes:
  assumes "temp_ok tmp" and "zip_ok zip_pack zo (null_entries cafe_data)" and "\<And>n. 0 < room n"
  shows "open_reader_over_cursor_matches_open_path oc cd room tmp zip_pack zo sr"
proof -
  have len: "length cafe_data = 512" by (simp add: cafe_data_def)
  note o = open_test_aff4 [OF assms(1,2), of sr]
  note p = o [unfolded open_tmp_reader [OF assms(1)]]
  have "\<exists>data. read_to_vec (aff4_read oc cd) room (null_reader cafe_data) [] = Some (Inr ([] @ data)) \<and>
      map Some data = map (disk_byte oc cd (null_reader cafe_data))
        [unat (rd_pos (null_reader cafe_data))..<unat (rd_virtual_size (null_reader cafe_data))]"
    by (rule disk.read_to_vec_complete) (use assms(3) null_reader_disk [OF len] in simp_all)
  then show ?thesis
    unfolding open_reader_over_cursor_matches_open_path_def o p Let_def by auto
qed

text \<open>The assertion of the property-based test, for each of its inputs.\<close>

definition open_never_panics_on_arbitrary_bytes ::
    "temp_file \<Rightarrow> zip_opener \<Rightarrow> safe_read \<Rightarrow> bytes \<Rightarrow> bool" where
  "open_never_panics_on_arbitrary_bytes tmp zo sr data \<longleftrightarrow> no_panic (open_tmp zo sr tmp data)"

lemma arbitrary_bytes_test_passes: "open_never_panics_on_arbitrary_bytes tmp zo sr data"
  by (auto simp: open_never_panics_on_arbitrary_bytes_def open_tmp_def open_path_def split: prod.split)

section \<open>Debug renderings\<close>

definition debug_impl_renders :: "temp_file \<Rightarrow> zip_writer \<Rightarrow> zip_opener \<Rightarrow> safe_read \<Rightarrow> bool" where
  "debug_impl_renders tmp zip_pack zo sr \<longleftrightarrow>
     (case open_tmp zo sr tmp (test_aff4 zip_pack (replicate 512 0)) of
        Inr reader \<Rightarrow> contains (debug_reader reader) ''Aff4Reader''
      | Inl _ \<Rightarrow> False)"

definition logical_debug_impl_renders ::
    "'d digests \<Rightarrow> temp_file \<Rightarrow> zip_writer \<Rightarrow> zip_opener \<Rightarrow> bool" where
  "logical_debug_impl_renders ds tmp zip_pack zo \<longleftrightarrow>
     (let content = bytes_of_string ''hi''; md5 = md5_text ds content in
      (case open_logical_tmp zo tmp (test_aff4_logical zip_pack ''f.txt'' content md5) of
         Inr container \<Rightarrow> contains (debug_container container) ''LogicalContainer''
       | Inl _ \<Rightarrow> False))"

lemma debug_tests_pass:
  assumes "temp_ok tmp"
  shows "zip_ok zip_pack zo (null_entries (replicate 512 0)) \<Longrightarrow> debug_impl_renders tmp zip_pack zo sr"
    and "md5_law ds \<Longrightarrow> content = bytes_of_string ''hi'' \<Longrightarrow>
      zip_ok zip_pack zo (logical_entries ''f.txt'' content (md5_text ds content)) \<Longrightarrow>
      logical_debug_impl_renders ds tmp zip_pack zo"
proof -
  have starts: "contains (p @ t) p" for p t :: string by (metis append_Nil contains_iff)
  show "debug_impl_renders tmp zip_pack zo sr" if "zip_ok zip_pack zo (null_entries (replicate 512 0))"
    using open_test_aff4 [OF assms that, of sr] starts [of "''Aff4Reader''"]
    by (simp add: debug_impl_renders_def debug_reader_def)
  show "logical_debug_impl_renders ds tmp zip_pack zo"
    if "md5_law ds" and c: "content = bytes_of_string ''hi''"
      and z: "zip_ok zip_pack zo (logical_entries ''f.txt'' content (md5_text ds content))"
  proof -
    let ?data = "test_aff4_logical zip_pack ''f.txt'' content (md5_text ds content)"
    have seg: "segment_ok ''f.txt''" by code_simp
    have zo: "zo ?data = Inr (archive_of (logical_entries ''f.txt'' content (md5_text ds content)))"
      using z by (simp add: zip_ok_def test_aff4_logical_def)
    have len: "length content < 2 ^ 64" by (simp add: c bytes_of_string_def)
    note hex = md5_text_hex [OF that(1)]
    have "open_logical_tmp zo tmp ?data = Inr (file_container ''f.txt'' content (md5_text ds content))"
      using logical_fixture_opens [of zo ?data, OF zo seg hex(2,1) len]
      by (simp add: open_logical_tmp_reader [OF assms])
    then show ?thesis
      using starts [of "''LogicalContainer''"]
      by (simp add: logical_debug_impl_renders_def Let_def c debug_container_def)
  qed
qed

end
