(* ===== verification/Reference_Tests.thy ===== *)
theory Reference_Tests
  imports File_Tests Crypto_Facts
begin

text \<open>
  The unit tests that run on binary reference images: those of \<^verbatim>\<open>crypto.rs\<close> on the encrypted
  image of the standard, rebuilt with another chunk index, and the one of \<^verbatim>\<open>vfs.rs\<close> on
  \<^verbatim>\<open>Base-Linear.aff4\<close>. The images are parameters; what is known of them, from the tests themselves,
  is a named hypothesis, and each test is shown to pass on every image of that description.
\<close>

section \<open>Rebuilding the encrypted image\<close>

definition enc_stream_dir :: string where
  "enc_stream_dir = ''aff4://c2dbd75f-b81c-4c14-8449-29e22f1601c8''"

definition enc_index_name :: string where
  "enc_index_name = enc_stream_dir @ ''/00000000.index''"

text \<open>\<open>None\<close> is a failed \<^verbatim>\<open>unwrap\<close>.\<close>

definition oracle_with_index :: "zip_writer \<Rightarrow> zip_archive \<Rightarrow> bytes \<Rightarrow> bytes option" where
  "oracle_with_index zip_pack oracle new_index =
     map_option zip_pack
       (those (map
          (\<lambda>name. case read_entry oracle name of
             Inl _ \<Rightarrow> None
           | Inr data \<Rightarrow> Some (name, if name = enc_index_name then new_index else data))
          (za_file_names oracle)))"

definition decrypt_tmp ::
    "bool \<Rightarrow> ciphers \<Rightarrow> zip_opener \<Rightarrow> temp_file \<Rightarrow> bytes option \<Rightarrow> bytes aff4_result option" where
  "decrypt_tmp oc ci zo tmp img =
     map_option (\<lambda>data. case tmp data of (fs, path) \<Rightarrow>
       decrypt_encrypted_stream oc ci fs zo path ''password'') img"

definition empty_segment_index_errs ::
    "bool \<Rightarrow> ciphers \<Rightarrow> zip_opener \<Rightarrow> temp_file \<Rightarrow> zip_writer \<Rightarrow> zip_archive \<Rightarrow> bool" where
  "empty_segment_index_errs oc ci zo tmp zip_pack oracle \<longleftrightarrow>
     (case decrypt_tmp oc ci zo tmp (oracle_with_index zip_pack oracle []) of
        Some res \<Rightarrow> bad_format_with res ''empty chunk index''
      | None \<Rightarrow> False)"

definition chunk_bounds_exceeding_bevy_errs ::
    "bool \<Rightarrow> ciphers \<Rightarrow> zip_opener \<Rightarrow> temp_file \<Rightarrow> zip_writer \<Rightarrow> zip_archive \<Rightarrow> bool" where
  "chunk_bounds_exceeding_bevy_errs oc ci zo tmp zip_pack oracle \<longleftrightarrow>
     (let idx = u64_to_le 0 @ u32_to_le 999999 in
      (case decrypt_tmp oc ci zo tmp (oracle_with_index zip_pack oracle idx) of
         Some res \<Rightarrow> bad_format_with res ''exceed bevy size''
       | None \<Rightarrow> False))"

definition stops_at_declared_size_with_extra_index_entry ::
    "bool \<Rightarrow> ciphers \<Rightarrow> zip_opener \<Rightarrow> temp_file \<Rightarrow> zip_writer \<Rightarrow> zip_archive \<Rightarrow> bool" where
  "stops_at_declared_size_with_extra_index_entry oc ci zo tmp zip_pack oracle \<longleftrightarrow>
     (case read_entry oracle enc_index_name of
        Inr idx \<Rightarrow>
          (case decrypt_tmp oc ci zo tmp (oracle_with_index zip_pack oracle (idx @ replicate 12 0)) of
             Some (Inr inner) \<Rightarrow> starts_with inner [0x50, 0x4B, 3, 4] \<and> length inner = 9074
           | _ \<Rightarrow> False)
      | Inl _ \<Rightarrow> False)"

section \<open>What is known of the encrypted image\<close>

definition oracle_data :: "zip_archive \<Rightarrow> string \<Rightarrow> bytes" where
  "oracle_data oracle name = (case read_entry oracle name of Inr d \<Rightarrow> d | Inl _ \<Rightarrow> [])"

definition rebuilt_entries :: "zip_archive \<Rightarrow> bytes \<Rightarrow> (string \<times> bytes) list" where
  "rebuilt_entries oracle idx =
     map (\<lambda>n. (n, if n = enc_index_name then idx else oracle_data oracle n)) (za_file_names oracle)"

text \<open>
  Its entries can be read, its turtle describes an encrypted stream of 9074 bytes under the
  directory of the tests, the password unwraps its key, and its one segment, of a whole number of
  index entries, decrypts to a ZIP volume of that size.
\<close>

definition oracle_ok :: "bool \<Rightarrow> ciphers \<Rightarrow> zip_archive \<Rightarrow> encrypted_meta \<Rightarrow> bytes \<Rightarrow> bytes \<Rightarrow> bool" where
  "oracle_ok oc ci oracle meta vek inner \<longleftrightarrow>
     (\<forall>n \<in> set (za_file_names oracle). \<exists>d. read_entry oracle n = Inr d) \<and>
     {''information.turtle'', enc_stream_dir @ ''/00000000'', enc_index_name} \<subseteq> set (za_file_names oracle) \<and>
     and_then (information_turtle oracle) parse_encrypted_meta = Inr meta \<and>
     em_size meta = 9074 \<and> base_of oracle (em_stream_arn meta) = enc_stream_dir \<and>
     derive_vek ci ''password'' meta = Inr vek \<and> length vek = 32 \<and>
     length (oracle_data oracle (enc_stream_dir @ ''/00000000'')) < 999999 \<and>
     length (oracle_data oracle enc_index_name) mod 12 = 0 \<and>
     decrypt_segment oc (xts_sector ci (subrange vek 0 16) (subrange vek 16 32)) oracle enc_stream_dir
       (em_chunks_per_segment meta) 9074 0 0 [] = Inr (9074, inner) \<and>
     starts_with inner [0x50, 0x4B, 3, 4] \<and> length inner = 9074"

lemma read_entry_text: "read_entry oracle n = Inr d \<Longrightarrow> by_name oracle n = Inr (Inr d)"
  by (cases "by_name oracle n") (auto simp: read_entry_def read_to_end_def split: sum.splits)

lemma oracle_rebuilt:
  assumes "\<forall>n \<in> set (za_file_names oracle). \<exists>d. read_entry oracle n = Inr d"
  shows "oracle_with_index zip_pack oracle idx = Some (zip_pack (rebuilt_entries oracle idx))"
proof -
  have "those (map (\<lambda>name. case read_entry oracle name of Inl _ \<Rightarrow> None
        | Inr data \<Rightarrow> Some (name, if name = enc_index_name then idx else data)) ns) =
      Some (map (\<lambda>n. (n, if n = enc_index_name then idx else oracle_data oracle n)) ns)"
    if "\<forall>n \<in> set ns. \<exists>d. read_entry oracle n = Inr d" for ns
    using that by (induction ns) (auto simp: oracle_data_def)
  with assms show ?thesis by (simp add: oracle_with_index_def rebuilt_entries_def)
qed

lemma rebuilt_names [simp]: "za_file_names (archive_of (rebuilt_entries oracle idx)) = za_file_names oracle"
  by (simp add: archive_of_def rebuilt_entries_def comp_def)

lemma rebuilt_entry:
  assumes "n \<in> set (za_file_names oracle)"
  shows "read_entry (archive_of (rebuilt_entries oracle idx)) n =
    Inr (if n = enc_index_name then idx else oracle_data oracle n)"
proof -
  have "map_of (map (\<lambda>n. (n, f n)) ns) n = Some (f n)" if "n \<in> set ns" for ns and f :: "string \<Rightarrow> bytes"
    using that by (induction ns) auto
  from this [OF assms] show ?thesis
    by (simp add: read_entry_def by_name_def archive_of_def rebuilt_entries_def read_to_end_def)
qed

lemma rebuilt_turtle:
  assumes "''information.turtle'' \<in> set (za_file_names oracle)"
    and "read_entry oracle ''information.turtle'' = Inr d"
  shows "information_turtle (archive_of (rebuilt_entries oracle idx)) = information_turtle oracle"
proof -
  have "''information.turtle'' \<noteq> enc_index_name" by (simp add: enc_index_name_def enc_stream_dir_def)
  with rebuilt_entry [OF assms(1), of idx] assms(2)
  have "read_entry (archive_of (rebuilt_entries oracle idx)) ''information.turtle'' = Inr d"
    by (simp add: oracle_data_def)
  from read_entry_text [OF this] read_entry_text [OF assms(2)] show ?thesis
    by (simp add: information_turtle_def)
qed

text \<open>The rebuilt image, decrypted: the outer loop on its one segment.\<close>

lemma decrypt_rebuilt:
  assumes ok: "oracle_ok oc ci oracle meta vek inner" and "temp_ok tmp"
    and "zip_ok zip_pack zo (rebuilt_entries oracle idx)"
  shows "decrypt_tmp oc ci zo tmp (oracle_with_index zip_pack oracle idx) =
    Some (decrypt_loop
      (decrypt_segment oc (xts_sector ci (subrange vek 0 16) (subrange vek 16 32))
         (archive_of (rebuilt_entries oracle idx)) enc_stream_dir (em_chunks_per_segment meta) 9074)
      9074 0 0 [])"
proof -
  let ?a = "archive_of (rebuilt_entries oracle idx)"
  have all: "\<forall>n \<in> set (za_file_names oracle). \<exists>d. read_entry oracle n = Inr d"
    and tin: "''information.turtle'' \<in> set (za_file_names oracle)"
    using ok by (simp_all add: oracle_ok_def)
  then obtain d where d: "read_entry oracle ''information.turtle'' = Inr d" by blast
  from ok obtain turtle where t: "information_turtle oracle = Inr turtle" "parse_encrypted_meta turtle = Inr meta"
    by (auto simp: oracle_ok_def)
  have z: "zip_archive_new zo (zip_pack (rebuilt_entries oracle idx)) = Inr ?a"
    using assms(3) by (simp add: zip_ok_def zip_archive_new_def)
  have t': "information_turtle ?a = Inr turtle" using rebuilt_turtle [OF tin d] t(1) by simp
  have b: "base_of ?a arn = base_of oracle arn" for arn
    by (simp add: base_of_def)
  have cap: "(with_capacity 9074 :: unit aff4_result) = Inr ()"
    by (simp add: with_capacity_def isize_max_def)
  have "decrypt_reader oc ci zo (zip_pack (rebuilt_entries oracle idx)) ''password'' =
    decrypt_loop
      (decrypt_segment oc (xts_sector ci (subrange vek 0 16) (subrange vek 16 32)) ?a enc_stream_dir
         (em_chunks_per_segment meta) 9074) 9074 0 0 []"
    using ok cap by (simp add: decrypt_reader_unfold [OF z t' t(2)] oracle_ok_def b aes128_key_def)
  moreover have "(case tmp data of (fs, path) \<Rightarrow> fs path) = Inr data" for data
    using assms(2) by (auto simp: temp_ok_def split: prod.splits)
  ultimately show ?thesis
    by (auto simp: decrypt_tmp_def oracle_rebuilt [OF all] decrypt_encrypted_stream_def open_file_def
        split: prod.split sum.split) (metis case_prod_conv sum.inject(2) sum.simps(4) Inl_Inr_False)+
qed

text \<open>Its only segment, with the index of the test.\<close>

lemma rebuilt_segment:
  assumes "oracle_ok oc ci oracle meta vek inner"
  shows "decrypt_segment oc xts (archive_of (rebuilt_entries oracle idx)) enc_stream_dir cps sz 0 p u =
    (if length idx div 12 = 0 then Inl (bad_format ''encrypted segment has an empty chunk index'')
     else decrypt_chunks oc xts cps sz idx (oracle_data oracle (enc_stream_dir @ ''/00000000'')) 0
       (map word_of_nat [0..<length idx div 12]) p u)"
proof -
  have name: "segment_name enc_stream_dir 0 = enc_stream_dir @ ''/00000000''"
    by (simp add: segment_name_def) code_simp
  have index: "(enc_stream_dir @ ''/00000000'') @ ''.index'' = enc_index_name"
    by (simp add: enc_index_name_def)
  have ne: "enc_stream_dir @ ''/00000000'' \<noteq> enc_index_name" by (simp add: enc_index_name_def)
  have "enc_stream_dir @ ''/00000000'' \<in> set (za_file_names oracle)" "enc_index_name \<in> set (za_file_names oracle)"
    using assms by (simp_all add: oracle_ok_def)
  note e = this [THEN rebuilt_entry, of idx]
  show ?thesis
    unfolding decrypt_segment_def Let_def name index using e ne by simp
qed

lemma empty_index_test_passes:
  assumes ok: "oracle_ok oc ci oracle meta vek inner" and "temp_ok tmp"
    and "zip_ok zip_pack zo (rebuilt_entries oracle [])"
  shows "empty_segment_index_errs oc ci zo tmp zip_pack oracle"
proof -
  have m: "contains ''encrypted segment has an empty chunk index'' ''empty chunk index''" by code_simp
  show ?thesis
    unfolding empty_segment_index_errs_def decrypt_rebuilt [OF assms]
    by (subst decrypt_loop.simps) (simp add: rebuilt_segment [OF ok] m del: find_str.simps)
qed

lemma exceeding_bounds_test_passes:
  assumes ok: "oracle_ok oc ci oracle meta vek inner" and "temp_ok tmp"
    and "zip_ok zip_pack zo (rebuilt_entries oracle (index_entry 0 999999))"
  shows "chunk_bounds_exceeding_bevy_errs oc ci zo tmp zip_pack oracle"
proof -
  let ?bevy = "oracle_data oracle (enc_stream_dir @ ''/00000000'')"
  have b: "chunk_bounds_from_index oc (index_entry 0 999999) 0 = Inr (0, 999999)"
    using bevy.bounds_entry [of 0 "[(0, 999999)]" 0 999999 oc] by simp
  have l: "length ?bevy < 999999" using ok by (simp add: oracle_ok_def)
  have idx: "u64_to_le 0 @ u32_to_le 999999 = index_entry 0 999999" by (simp add: index_entry_def)
  have m: "contains (''encrypted chunk bounds ('' @ s @ ''..'' @ t @ '') exceed bevy size ('' @ w) ''exceed bevy size''"
    for s t w
    unfolding contains_iff
    by (rule exI [of _ "''encrypted chunk bounds ('' @ s @ ''..'' @ t @ '') ''"], rule exI [of _ "'' ('' @ w"]) simp
  have "decrypt_segment oc xts (archive_of (rebuilt_entries oracle (index_entry 0 999999))) enc_stream_dir
      cps 9074 0 0 [] = Inl (bounds_error ''encrypted chunk'' 0 999999 (length ?bevy))" for xts cps
    using l by (simp add: rebuilt_segment [OF ok] b)
  then show ?thesis
    unfolding chunk_bounds_exceeding_bevy_errs_def Let_def idx decrypt_rebuilt [OF assms]
    by (subst decrypt_loop.simps) (use m in \<open>simp add: bounds_error_def del: find_str.simps\<close>)
qed

text \<open>An index with more entries decodes the same ones, and the chunk loop stops at the size.\<close>

lemma chunk_bounds_longer:
  "chunk_bounds_from_index oc idx k = Inr x \<Longrightarrow> chunk_bounds_from_index oc (idx @ extra) k = Inr x"
  by (auto simp: chunk_bounds_from_index_eq get_range_def subrange_def Let_def split: if_splits)

lemma decrypt_chunks_longer:
  "decrypt_chunks oc xts cps sz idx bevy segment ks p u = Inr (sz, out) \<Longrightarrow>
   decrypt_chunks oc xts cps sz (idx @ extra) bevy segment (ks @ extra_ks) p u = Inr (sz, out)"
proof (induction ks arbitrary: p u)
  case Nil
  then show ?case by (cases extra_ks) auto
next
  case (Cons k ks)
  show ?case
  proof (cases "sz \<le> p")
    case True
    with Cons.prems show ?thesis by simp
  next
    case False
    then have sub: "(plain_sub oc sz p :: u64 aff4_result) = Inr (sz - p)" by simp
    from Cons.prems False obtain x where x: "chunk_bounds_from_index oc idx k = Inr x" by auto
    obtain a b where ab: "x = (a, b)" by (cases x)
    from Cons.prems False x ab sub obtain t sector p' where
      run: "\<not> length bevy < unat b" "encrypted_chunk_id cps segment k = Some t"
        "xts_decrypt xts (unat t) (subrange bevy (unat a) (unat b)) = Inr sector"
        "(plain_add oc p (word_of_nat (min (length sector) (unat (sz - p)))) :: u64 aff4_result) = Inr p'"
      and rest: "decrypt_chunks oc xts cps sz idx bevy segment ks p'
        (u @ take (min (length sector) (unat (sz - p))) sector) = Inr (sz, out)"
      by (auto simp: Let_def split: if_splits)
    show ?thesis
      using False run sub chunk_bounds_longer [OF x, of extra] ab Cons.IH [OF rest]
      by (simp add: Let_def)
  qed
qed

lemma declared_size_test_passes:
  assumes ok: "oracle_ok oc ci oracle meta vek inner" and "temp_ok tmp"
    and "zip_ok zip_pack zo (rebuilt_entries oracle (oracle_data oracle enc_index_name @ replicate 12 0))"
  shows "stops_at_declared_size_with_extra_index_entry oc ci zo tmp zip_pack oracle"
proof -
  let ?idx = "oracle_data oracle enc_index_name" and ?name = "enc_stream_dir @ ''/00000000''"
  let ?xts = "xts_sector ci (subrange vek 0 16) (subrange vek 16 32)" and ?cps = "em_chunks_per_segment meta"
  have name: "segment_name enc_stream_dir 0 = ?name" "?name @ ''.index'' = enc_index_name"
    by (simp add: segment_name_def, code_simp) (simp add: enc_index_name_def)
  have listed: "?name \<in> set (za_file_names oracle)" "enc_index_name \<in> set (za_file_names oracle)"
    and read: "\<forall>n \<in> set (za_file_names oracle). \<exists>d. read_entry oracle n = Inr d"
    using ok by (simp_all add: oracle_ok_def)
  have e: "read_entry oracle ?name = Inr (oracle_data oracle ?name)" "read_entry oracle enc_index_name = Inr ?idx"
    using read listed by (auto simp: oracle_data_def)
  have seg: "decrypt_segment oc ?xts oracle enc_stream_dir ?cps 9074 0 0 [] = Inr (9074, inner)"
    and m: "length ?idx mod 12 = 0" and inner: "starts_with inner [0x50, 0x4B, 3, 4]" "length inner = 9074"
    using ok by (simp_all add: oracle_ok_def)
  from seg have c: "decrypt_chunks oc ?xts ?cps 9074 ?idx (oracle_data oracle ?name) 0
      (map word_of_nat [0..<length ?idx div 12]) 0 [] = Inr (9074, inner)"
    unfolding decrypt_segment_def Let_def name using e by (simp split: if_splits)
  have "decrypt_segment oc ?xts (archive_of (rebuilt_entries oracle (?idx @ replicate 12 0))) enc_stream_dir
      ?cps 9074 0 0 [] = Inr (9074, inner)"
  proof -
    have n: "length (?idx @ replicate 12 (0 :: u8)) div 12 = Suc (length ?idx div 12)" by simp
    show ?thesis
      unfolding rebuilt_segment [OF ok] n
      using decrypt_chunks_longer [OF c, of "replicate 12 0" "[word_of_nat (length ?idx div 12)]"] by simp
  qed
  then have "decrypt_tmp oc ci zo tmp (oracle_with_index zip_pack oracle (?idx @ replicate 12 0)) =
      Some (Inr inner)"
    unfolding decrypt_rebuilt [OF assms]
    by (subst decrypt_loop.simps, subst decrypt_loop.simps) (simp add: checked_add_def)
  then show ?thesis
    using inner by (simp add: stops_at_declared_size_with_extra_index_entry_def e(2))
qed

section \<open>The positioned reads of Base-Linear\<close>

definition aff4_reader_is_an_image_source ::
    "bool \<Rightarrow> codecs \<Rightarrow> zip_opener \<Rightarrow> safe_read \<Rightarrow> bytes \<Rightarrow> bool" where
  "aff4_reader_is_an_image_source oc cd zo sr base_linear \<longleftrightarrow>
     (case open_reader zo sr base_linear of
        Inl _ \<Rightarrow> False
      | Inr reader \<Rightarrow>
          virtual_disk_size reader = 268435456 \<and>
          (let src = aff4_source_new reader in
           src_len src = 268435456 \<and> src_len src \<noteq> 0 \<and>
           (case read_at oc cd src 0 (replicate 512 0) of (res, sector, src) \<Rightarrow>
              res = Inr 512 \<and> (sector ! 510, sector ! 511) = (0x55, 0xAA) \<and> sector \<noteq> replicate 512 0 \<and>
              (case read_at oc cd src 268435456 (replicate 16 0) of (res, _, src) \<Rightarrow>
                 res = Inr 0 \<and>
                 (case read_at oc cd src (268435456 - 8) (replicate 64 0) of (res, over, src) \<Rightarrow>
                    res = Inr 8 \<and>
                    fst (read_at oc cd src (268435456 + 4096) over) = Inr 0)))))"

text \<open>What the test knows of the image: its size, its boot signature, and that it is complete.\<close>

definition base_linear_ok :: "bool \<Rightarrow> codecs \<Rightarrow> aff4_reader \<Rightarrow> bool" where
  "base_linear_ok oc cd r \<longleftrightarrow>
     rd_virtual_size r = 268435456 \<and> reader_ok r \<and> chunks_bounded oc cd r \<and>
     (\<forall>p < 268435456. disk_byte oc cd r p \<noteq> None) \<and>
     disk_byte oc cd r 510 = Some 0x55 \<and> disk_byte oc cd r 511 = Some 0xAA"

lemma same_source_trans: "same_source a b \<Longrightarrow> same_source b c \<Longrightarrow> same_source a c"
  unfolding same_source_def using same_image_trans by metis

lemma image_source_test_passes:
  assumes "open_reader zo sr base_linear = Inr r" and ok: "base_linear_ok oc cd r"
  shows "aff4_reader_is_an_image_source oc cd zo sr base_linear"
proof -
  let ?s = "aff4_source_new r" and ?z = "replicate 512 (0 :: u8)"
  have s: "source_ok oc cd ?s" "src_len ?s = 268435456" "src_inner ?s = r"
    using ok by (simp_all add: source_ok_def aff4_source_new_def virtual_disk_size_def base_linear_ok_def)
  have bytes: "disk_byte oc cd r p \<noteq> None" if "p < 268435456" for p
    using ok that by (simp add: base_linear_ok_def)
  have full: "fst (read_at oc cd src off buf) = Inr (wanted src off buf)"
    if "same_source ?s src" "unat off < 2 ^ 63" for src off buf
  proof (rule read_at_complete [OF _ that(2)])
    have i: "same_image r (src_inner src)" and l: "src_len src = 268435456"
      using that(1) s by (simp_all add: same_source_def)
    note f = same_image_facts [OF i]
    show "source_ok oc cd src"
      using s(1) f l ok by (simp add: source_ok_def base_linear_ok_def aff4_source_new_def)
    show "disk_byte oc cd (src_inner src) p \<noteq> None" if "unat off \<le> p" "p < unat off + wanted src off buf" for p
      using that bytes [of p] l f(1) by (auto simp: wanted_def)
  qed
  have wanted: "wanted src off buf = min (length buf) (268435456 - unat off)" if "same_source ?s src" for src off buf
    using that s by (simp add: wanted_def same_source_def)
  obtain res1 b1 s1 where r1: "read_at oc cd ?s 0 ?z = (res1, b1, s1)" by (metis prod_cases3)
  obtain res2 b2 s2 where r2: "read_at oc cd s1 268435456 (replicate 16 0) = (res2, b2, s2)" by (metis prod_cases3)
  obtain res3 b3 s3 where r3: "read_at oc cd s2 (268435456 - 8) (replicate 64 0) = (res3, b3, s3)"
    by (metis prod_cases3)
  have same0: "same_source ?s ?s" by (simp add: same_source_def)
  note same1 = read_at_same_source [OF r1]
  note same2 = same_source_trans [OF same1 read_at_same_source [OF r2]]
  note same = same1 same2 same_source_trans [OF same2 read_at_same_source [OF r3]]
  have res1: "res1 = Inr 512"
    using full [OF same0, of 0 ?z] unfolding r1 wanted [OF same0] length_replicate by simp
  have res2: "res2 = Inr 0"
    using full [OF same(1), of 268435456 "replicate 16 0"] unfolding r2 wanted [OF same(1)] by simp
  have res3: "res3 = Inr 8"
    using full [OF same(2), of "268435456 - 8" "replicate 64 0"] unfolding r3 wanted [OF same(2)] by simp
  have res4: "fst (read_at oc cd s3 (268435456 + 4096) b3) = Inr 0"
    using full [OF same(3), of "268435456 + 4096" b3] unfolding wanted [OF same(3)] by simp
  from read_at_content [OF s(1) r1 [unfolded res1]]
  have len: "length b1 = 512" and "map Some (take 512 b1) = map (disk_byte oc cd r) [unat (0 :: u64)..<unat (0 :: u64) + 512]"
    unfolding s(3) length_replicate by blast+
  then have c: "length b1 = 512" "map Some b1 = map (disk_byte oc cd r) [0..<512]" by simp_all
  have at: "Some (b1 ! i) = disk_byte oc cd r i" if "i < 512" for i
    using arg_cong [OF c(2), of "\<lambda>xs. xs ! i"] that c(1) by simp
  have boot: "b1 ! 510 = 0x55" "b1 ! 511 = 0xAA"
    using at [of 510] at [of 511] ok by (simp_all add: base_linear_ok_def)
  have "b1 \<noteq> ?z"
  proof
    assume "b1 = ?z"
    then have "b1 ! 510 = 0" by simp
    with boot show False by simp
  qed
  moreover have "virtual_disk_size r = 268435456" "(268435456 :: u64) \<noteq> 0"
    using ok by (simp_all add: virtual_disk_size_def base_linear_ok_def)
  ultimately show ?thesis
    unfolding aff4_reader_is_an_image_source_def assms(1) sum.case Let_def r1 prod.case r2 r3 res1 res2 res3
      res4 s(2)
    using boot by (simp only: simp_thms)
qed

end
