(* ===== verification/Spec2Isabelle.thy ===== *)
theory Spec2Isabelle
  imports Map_Properties Meta_Properties Reader_Properties Image_Properties Container_Properties
    Audit_Properties Writer_Properties Fuzz_Targets Loop_Properties Image_Tests Reference_Tests
begin

text \<open>
  A verification development for the AFF4 reader \<^verbatim>\<open>aff4\<close> (\<^verbatim>\<open>core/src\<close>) and its integrity
  analyser \<^verbatim>\<open>aff4-forensic\<close> (\<^verbatim>\<open>forensic/src\<close>).

  \<^bold>\<open>The program.\<close> An AFF4 image is a ZIP archive with metadata in \<^verbatim>\<open>information.turtle\<close>. The
  metadata parser (\<^verbatim>\<open>meta.rs\<close>) finds the stream, its chunk geometry, its hashes and an optional
  map; the map component (\<^verbatim>\<open>map.rs\<close>) resolves a position of the virtual disk to a region of the
  stream, a fill byte or a tile; the reader (\<^verbatim>\<open>lib.rs\<close>) finds the chunk of a stream position in
  its bevy segment through the 12-byte index, decompresses it, and offers \<^verbatim>\<open>Read\<close>, \<^verbatim>\<open>Seek\<close> and
  a streaming pass; the adapter (\<^verbatim>\<open>vfs.rs\<close>) turns these into positioned reads under a mutex; the
  audit streams the content through the declared digests. Two containers are no disk images:
  collections of logical files (\<^verbatim>\<open>logical.rs\<close>) and encrypted streams (\<^verbatim>\<open>crypto.rs\<close>).

  \<^bold>\<open>The theories.\<close>

  \<^item> \<open>Prelude\<close>: integers of fixed width, the checked, saturating and plain operations, outcomes
    (\<open>Inr\<close> a value, \<open>Inl (Err e)\<close> an error, \<open>Inl (Panic p)\<close> a panic), little-endian words, and the
    slices and indexes of Rust (\<open>slice_of\<close>, \<open>index_at\<close>), which panic out of range. \<open>Rust_Str\<close>: the
    string operations of the standard library, on strings of UTF-8 bytes; \<open>str_slice\<close> panics out of
    range and inside a character.
  \<^item> \<open>Aff4_Error\<close> (\<^verbatim>\<open>error.rs\<close>), \<open>Bevy_Index\<close> (\<open>chunk_bounds_from_index\<close>), \<open>Zip_Container\<close>
    (\<open>detect_zip_base\<close>, entry reads), \<open>Aff4_Map\<close> (\<^verbatim>\<open>map.rs\<close>), \<open>Meta\<close> (\<^verbatim>\<open>meta.rs\<close>), \<open>Reader\<close>
    (\<^verbatim>\<open>lib.rs\<close>), \<open>Vfs\<close> (\<^verbatim>\<open>vfs.rs\<close>), \<open>Logical\<close> (\<^verbatim>\<open>logical.rs\<close>), \<open>Crypto\<close> (\<^verbatim>\<open>crypto.rs\<close>),
    \<open>Forensic\<close> (\<^verbatim>\<open>forensic/src/lib.rs\<close>), \<open>Fixtures\<close> (\<^verbatim>\<open>testutil.rs\<close>), \<open>Fuzz_Targets\<close>
    (\<^verbatim>\<open>fuzz/fuzz_targets\<close>): one definition per function, under the name of the source where HOL
    allows it, and one record or datatype per type. \<open>aff4_reader\<close> is \<^verbatim>\<open>Aff4Reader\<close>: an operation
    with \<^verbatim>\<open>&mut self\<close> takes the reader and returns the updated one.
  \<^item> \<open>Stream_Interface\<close> states what a reader of a byte stream promises (locales \<open>byte_stream\<close>,
    \<open>seekable_stream\<close>, \<open>readable_stream\<close>), \<open>Aff4_Map\<close> what an address map promises
    (\<open>address_map\<close>), \<open>Bevy_Index\<close> what a chunk index promises (\<open>chunk_index\<close>), \<open>Image_Content\<close> what
    a source of content promises the audit (\<open>content_source\<close>), \<open>Forensic_Facts\<close> what a hasher
    promises (\<open>incremental_hash\<close>). \<open>Virtual_Disk\<close> gives
    the abstract disk, a byte or nothing for every position (\<open>disk_byte\<close>), and interprets the
    stream locales on \<open>aff4_read\<close> and \<open>aff4_seek\<close>.
  \<^item> \<open>Bevy_Layout\<close>, \<open>Image_Content\<close>: what it means that an archive holds stored chunks in bevies,
    what a chunk and the whole stream then read as. \<open>Meta_Facts\<close>, \<open>Reader_Facts\<close>,
    \<open>Crypto_Facts\<close>, \<open>Forensic_Facts\<close>, \<open>Fixture_Facts\<close>: the lemmas of the components. \<open>Sessions\<close>:
    sequences of reads and seeks as an inductive step relation, and sequences of positioned reads.
    \<open>Map_Fixture\<close> opens the map-backed test image and reads it back.
    \<open>Logical_Fixture\<close> parses the turtle of the logical test container for every file name and
    size. \<open>Turtle_Writer\<close> and \<open>Image_Writer\<close> are a reference writer of disk images, a specification
    with no counterpart in the program: the turtle of any metadata, the bevies under each of the
    three ways producers name them, the map and its targets. \<open>Std_Read\<close> has
    the standard library's \<^verbatim>\<open>read_exact\<close> and \<^verbatim>\<open>read_to_end\<close> over a reader.
  \<^item> \<open>Unit_Tests\<close>, \<open>File_Tests\<close>, \<open>Image_Tests\<close>, \<open>Reference_Tests\<close>: the unit tests of the sources,
    each a truth value of the model under its own name, with the lemma that it passes; those on
    files are stated over every temporary file, ZIP writer and ZIP reader that give back what was
    written, those on the binary reference images over every image of the stated description.
  \<^item> \<open>Map_Properties\<close>, \<open>Meta_Properties\<close>, \<open>Reader_Properties\<close>, \<open>Image_Properties\<close>,
    \<open>Container_Properties\<close>, \<open>Audit_Properties\<close>, \<open>Writer_Properties\<close>, \<open>Loop_Properties\<close>, the fixtures' theories,
    \<open>Fuzz_Targets\<close> and this theory: the properties,
    numbered, each with a concrete instance on the images of \<open>Examples\<close>.

  \<^bold>\<open>What the theorems show.\<close> Reads of every kind return the bytes of the
  abstract disk, and a positioned read returns all of them, as does reading to the end, which
  always ends; nothing but the position changes through a session, and calls from several threads
  do not influence each other. Written images, the fixtures and encrypted volumes read back as
  written; for a disk image this holds from its metadata to the bytes of its archive and back, and
  an audit of such an image finds exactly where the content it holds has other digests than the
  content it was declared for. The reading theorems ask for what opening does not check: a map in
  order, without overlaps and within 64 bits (\<open>reader_ok\<close>), and chunks that decode to at most the
  chunk size (\<open>chunks_bounded\<close>). The map lookup, the gap, the unreadable regions, the bevy index,
  the parsers and the segment lookup have their specifications. The audit reports exactly the
  digests that differ and the regions that were unreadable, from the file at a path to its
  findings. Encrypted images are refused exactly when the metadata says so. Opening never panics,
  and reading panics only on the malformed maps and sizes that the theorems name.

  \<^bold>\<open>Slices and indexes.\<close> Every slice and index expression of the program that can panic is a checked
  operation of the model, at its place among the guards: the index entry, the chunk in the bevy, the
  chunk and the buffer in \<open>aff4_read\<close>, the sink's piece, the seed of a tile, the map entry found, the
  bytes of a sector and of the key, the cuts of the turtle, of names and of segment paths, and the
  tokens and digits of the two index loops. Each operation then has a lemma \<open>..._eq\<close> that its guards
  keep the accesses in range, with the value it has (\<open>read_chunk_eq\<close>, \<open>aff4_read_eq\<close> with \<open>advance\<close>,
  \<open>decrypt_chunks_Cons\<close>, \<open>resolve_eq\<close>, \<open>extract_iri_eq\<close> with \<open>first_iri\<close>, \<open>detect_zip_base_eq\<close> with
  \<open>base_of\<close>, \<open>arn_tail_eq\<close> with \<open>path_tail\<close>), on which the component proofs rest. Cuts of a text
  need \<open>str_ok\<close>: no continuation byte stands behind an ASCII byte, which holds of any text
  \<open>read_to_string\<close> accepts as UTF-8 and of its parts.

  \<^bold>\<open>Machine behaviour.\<close> The flag \<open>oc\<close> says whether the build checks arithmetic (debug, test and
  fuzz builds) or wraps (release builds); theorems hold for both unless they fix it. \<^verbatim>\<open>usize\<close> has
  64 bits. Every loop of the program is a total function with a measure (what is left of the
  list, the buffer or the text; for the segments of an encrypted stream the numbers left below
  $2^{64}$), so that each definition always returns; that decryption looks at no more segments than
  the archive has is proved against a version with bounded rounds. Only \<open>read_to_vec\<close>, the loop of
  the standard library over any reader, is a partial function, with \<open>None\<close> for a loop that never
  ends, and is shown to end on every AFF4 reader. Running out of memory below the allocation limit
  of a vector is not modelled.

  \<^bold>\<open>Parameters.\<close> Code outside the repository is an argument: the file system, the ZIP reader
  (\<open>zip_opener\<close>, the entry names and contents of \<open>zip_archive\<close>), the ZIP writer of the fixtures, the
  decompressors (\<open>codecs\<close>), PBKDF2, key unwrap and AES-XTS (\<open>ciphers\<close>), the digests (\<open>digests\<close>), the
  bounds-checked integer reads (\<open>safe_read\<close>), the report crate's severities and findings, and the
  temporary files of the fuzz harnesses. Where a theorem needs their documented behaviour it is a
  named hypothesis (\<open>safe_read_law\<close>, \<open>digests_law\<close>, \<open>encodes\<close>), met by a concrete function in the
  instance that follows the theorem.

  \<^bold>\<open>Not modelled.\<close> The integration tests, whose subject is the content of binary reference
  images; the mutex, whose calls are taken as atomic; the internals of the crates above; the build
  and the supply-chain files.
\<close>

section \<open>Properties that span components\<close>

lemma no_panic_container_kind: "no_panic (container_kind fs zo path)"
proof -
  have "no_panic (case parse_turtle t of Inr _ \<Rightarrow> Inr Disk
      | Inl (Err (Encrypted _)) \<Rightarrow> Inr EncryptedContainer | Inl e \<Rightarrow> Inl e)" if "str_ok t" for t
    using no_panic_parse_turtle [OF that]
    by (cases "parse_turtle t" rule: no_panic.cases) (auto split: aff4_error.split)
  then show ?thesis
    unfolding container_kind_def
    by (intro no_panic_and_then)
      (auto intro!: no_panic_parse_logical_files dest!: information_turtle_str_ok)
qed

text \<open>
  C16. No container makes opening panic: whatever the file system, the ZIP reader and the bytes,
  opening a disk image, probing the kind of a container and opening a logical container end in a
  value or an error. So every index the metadata parser takes is in range, and every slice it cuts
  out of the turtle or of a name lies within it and on character boundaries, given only that the
  turtle was read as valid UTF-8.
\<close>

theorem opening_never_panics:
  "no_panic (open_path fs zo sr path) \<and> no_panic (container_kind fs zo path) \<and>
   no_panic (logical_open fs zo path)"
  using no_panic_container_kind
  by (auto simp: open_path_def logical_open_def)

lemma load_map_not_encrypted: "\<not> is_encrypted (load_map sr a mm)"
  by (auto simp: load_map_def Let_def is_encrypted_iff and_then_eq_Inl read_zip_entry_bytes_def
      by_name_def read_to_end_def read_to_string_def split: sum.splits if_splits)

lemma open_reader_encrypted:
  assumes "zo backing = Inr a" and "information_turtle a = Inr t"
  shows "is_encrypted (open_reader zo sr backing) \<longleftrightarrow> is_encrypted (parse_turtle t)"
  using assms load_map_not_encrypted
  by (auto simp: open_reader_def zip_archive_new_def is_encrypted_iff and_then_eq_Inl
      split: option.splits)

text \<open>
  C17. Encrypted streams are refused, and nothing else is: a disk image whose metadata can be read
  is refused as \<open>Encrypted\<close> exactly when its turtle names an \<open>aff4:EncryptedStream\<close>
  anywhere, whatever its blocks, line breaks and separators.
\<close>

theorem encrypted_refused_iff:
  assumes "zo backing = Inr a" and "information_turtle a = Inr turtle"
  shows "is_encrypted (open_reader zo sr backing) \<longleftrightarrow> contains turtle ''aff4:EncryptedStream''"
  using open_reader_encrypted [of zo backing a turtle sr] assms
    parse_turtle_encrypted_iff [OF information_turtle_str_ok [OF assms(2)]]
  by simp

lemma encrypted_refused_iff_witness:
  "is_encrypted (open_reader enc_zip safe_read_impl []) \<longleftrightarrow>
    contains enc_turtle ''aff4:EncryptedStream''"
  by (rule encrypted_refused_iff [OF refl enc_parts(2)])

lemma encrypted_meta_refused: "parse_encrypted_meta t = Inr m \<Longrightarrow> is_encrypted (parse_turtle t)"
  by (auto simp: parse_encrypted_meta_def parse_turtle_def Let_def ok_or_def split: option.splits)

text \<open>
  C39. An encrypted volume, whole: the container that holds the chunks of a plaintext, encrypted
  one by one, is refused by the disk opener, and opening it with the right password as a logical
  container is opening the plaintext, whatever that is.
\<close>

theorem encrypted_volume_needs_password:
  assumes "fs path = Inr backing" and "zo backing = Inr archive"
    and "information_turtle archive = Inr turtle" and "parse_encrypted_meta turtle = Inr meta"
    and "derive_vek ci password meta = Inr vek" and "length vek = 32"
    and "unat (em_size meta) \<le> isize_max" and "unat (em_size meta) \<le> length (concat chunks)"
    and "\<And>t. t < length chunks \<Longrightarrow>
      xts_sector ci (subrange vek 0 16) (subrange vek 16 32) t (enc t (chunks ! t)) = Some (chunks ! t)"
    and "bevies_held archive (base_of archive (em_stream_arn meta))
      (em_chunks_per_segment meta) (encrypt_all enc chunks)"
  shows "is_encrypted (open_path fs zo sr path) \<and>
    open_encrypted oc ci fs zo path password =
      logical_open_reader zo (take (unat (em_size meta)) (concat chunks))"
proof
  have z: "zip_archive_new zo backing = Inr archive" by (simp add: zip_archive_new_def assms(2))
  show "is_encrypted (open_path fs zo sr path)"
    using open_reader_encrypted [of zo backing archive turtle sr] encrypted_meta_refused assms(1-4)
    by (simp add: open_path_def open_file_def)
  have "decrypt_reader oc ci zo backing password = Inr (take (unat (em_size meta)) (concat chunks))"
    by (rule decrypt_written [OF z assms(3-10)])
  then show "open_encrypted oc ci fs zo path password =
      logical_open_reader zo (take (unat (em_size meta)) (concat chunks))"
    by (simp add: open_encrypted_def decrypt_encrypted_stream_def open_file_def assms(1))
qed

text \<open>The plaintext of the small encrypted container, read back as a logical one.\<close>

definition both_zip :: zip_opener where
  "both_zip d = (if d = [] then Inr (archive_of enc_entries) else Inr logical_demo)"

lemma encrypted_volume_needs_password_witness:
  "is_encrypted (open_path (\<lambda>_. Inr []) both_zip safe_read_impl ''e.aff4'') \<and>
   (\<exists>c. open_encrypted True toy_ciphers (\<lambda>_. Inr []) both_zip ''e.aff4'' ''pw'' = Inr c)"
proof -
  have z: "both_zip [] = Inr (archive_of enc_entries)" by (simp add: both_zip_def)
  have "is_encrypted (open_path (\<lambda>_. Inr []) both_zip safe_read_impl ''e.aff4'') \<and>
    open_encrypted True toy_ciphers (\<lambda>_. Inr []) both_zip ''e.aff4'' ''pw'' =
      logical_open_reader both_zip (take (unat (em_size enc_meta)) (concat enc_chunks))"
    by (rule encrypted_volume_needs_password [where backing = "[]" and enc = add_tweak])
      (rule refl, rule z, rule enc_parts(2), rule enc_parts(3), rule toy_vek, rule enc_size(3),
        rule enc_size(1), rule enc_size(2), rule toy_inverts, assumption, rule enc_held_meta)
  moreover have "both_zip (take (unat (em_size enc_meta)) (concat enc_chunks)) = Inr logical_demo"
  proof -
    have "take (unat (em_size enc_meta)) (concat enc_chunks) \<noteq> []"
      by (simp add: enc_meta_def enc_chunks_def)
    then show ?thesis by (simp only: both_zip_def if_False)
  qed
  then have "logical_open_reader both_zip (take (unat (em_size enc_meta)) (concat enc_chunks)) =
      logical_open_reader (\<lambda>_. Inr logical_demo) []"
    by (simp only: logical_open_reader_def zip_archive_new_def)
  ultimately show ?thesis using logical_demo_opens by metis
qed

lemma container_kind_opened:
  assumes "container_kind fs zo path = Inr k"
  obtains backing a t where "fs path = Inr backing" "zo backing = Inr a" "information_turtle a = Inr t"
proof -
  from assms obtain backing where "open_file fs path = Inr backing"
    and *: "and_then (zip_archive_new zo backing) (\<lambda>a. and_then (information_turtle a) (\<lambda>t.
        and_then (parse_logical_files t) (\<lambda>fs. if fs \<noteq> [] then Inr Logical
          else (case parse_turtle t of Inr _ \<Rightarrow> Inr Disk
                | Inl (Err (Encrypted _)) \<Rightarrow> Inr EncryptedContainer | Inl e \<Rightarrow> Inl e)))) = Inr k"
    unfolding container_kind_def and_then_eq_Inr by blast
  from * obtain a t where "zip_archive_new zo backing = Inr a" "information_turtle a = Inr t"
    unfolding and_then_eq_Inr by blast
  with \<open>open_file fs path = Inr backing\<close> that show thesis
    by (auto simp: open_file_def zip_archive_new_def split: sum.splits)
qed

text \<open>
  C29. The probe agrees with the openers: a container that opens as a logical one is reported as
  \<open>Logical\<close>; one that opens as a disk image is reported as \<open>Disk\<close>, unless it also has logical
  files; one reported as \<open>EncryptedContainer\<close> is refused by the disk opener as encrypted, and one
  reported as \<open>Disk\<close> or \<open>EncryptedContainer\<close> is refused by the logical opener.
\<close>

theorem container_kind_agrees:
  "(\<forall>c. logical_open fs zo path = Inr c \<longrightarrow> container_kind fs zo path = Inr Logical) \<and>
   (\<forall>r. open_path fs zo sr path = Inr r \<longrightarrow>
      container_kind fs zo path \<in> {Inr Disk, Inr Logical} \<or>
      (\<exists>m. container_kind fs zo path = Inl (bad_format m))) \<and>
   (container_kind fs zo path = Inr EncryptedContainer \<longrightarrow>
      is_encrypted (open_path fs zo sr path)) \<and>
   (container_kind fs zo path = Inr Disk \<or> container_kind fs zo path = Inr EncryptedContainer \<longrightarrow>
      is_bad_format (logical_open fs zo path))"
proof (intro conjI allI impI)
  fix c assume "logical_open fs zo path = Inr c"
  then show "container_kind fs zo path = Inr Logical"
    by (auto simp: logical_open_def logical_open_reader_def container_kind_def split: if_splits)
next
  fix r assume "open_path fs zo sr path = Inr r"
  then obtain backing a t m where o: "fs path = Inr backing" "zo backing = Inr a"
    "information_turtle a = Inr t" "parse_turtle t = Inr m"
    by (auto simp: open_path_def open_reader_def open_file_def zip_archive_new_def split: sum.splits)
  show "container_kind fs zo path \<in> {Inr Disk, Inr Logical} \<or>
      (\<exists>m. container_kind fs zo path = Inl (bad_format m))"
  proof (cases "parse_logical_files t")
    case (Inr parsed)
    then show ?thesis by (simp add: container_kind_unfold [of fs path backing zo a t] o)
  next
    case (Inl e)
    have "\<exists>m. traverse parse_file_image bs = Inl e \<longrightarrow> e = bad_format m"
      if "\<And>b. b \<in> set bs \<Longrightarrow> str_ok b" for bs
      using that
    proof (induction bs)
      case (Cons b bs)
      have "str_ok b" using Cons.prems by simp
      with Cons show ?case
        by (auto simp: parse_file_image_def extract_iri_eq extract_pred_quoted_eq
            and_then_eq_Inl ok_or_def unwrap_or_no_error split: option.splits)
    qed simp
    from this [of "filter (\<lambda>b. contains b ''aff4:FileImage'') (turtle_blocks t)"]
    obtain m where "e = bad_format m"
      using Inl str_ok_block [OF information_turtle_str_ok [OF o(3)]]
      by (auto simp: parse_logical_files_def)
    with Inl show ?thesis by (simp add: container_kind_unfold [of fs path backing zo a t] o)
  qed
next
  assume k: "container_kind fs zo path = Inr EncryptedContainer"
  then obtain backing a t where o: "fs path = Inr backing" "zo backing = Inr a"
    "information_turtle a = Inr t" by (rule container_kind_opened)
  from k have "is_encrypted (parse_turtle t)"
    by (auto simp: container_kind_unfold [of fs path backing zo a t] o is_encrypted_iff and_then_eq_Inr
        split: if_splits sum.splits fault.splits aff4_error.splits)
  then show "is_encrypted (open_path fs zo sr path)"
    by (simp add: open_path_def open_file_def o(1) open_reader_encrypted [of zo backing a t sr] o(2,3))
next
  assume k: "container_kind fs zo path = Inr Disk \<or> container_kind fs zo path = Inr EncryptedContainer"
  then obtain backing a t where o: "fs path = Inr backing" "zo backing = Inr a"
    "information_turtle a = Inr t" by (metis container_kind_opened)
  from k have "parse_logical_files t = Inr []"
    by (auto simp: container_kind_unfold [of fs path backing zo a t] o and_then_eq_Inr split: if_splits)
  then show "is_bad_format (logical_open fs zo path)"
    by (simp add: logical_open_def open_file_def logical_open_reader_def zip_archive_new_def o)
qed

lemma container_kind_agrees_witness:
  "container_kind (\<lambda>_. Inr []) (\<lambda>_. Inr logical_demo) ''dream.aff4'' = Inr Logical"
proof -
  obtain c where "logical_open_reader (\<lambda>_. Inr logical_demo) [] = Inr c"
    using logical_demo_opens by blast
  then have "logical_open (\<lambda>_. Inr []) (\<lambda>_. Inr logical_demo) ''dream.aff4'' = Inr c"
    by (simp add: logical_open_def open_file_def)
  with container_kind_agrees [of "\<lambda>_. Inr []" "\<lambda>_. Inr logical_demo" "''dream.aff4''"]
  show ?thesis by blast
qed

text \<open>
  C7. Reading never panics on an image with a well-formed map (in order, not overlapping, within 64
  bits), a declared chunk size of at most \<^verbatim>\<open>isize::MAX\<close> and segments whose index is smaller than
  $2^{64}$ bytes, with overflow checks or without: no map lookup, position or chunk number
  overflows, and no slice of the index, the bevy, the chunk or the buffer and no index into a tile
  is out of range, for any position, buffer and codec.
\<close>

theorem read_never_panics:
  assumes "reader_ok r" and "unat (rd_chunk_size r) \<le> isize_max"
    and "12 * unat (rd_chunks_per_segment r) < 2 ^ 64"
  shows "no_panic (aff4_read oc cd r buf)"
  by (rule no_panic_read_ok [OF assms])

lemma read_never_panics_witness: "no_panic (aff4_read True demo_codecs demo_reader [1, 2])"
  by (rule read_never_panics [OF demo_reader_ok]) (simp_all add: isize_max_def)

text \<open>
  C33. Without overflow checks reading never panics on a container that opens with a declared chunk
  size of at most \<^verbatim>\<open>isize::MAX\<close>, however its map overlaps or overflows, at any point of any session:
  every slice and index of the read path is in range.
\<close>

theorem release_read_never_panics:
  assumes "open_reader zo sr backing = Inr r" and "session False cd r es r'"
    and "unat (rd_chunk_size r) \<le> isize_max"
  shows "no_panic (aff4_read False cd r' buf)"
proof (rule no_panic_read_release)
  note same = session_same_image [OF assms(2)]
  show "reader_wf r'" using open_reader_wf [OF assms(1)] same_image_facts(3) [OF same] by simp
  show "unat (rd_chunk_size r') \<le> isize_max" using assms(3) same by (auto simp: same_image_def)
qed

lemma release_read_never_panics_witness:
  "\<exists>r. open_reader (\<lambda>_. Inr (archive_of (single_chunk_entries ''aff4:NullCompressor'' (replicate 512 1))))
      safe_read_impl [] = Inr r \<and> no_panic (aff4_read False demo_codecs r [0])"
proof -
  let ?r = "stream_reader (single_chunk_entries ''aff4:NullCompressor'' (replicate 512 1)) 512 512 1"
  have o: "open_reader (\<lambda>_. Inr (archive_of (single_chunk_entries ''aff4:NullCompressor'' (replicate 512 1))))
      safe_read_impl [] = Inr ?r"
    by (rule fixture_opens_reader) (rule refl)
  have "no_panic (aff4_read False demo_codecs ?r [0])"
    by (rule release_read_never_panics [OF o session_done]) (simp add: stream_reader_def isize_max_def)
  with o show ?thesis by blast
qed

end
